(* ===== verification/Prelude.thy ===== *)
theory Prelude
  imports Main "HOL-Library.Word" "HOL-Library.Sublist"
begin

text \<open>
  Vocabulary shared by every component: Go's byte strings, its fixed-width integers, the
  outcome of a call that may panic, and the few functions of the packages \<open>bytes\<close>,
  \<open>strings\<close> and \<open>bufio\<close> that the program calls, with the lemmas the component
  proofs rewrite with.  A Go \<open>string\<close> and a Go \<open>[]byte\<close> are both lists of
  8-bit characters (HOL's \<open>char\<close> is exactly one byte).
\<close>

section \<open>Types\<close>

type_synonym bytes = "char list"
type_synonym u16 = "16 word"
type_synonym u32 = "32 word"
type_synonym u64 = "64 word"

text \<open>
  \<open>i64\<close> is Go's \<open>int64\<close> (and \<open>int\<close> and \<open>time.Duration\<close>, which are 64 bits
  wide on the platforms the program is released for): a 64-bit word read with \<open>sint\<close>.
\<close>

type_synonym i64 = "64 word"

text \<open>
  A call either returns or panics; no function of the program recovers, so a panic ends
  the process.  The constructors name the ways to panic that the code can reach.
\<close>

datatype panic =
    PanicMsg string
  | NilDeref
  | IndexOutOfRange
  | SendOnClosed

type_synonym 'a go = "panic + 'a"

definition go_bind :: "'a go \<Rightarrow> ('a \<Rightarrow> 'b go) \<Rightarrow> 'b go" where
  "go_bind m f = (case m of Inl p \<Rightarrow> Inl p | Inr a \<Rightarrow> f a)"

lemma go_bind_simps [simp]:
  "go_bind (Inl p) f = Inl p"
  "go_bind (Inr a) f = f a"
  by (simp_all add: go_bind_def)

lemma go_bind_Inr_conv: "go_bind m f = Inr b \<longleftrightarrow> (\<exists>a. m = Inr a \<and> f a = Inr b)"
  by (cases m) auto

lemma go_bind_Inl_conv:
  "go_bind m f = Inl p \<longleftrightarrow> m = Inl p \<or> (\<exists>a. m = Inr a \<and> f a = Inl p)"
  by (cases m) auto

named_theorems go_convs \<open>how a sequence of fallible calls can have ended\<close>

declare go_bind_Inr_conv [go_convs] go_bind_Inl_conv [go_convs]

text \<open>A loop of fallible steps over a list.\<close>

fun go_fold :: "('s \<Rightarrow> 'a \<Rightarrow> 's go) \<Rightarrow> 's \<Rightarrow> 'a list \<Rightarrow> 's go" where
  "go_fold f s [] = Inr s"
| "go_fold f s (x # xs) = go_bind (f s x) (\<lambda>s'. go_fold f s' xs)"

lemma go_fold_append: "go_fold f s (xs @ ys) = go_bind (go_fold f s xs) (\<lambda>s'. go_fold f s' ys)"
  by (induction xs arbitrary: s) (simp_all add: go_bind_def split: sum.splits)

section \<open>Bytes and lines\<close>

abbreviation LF :: char where "LF \<equiv> CHR 0x0A"
abbreviation CR :: char where "CR \<equiv> CHR 0x0D"

text \<open>\<open>bytes.Cut\<close> and \<open>strings.Cut\<close> with a separator of one byte.\<close>

definition cut :: "char \<Rightarrow> bytes \<Rightarrow> bytes \<times> bytes \<times> bool" where
  "cut c s = (if c \<in> set s
     then (takeWhile (\<lambda>x. x \<noteq> c) s, tl (dropWhile (\<lambda>x. x \<noteq> c) s), True)
     else (s, [], False))"

lemma takeWhile_dropWhile_neq:
  "c \<notin> set a \<Longrightarrow> takeWhile (\<lambda>x. x \<noteq> c) (a @ c # b) = a"
  "c \<notin> set a \<Longrightarrow> dropWhile (\<lambda>x. x \<noteq> c) (a @ c # b) = c # b"
  by (induction a) auto

lemma cut_found [simp]: "c \<notin> set a \<Longrightarrow> cut c (a @ c # b) = (a, b, True)"
  by (simp add: cut_def takeWhile_dropWhile_neq)

lemma cut_missing [simp]: "c \<notin> set s \<Longrightarrow> cut c s = (s, [], False)"
  by (simp add: cut_def)

lemma cut_cases:
  obtains (found) a b where "s = a @ c # b" "c \<notin> set a" "cut c s = (a, b, True)"
    | (missing) "c \<notin> set s" "cut c s = (s, [], False)"
proof (cases "c \<in> set s")
  case True
  then obtain a b where "s = a @ c # b" "c \<notin> set a"
    by (meson split_list_first)
  with found show ?thesis by simp
next
  case False
  with missing show ?thesis by simp
qed

lemma cut_rest_shorter: "cut c s = (a, b, True) \<Longrightarrow> length b < length s"
  by (rule cut_cases [of s c]) auto

text \<open>\<open>bytes.Contains\<close> and \<open>strings.Contains\<close>.\<close>

fun Contains :: "bytes \<Rightarrow> bytes \<Rightarrow> bool" where
  "Contains [] sub = (sub = [])"
| "Contains (c # s) sub = (take (length sub) (c # s) = sub \<or> Contains s sub)"

text \<open>
  \<open>raw_lines\<close> splits at every line feed; what follows the last one is a line only if it
  is not empty (\<open>bufio.ScanLines\<close>), and \<open>drop_cr\<close> removes one trailing carriage
  return, as the scanner does.
\<close>

fun raw_lines :: "bytes \<Rightarrow> bytes list" where
  "raw_lines [] = []"
| "raw_lines (c # cs) =
     (if c = LF then [] # raw_lines cs
      else case raw_lines cs of [] \<Rightarrow> [[c]] | l # ls \<Rightarrow> (c # l) # ls)"

definition drop_cr :: "bytes \<Rightarrow> bytes" where
  "drop_cr l = (if l \<noteq> [] \<and> last l = CR then butlast l else l)"

definition unlines :: "bytes list \<Rightarrow> bytes" where
  "unlines ls = concat (map (\<lambda>l. l @ [LF]) ls)"

lemma unlines_simps [simp]:
  "unlines [] = []"
  "unlines (l # ls) = l @ LF # unlines ls"
  "unlines (ls @ ms) = unlines ls @ unlines ms"
  by (simp_all add: unlines_def)

lemma raw_lines_line: "LF \<notin> set l \<Longrightarrow> raw_lines (l @ LF # rest) = l # raw_lines rest"
  by (induction l) auto

lemma raw_lines_unlines:
  "\<forall>l \<in> set ls. LF \<notin> set l \<Longrightarrow> raw_lines (unlines ls) = ls"
  by (induction ls) (auto simp: raw_lines_line)

lemma raw_lines_last: "LF \<notin> set l \<Longrightarrow> l \<noteq> [] \<Longrightarrow> raw_lines l = [l]"
proof (induction l)
  case (Cons c l)
  then show ?case by (cases "l = []") auto
qed simp

lemma raw_lines_no_LF: "l \<in> set (raw_lines s) \<Longrightarrow> LF \<notin> set l"
  by (induction s arbitrary: l) (auto split: if_splits list.splits)

lemma drop_cr_id: "l = [] \<or> last l \<noteq> CR \<Longrightarrow> drop_cr l = l"
  by (auto simp: drop_cr_def)

section \<open>64-bit signed integers\<close>

text \<open>
  \<open>time.Duration\<close>, \<open>int\<close> and \<open>int64\<close> values are integers in the range of 64 bits, and a sum
  that leaves the range is brought back by \<open>wrap64\<close>.
\<close>

type_synonym duration = int

definition wrap64 :: "int \<Rightarrow> int" where
  "wrap64 n = (n + 2 ^ 63) mod 2 ^ 64 - 2 ^ 63"

definition fits64 :: "int \<Rightarrow> bool" where
  "fits64 n \<longleftrightarrow> - (2 ^ 63) \<le> n \<and> n < 2 ^ 63"

lemma wrap64_id [simp]: "fits64 n \<Longrightarrow> wrap64 n = n"
  by (simp add: wrap64_def fits64_def)

lemma fits64_wrap64: "fits64 (wrap64 n)"
  by (simp add: fits64_def wrap64_def)

text \<open>\<open>time.Time.Sub\<close> saturates.\<close>

definition sat64 :: "int \<Rightarrow> duration" where
  "sat64 x = max (- (2 ^ 63)) (min (2 ^ 63 - 1) x)"

lemma sat64_id: "- (2 ^ 63) \<le> x \<Longrightarrow> x < 2 ^ 63 \<Longrightarrow> sat64 x = x"
  by (simp add: sat64_def)

abbreviation Millisecond :: duration where "Millisecond \<equiv> 1000000"
abbreviation Second :: duration where "Second \<equiv> 1000000000"

section \<open>Lists and words\<close>

lemma nth_append_eq [simp]: "i < length xs \<Longrightarrow> (xs @ ys) ! i = xs ! i"
  by (simp add: nth_append)

text \<open>The number of values of a \<open>uint16\<close>, kept folded in the proofs.\<close>

definition u16_values :: nat where
  "u16_values = 65536"

lemma unat_of_nat_u16: "n < u16_values \<Longrightarrow> unat (of_nat n :: u16) = n"
  by (simp add: u16_values_def unsigned_of_nat take_bit_nat_eq_self)

lemma unat_u16_less: "unat (w :: u16) < u16_values"
  using unsigned_less [of w] by (simp add: u16_values_def)

section \<open>Runs of a system\<close>

text \<open>
  A component that interacts with others is a function from an action and a state to the next state,
  None where the action is not possible.  A run is a list of actions.
\<close>

fun run_steps :: "('a \<Rightarrow> 's \<Rightarrow> 's option) \<Rightarrow> 'a list \<Rightarrow> 's \<Rightarrow> 's option" where
  "run_steps step [] s = Some s"
| "run_steps step (a # as) s = Option.bind (step a s) (run_steps step as)"

lemma run_steps_append:
  "run_steps step (as @ bs) s = Option.bind (run_steps step as s) (run_steps step bs)"
  by (induction as arbitrary: s) (auto split: bind_splits)

definition guard :: "bool \<Rightarrow> 's \<Rightarrow> 's option" where
  "guard b s = (if b then Some s else None)"

lemma guard_Some [simp]: "guard b s = Some s' \<longleftrightarrow> b \<and> s' = s"
  by (auto simp: guard_def)

text \<open>
  The contract of an invariant: it survives each action of the kind considered, so it survives each
  run of such actions, and holds in each state they reach.
\<close>

locale invariant_of =
  fixes step :: "'a \<Rightarrow> 's \<Rightarrow> 's option" and allowed :: "'a \<Rightarrow> bool" and holds :: "'s \<Rightarrow> bool"
  assumes step_holds: "holds s \<Longrightarrow> allowed a \<Longrightarrow> step a s = Some s' \<Longrightarrow> holds s'"
begin

lemma run_holds: "run_steps step as s = Some s' \<Longrightarrow> list_all allowed as \<Longrightarrow> holds s \<Longrightarrow> holds s'"
  by (induction as arbitrary: s) (auto split: bind_splits dest: step_holds)

end

inductive reachable :: "('a \<Rightarrow> 's \<Rightarrow> 's option) \<Rightarrow> 's \<Rightarrow> 's \<Rightarrow> bool" for step s0 where
  start: "reachable step s0 s0"
| step: "reachable step s0 s \<Longrightarrow> step a s = Some s' \<Longrightarrow> reachable step s0 s'"

lemma run_reachable: "run_steps step as s = Some s' \<Longrightarrow> reachable step s0 s \<Longrightarrow> reachable step s0 s'"
  by (induction as arbitrary: s) (auto split: bind_splits intro: reachable.step)

context invariant_of begin

lemma reachable_holds:
  assumes "reachable step s0 s" "holds s0" "\<And>a. allowed a"
  shows "holds s"
  using assms(1) by induction (use assms(2,3) step_holds in blast)+

end

end
