(* ===== verification/Float64.thy ===== *)
theory Float64
  imports Prelude Complex_Main
begin

text \<open>
  Go's \<open>float64\<close> (IEEE 754 binary64, round to nearest even), as far as the program computes
  with it: the schedule generators, the ratio test of the input reader and
  \<open>Duration.Seconds\<close>.  A finite value is a sign, an integer mantissa and an exponent; every
  operation computes the exact result on integers and rounds once.  No two operations are
  fused, which is how the compiler translates them on amd64.
\<close>

section \<open>Values\<close>

datatype f64 =
    FNaN
  | FInf bool
  | FFin bool int int \<comment> \<open>sign (true is minus), mantissa, exponent\<close>

definition canonical :: "f64 \<Rightarrow> bool" where
  "canonical x = (case x of
     FFin s m e \<Rightarrow> 0 \<le> m \<and> m < 2 ^ 53 \<and> -1074 \<le> e \<and> e \<le> 971 \<and> (2 ^ 52 \<le> m \<or> e = -1074)
   | _ \<Rightarrow> True)"

definition fzero :: "bool \<Rightarrow> f64" where
  "fzero s = FFin s 0 (-1074)"

section \<open>Rounding\<close>

text \<open>The number of binary digits, and the integer square root.\<close>

function blen :: "int \<Rightarrow> int" where
  "blen n = (if n \<le> 0 then 0 else 1 + blen (n div 2))"
  by pat_completeness auto
termination
  by (relation "measure nat") auto

function isqrt :: "int \<Rightarrow> int" where
  "isqrt n = (if n \<le> 0 then 0
     else let r = isqrt (n div 4) in if (2 * r + 1) * (2 * r + 1) \<le> n then 2 * r + 1 else 2 * r)"
  by pat_completeness auto
termination
  by (relation "measure nat") auto

declare blen.simps [simp del] isqrt.simps [simp del]

text \<open>\<open>pow2 e\<close> is \<open>2\<^sup>e\<close>, or 1 for a negative exponent: \<open>2\<^sup>e = pow2 e / pow2 (-e)\<close>.\<close>

definition pow2 :: "int \<Rightarrow> int" where
  "pow2 e = 2 ^ nat e"

text \<open>\<open>a / b\<close> rounded to the nearest integer, ties to even.\<close>

definition rne :: "int \<Rightarrow> int \<Rightarrow> int" where
  "rne a b =
     (let q = a div b; r = a mod b
      in if 2 * r < b then q else if b < 2 * r then q + 1 else if even q then q else q + 1)"

text \<open>The exponent of the leading bit of \<open>a / b\<close>.\<close>

definition lead :: "int \<Rightarrow> int \<Rightarrow> int" where
  "lead a b =
     (let k = blen a - blen b
      in if b * pow2 k \<le> a * pow2 (- k) then k else k - 1)"

text \<open>The double nearest to \<open>\<plusminus> a / b\<close>, for \<open>0 \<le> a\<close> and \<open>0 < b\<close>.\<close>

definition fround :: "bool \<Rightarrow> int \<Rightarrow> int \<Rightarrow> f64" where
  "fround s a b =
     (if a = 0 then fzero s
      else
        let e = max (lead a b - 52) (-1074);
            m = rne (a * pow2 (- e)) (b * pow2 e);
            (m', e') = (if m = 2 ^ 53 then (2 ^ 52, e + 1) else (m, e))
        in if 971 < e' then FInf s else FFin s m' e')"

section \<open>Arithmetic\<close>

definition sg :: "bool \<Rightarrow> int \<Rightarrow> int" where
  "sg s m = (if s then - m else m)"

text \<open>The exponent two mantissas are brought to; a zero has none of its own.\<close>

definition align :: "int \<Rightarrow> int \<Rightarrow> int \<Rightarrow> int \<Rightarrow> int" where
  "align m e n f = (if m = 0 then f else if n = 0 then e else min e f)"

fun f64_uminus :: "f64 \<Rightarrow> f64" where
  "f64_uminus FNaN = FNaN"
| "f64_uminus (FInf s) = FInf (\<not> s)"
| "f64_uminus (FFin s m e) = FFin (\<not> s) m e"

fun f64_add :: "f64 \<Rightarrow> f64 \<Rightarrow> f64" where
  "f64_add FNaN _ = FNaN"
| "f64_add _ FNaN = FNaN"
| "f64_add (FInf s) (FInf t) = (if s = t then FInf s else FNaN)"
| "f64_add (FInf s) _ = FInf s"
| "f64_add _ (FInf t) = FInf t"
| "f64_add (FFin s m e) (FFin t n f) =
     (let g = align m e n f;
          r = sg s m * pow2 (e - g) + sg t n * pow2 (f - g)
      in if r = 0 then fzero (s \<and> t)
         else fround (r < 0) (\<bar>r\<bar> * pow2 g) (pow2 (- g)))"

fun f64_mul :: "f64 \<Rightarrow> f64 \<Rightarrow> f64" where
  "f64_mul FNaN _ = FNaN"
| "f64_mul _ FNaN = FNaN"
| "f64_mul (FInf s) (FInf t) = FInf (s \<noteq> t)"
| "f64_mul (FInf s) (FFin t n _) = (if n = 0 then FNaN else FInf (s \<noteq> t))"
| "f64_mul (FFin s m _) (FInf t) = (if m = 0 then FNaN else FInf (s \<noteq> t))"
| "f64_mul (FFin s m e) (FFin t n f) =
     fround (s \<noteq> t) (m * n * pow2 (e + f)) (pow2 (- (e + f)))"

fun f64_div :: "f64 \<Rightarrow> f64 \<Rightarrow> f64" where
  "f64_div FNaN _ = FNaN"
| "f64_div _ FNaN = FNaN"
| "f64_div (FInf _) (FInf _) = FNaN"
| "f64_div (FInf s) (FFin t _ _) = FInf (s \<noteq> t)"
| "f64_div (FFin s _ _) (FInf t) = fzero (s \<noteq> t)"
| "f64_div (FFin s m e) (FFin t n f) =
     (if n = 0 then (if m = 0 then FNaN else FInf (s \<noteq> t))
      else fround (s \<noteq> t) (m * pow2 (e - f)) (n * pow2 (f - e)))"

text \<open>
  \<open>math.Sqrt\<close> is correctly rounded.  The mantissa is scaled to at least 112 bits, so that the
  integer root has more than 55; an inexact root is rounded as the root and a half, which is
  on the same side of every rounding boundary.
\<close>

fun f64_sqrt :: "f64 \<Rightarrow> f64" where
  "f64_sqrt FNaN = FNaN"
| "f64_sqrt (FInf s) = (if s then FNaN else FInf False)"
| "f64_sqrt (FFin s m e) =
     (if m = 0 then FFin s m e
      else if s then FNaN
      else
        let k = (112 - e) div 2;
            n = m * pow2 (e + 2 * k);
            r = isqrt n
        in if r * r = n then fround False (r * pow2 (- k)) (pow2 k)
           else fround False ((2 * r + 1) * pow2 (- k - 1)) (pow2 (k + 1)))"

text \<open>Comparison; every comparison with a NaN is false.\<close>

fun f64_cmp :: "(int \<Rightarrow> int \<Rightarrow> bool) \<Rightarrow> f64 \<Rightarrow> f64 \<Rightarrow> bool" where
  "f64_cmp R FNaN _ = False"
| "f64_cmp R _ FNaN = False"
| "f64_cmp R (FInf s) (FInf t) = R (sg s 1) (sg t 1)"
| "f64_cmp R (FInf s) _ = R (sg s 1) 0"
| "f64_cmp R _ (FInf t) = R 0 (sg t 1)"
| "f64_cmp R (FFin s m e) (FFin t n f) =
     (let g = align m e n f in R (sg s m * pow2 (e - g)) (sg t n * pow2 (f - g)))"

definition f64_eq :: "f64 \<Rightarrow> f64 \<Rightarrow> bool" where
  "f64_eq = f64_cmp (=)"

text \<open>The operators the code writes, by instances of the syntactic classes.\<close>

instantiation f64 :: "{plus, minus, times, inverse, uminus, ord}"
begin

definition plus_f64 :: "f64 \<Rightarrow> f64 \<Rightarrow> f64" where "plus_f64 = f64_add"
definition minus_f64 :: "f64 \<Rightarrow> f64 \<Rightarrow> f64" where "minus_f64 x y = f64_add x (f64_uminus y)"
definition times_f64 :: "f64 \<Rightarrow> f64 \<Rightarrow> f64" where "times_f64 = f64_mul"
definition divide_f64 :: "f64 \<Rightarrow> f64 \<Rightarrow> f64" where "divide_f64 = f64_div"
definition inverse_f64 :: "f64 \<Rightarrow> f64" where "inverse_f64 x = f64_div (FFin False (2 ^ 52) (-52)) x"
definition uminus_f64 :: "f64 \<Rightarrow> f64" where "uminus_f64 = f64_uminus"
definition less_f64 :: "f64 \<Rightarrow> f64 \<Rightarrow> bool" where "less_f64 = f64_cmp (<)"
definition less_eq_f64 :: "f64 \<Rightarrow> f64 \<Rightarrow> bool" where "less_eq_f64 = f64_cmp (\<le>)"

instance ..

end

lemmas f64_ops =
  plus_f64_def minus_f64_def times_f64_def divide_f64_def uminus_f64_def
  less_f64_def less_eq_f64_def f64_eq_def

section \<open>Conversions\<close>

definition f64_of_int :: "int \<Rightarrow> f64" where
  "f64_of_int n = fround (n < 0) \<bar>n\<bar> 1"

text \<open>
  The integer a double truncates to, and its conversion to \<open>int64\<close>.  The language leaves the
  conversion of a value out of range to the implementation: None.
\<close>

fun f64_trunc :: "f64 \<Rightarrow> int option" where
  "f64_trunc (FFin s m e) = Some (sg s (m * pow2 e div pow2 (- e)))"
| "f64_trunc _ = None"

definition i64_of_f64 :: "f64 \<Rightarrow> int option" where
  "i64_of_f64 x = (case f64_trunc x of
     Some n \<Rightarrow> if - (2 ^ 63) \<le> n \<and> n < 2 ^ 63 then Some n else None
   | None \<Rightarrow> None)"

text \<open>\<open>math.Float64bits\<close> and its inverse; all NaNs are written as the canonical one.\<close>

fun f64_bits :: "f64 \<Rightarrow> int" where
  "f64_bits FNaN = 0x7FF8000000000001"
| "f64_bits (FInf s) = (if s then 2 ^ 63 else 0) + 2047 * 2 ^ 52"
| "f64_bits (FFin s m e) = (if s then 2 ^ 63 else 0) + (e + 1074) * 2 ^ 52 + m"

definition f64_from_bits :: "int \<Rightarrow> f64" where
  "f64_from_bits n =
     (let s = 2 ^ 63 \<le> n; x = n div 2 ^ 52 mod 2048; f = n mod 2 ^ 52
      in if x = 2047 then (if f = 0 then FInf s else FNaN)
         else if x = 0 then FFin s f (-1074)
         else FFin s (f + 2 ^ 52) (x - 1075))"

end
