(* ===== verification/Float64_Facts.thy ===== *)
theory Float64_Facts
  imports Float64
begin

text \<open>
  What the float model computes: every rounded result is the double nearest to the exact one
  (\<open>fval_fround\<close>, with the reference function \<open>rnd\<close> on the reals), rounding is monotone,
  integers below \<open>2\<^sup>5\<^sup>3\<close> are exact, every operation yields a canonical value, and the bit
  pattern determines the value.
\<close>

section \<open>Powers of two\<close>

lemma pow2_pos [simp]: "0 < pow2 e" "0 \<le> pow2 e" "pow2 e \<noteq> 0"
  by (simp_all add: pow2_def)

lemma pow2_ratio: "real_of_int (pow2 e) / real_of_int (pow2 (- e)) = 2 powi e"
  by (cases "0 \<le> e") (auto simp: pow2_def power_int_def field_simps)

lemma pow2_nonneg: "0 \<le> e \<Longrightarrow> real_of_int (pow2 e) = 2 powi e"
  by (simp add: pow2_def power_int_def)

lemma powi_mono2: "a \<le> b \<Longrightarrow> (2::real) powi a \<le> 2 powi b"
  by (simp add: power_int_increasing)

lemma powi_nat: "0 \<le> e \<Longrightarrow> (2::real) powi e = real_of_int (2 ^ nat e)"
  by (simp add: power_int_def)

lemma powi_quot: "e \<le> k \<Longrightarrow> (2::real) powi k / 2 powi e = real_of_int (2 ^ nat (k - e))"
proof -
  assume "e \<le> k"
  have "(2::real) powi k / 2 powi e = 2 powi (k - e)"
    by (simp only: power_int_diff zero_neq_numeral [symmetric] not_False_eq_True simp_thms)
  also have "\<dots> = real_of_int (2 ^ nat (k - e))"
    using \<open>e \<le> k\<close> by (intro powi_nat) simp
  finally show ?thesis .
qed

lemma powi_not_neg [simp]: "\<not> (2::real) powi e < 0"
  by (simp add: not_less)

lemma powi_less_cancel: "(2::real) powi a < 2 powi b \<Longrightarrow> a < b"
  by (meson linorder_not_less powi_mono2)

lemma scale_ratio:
  "0 < b \<Longrightarrow> real_of_int (a * pow2 (- e)) / real_of_int (b * pow2 e) = real_of_int a / real_of_int b / 2 powi e"
  using pow2_ratio [of e] by (simp add: field_simps)

lemma blen_bounds:
  assumes "0 < n"
  shows "2 powi (blen n - 1) \<le> real_of_int n \<and> real_of_int n < 2 powi blen n"
  using assms
proof (induction n rule: blen.induct)
  case (1 n)
  show ?case
  proof (cases "n = 1")
    case True
    then show ?thesis by (simp add: blen.simps)
  next
    case False
    with 1 have IH: "2 powi (blen (n div 2) - 1) \<le> real_of_int (n div 2)
        \<and> real_of_int (n div 2) < 2 powi blen (n div 2)"
      by auto
    have step: "blen n = 1 + blen (n div 2)"
      using 1 by (simp add: blen.simps [of n])
    have up: "2 powi (1 + z) = 2 * (2::real) powi z" for z
      by (simp add: power_int_add)
    have "2 powi blen (n div 2) = 2 * (2::real) powi (blen (n div 2) - 1)"
      using up [of "blen (n div 2) - 1"] by simp
    then have "2 powi (blen n - 1) \<le> 2 * real_of_int (n div 2)"
      using IH step by simp
    also have "2 * (n div 2) \<le> n" by simp
    then have "2 * real_of_int (n div 2) \<le> real_of_int n"
      by (metis of_int_le_iff of_int_mult of_int_numeral)
    finally have lo: "2 powi (blen n - 1) \<le> real_of_int n" .
    have "0 \<le> blen (n div 2)"
      by (rule ccontr) (use IH 1 False powi_mono2 [of "blen (n div 2)" "-1"] in \<open>auto simp: power_int_def\<close>)
    then obtain k where k: "blen (n div 2) = int k" by (metis nonneg_int_cases)
    with IH have "real_of_int (n div 2) < real_of_int (2 ^ k)"
      by (simp add: power_int_def)
    then have "n div 2 < 2 ^ k" by (simp only: of_int_less_iff)
    then have "n < 2 * 2 ^ k" by linarith
    then have "real_of_int n < real_of_int (2 * 2 ^ k)" by (simp only: of_int_less_iff)
    then have "real_of_int n < 2 powi blen n"
      using step k up [of "int k"] by (simp add: power_int_def)
    with lo show ?thesis by simp
  qed
qed

lemma lead_bounds:
  assumes "0 < a" "0 < b"
  shows "2 powi lead a b \<le> real_of_int a / real_of_int b"
    "real_of_int a / real_of_int b < 2 powi (lead a b + 1)"
proof -
  let ?x = "real_of_int a / real_of_int b" and ?k = "blen a - blen b"
  have pos: "0 < real_of_int a" "0 < real_of_int b" using assms by simp_all
  note a = blen_bounds [OF assms(1)] and b = blen_bounds [OF assms(2)]
  have quot: "2 powi m / 2 powi n = (2::real) powi (m - n)" for m n
    by (simp add: power_int_diff)
  have "2 powi (blen a - 1) / 2 powi (blen b) \<le> ?x"
    using a b pos by (intro frac_le) auto
  then have lo: "2 powi (?k - 1) \<le> ?x" by (simp add: quot algebra_simps)
  have "?x < 2 powi (blen a) / 2 powi (blen b - 1)"
    using a b pos by (intro frac_less) auto
  then have hi: "?x < 2 powi (?k + 1)" by (simp add: quot algebra_simps)
  have test: "b * pow2 ?k \<le> a * pow2 (- ?k) \<longleftrightarrow> 2 powi ?k \<le> ?x"
  proof -
    have "b * pow2 ?k \<le> a * pow2 (- ?k) \<longleftrightarrow>
        real_of_int (b * pow2 ?k) \<le> real_of_int (a * pow2 (- ?k))"
      by (simp only: of_int_le_iff)
    also have "\<dots> \<longleftrightarrow> real_of_int (pow2 ?k) / real_of_int (pow2 (- ?k)) \<le> ?x"
      using pos by (simp add: field_simps)
    finally show ?thesis by (simp only: pow2_ratio)
  qed
  show "2 powi lead a b \<le> ?x" "?x < 2 powi (lead a b + 1)"
    using lo hi test by (auto simp: lead_def Let_def)
qed

section \<open>Rounding to an integer\<close>

definition Rne :: "real \<Rightarrow> int" where
  "Rne x = (let q = \<lfloor>x\<rfloor>; f = x - real_of_int q
     in if f < 1/2 then q else if 1/2 < f then q + 1 else if even q then q else q + 1)"

lemma rne_Rne:
  assumes "0 < b"
  shows "rne a b = Rne (real_of_int a / real_of_int b)"
proof -
  have fl: "\<lfloor>real_of_int a / real_of_int b\<rfloor> = a div b"
    by (rule floor_divide_of_int_eq)
  have "real_of_int a = real_of_int (a div b) * real_of_int b + real_of_int (a mod b)"
    by (metis of_int_add of_int_mult div_mult_mod_eq)
  then have f1: "real_of_int a / real_of_int b - real_of_int (a div b) = real_of_int (a mod b) / real_of_int b"
    using assms by (simp add: field_simps)
  have f2: "real_of_int (a mod b) / real_of_int b < 1/2 \<longleftrightarrow> 2 * (a mod b) < b"
    and f3: "1/2 < real_of_int (a mod b) / real_of_int b \<longleftrightarrow> b < 2 * (a mod b)"
  proof -
    have "real_of_int (a mod b) / real_of_int b < 1/2 \<longleftrightarrow> real_of_int (2 * (a mod b)) < real_of_int b"
      using assms by (simp add: field_simps)
    then show "real_of_int (a mod b) / real_of_int b < 1/2 \<longleftrightarrow> 2 * (a mod b) < b"
      by (simp only: of_int_less_iff)
    have "1/2 < real_of_int (a mod b) / real_of_int b \<longleftrightarrow> real_of_int b < real_of_int (2 * (a mod b))"
      using assms by (simp add: field_simps)
    then show "1/2 < real_of_int (a mod b) / real_of_int b \<longleftrightarrow> b < 2 * (a mod b)"
      by (simp only: of_int_less_iff)
  qed
  show ?thesis
    by (simp only: rne_def Rne_def Let_def fl f1 f2 f3)
qed

lemma Rne_near: "\<bar>real_of_int (Rne x) - x\<bar> \<le> 1/2"
proof -
  have "real_of_int \<lfloor>x\<rfloor> \<le> x" "x < real_of_int \<lfloor>x\<rfloor> + 1" by linarith+
  then show ?thesis by (simp add: Rne_def Let_def)
qed

lemma Rne_of_int [simp]: "Rne (real_of_int n) = n"
  by (simp add: Rne_def)

lemma Rne_mono: "x \<le> y \<Longrightarrow> Rne x \<le> Rne y"
proof (rule ccontr)
  assume le: "x \<le> y" and "\<not> Rne x \<le> Rne y"
  then have "Rne y + 1 \<le> Rne x" by simp
  then have "real_of_int (Rne y) + 1 \<le> real_of_int (Rne x)" by linarith
  with Rne_near [of x] Rne_near [of y] le have "x = y" by linarith
  with \<open>\<not> Rne x \<le> Rne y\<close> show False by simp
qed

section \<open>Rounding to a double\<close>

text \<open>
  The reference: the exponent of the last place of the doubles around \<open>x\<close>, and the multiple
  of that unit nearest to \<open>x\<close>.
\<close>

definition ulp_exp :: "real \<Rightarrow> int" where
  "ulp_exp x = max (\<lfloor>log 2 x\<rfloor> - 52) (-1074)"

definition rnd :: "real \<Rightarrow> real" where
  "rnd x = (if x \<le> 0 then 0 else real_of_int (Rne (x / 2 powi ulp_exp x)) * 2 powi ulp_exp x)"

definition fval :: "f64 \<Rightarrow> real" where
  "fval x = (case x of FFin s m e \<Rightarrow> real_of_int (sg s m) * 2 powi e | _ \<Rightarrow> 0)"

definition finite_f64 :: "f64 \<Rightarrow> bool" where
  "finite_f64 x = (case x of FFin s m e \<Rightarrow> True | _ \<Rightarrow> False)"

lemma floor_log2:
  assumes "2 powi k \<le> x" "x < 2 powi (k + 1)"
  shows "\<lfloor>log 2 x\<rfloor> = k"
proof -
  have "0 < (2::real) powi k" by simp
  with assms(1) have x: "0 < x" by linarith
  have conv: "(2::real) powi j = 2 powr real_of_int j" for j
    by (simp add: powr_real_of_int')
  have "real_of_int k \<le> log 2 x"
    using assms(1) x by (simp add: conv le_log_iff)
  moreover have "log 2 x < real_of_int (k + 1)"
    using assms(2) x by (simp add: conv log_less_iff)
  ultimately show ?thesis by (simp add: floor_eq_iff)
qed

lemma ulp_exp_bounds:
  assumes "0 < x"
  shows "2 powi \<lfloor>log 2 x\<rfloor> \<le> x" "x < 2 powi (\<lfloor>log 2 x\<rfloor> + 1)" "x < 2 powi (ulp_exp x + 53)"
proof -
  have conv: "(2::real) powi j = 2 powr real_of_int j" for j
    by (simp add: powr_real_of_int')
  show lo: "2 powi \<lfloor>log 2 x\<rfloor> \<le> x"
    using assms by (simp add: conv le_log_iff [symmetric])
  show hi: "x < 2 powi (\<lfloor>log 2 x\<rfloor> + 1)"
    using assms by (simp add: conv log_less_iff [symmetric] del: of_int_add) linarith
  have "(2::real) powi (\<lfloor>log 2 x\<rfloor> + 1) \<le> 2 powi (ulp_exp x + 53)"
    by (rule powi_mono2) (simp add: ulp_exp_def)
  with hi show "x < 2 powi (ulp_exp x + 53)" by linarith
qed

lemma Rne_ulp_bound:
  assumes "0 < x"
  shows "0 \<le> Rne (x / 2 powi ulp_exp x)" "Rne (x / 2 powi ulp_exp x) \<le> 2 ^ 53"
    "-1074 < ulp_exp x \<Longrightarrow> 2 ^ 52 \<le> Rne (x / 2 powi ulp_exp x)"
proof -
  let ?e = "ulp_exp x"
  have "Rne 0 \<le> Rne (x / 2 powi ?e)"
    using assms by (intro Rne_mono) simp
  then show "0 \<le> Rne (x / 2 powi ?e)"
    using Rne_of_int [of 0] by simp
  have "x / 2 powi ?e \<le> 2 powi 53"
    using ulp_exp_bounds(3) [OF assms] by (simp add: power_int_add field_simps)
  then have "x / 2 powi ?e \<le> real_of_int (2 ^ 53)"
    by (simp add: power_int_def)
  from Rne_mono [OF this] show "Rne (x / 2 powi ?e) \<le> 2 ^ 53" by (simp only: Rne_of_int)
  assume "-1074 < ?e"
  then have "?e + 52 = \<lfloor>log 2 x\<rfloor>" by (simp add: ulp_exp_def)
  then have "2 powi (?e + 52) \<le> x"
    using ulp_exp_bounds(1) [OF assms] by simp
  then have "real_of_int (2 ^ 52) \<le> x / 2 powi ?e"
    by (simp add: power_int_add field_simps)
  from Rne_mono [OF this] show "2 ^ 52 \<le> Rne (x / 2 powi ?e)" by (simp only: Rne_of_int)
qed

lemma rnd_nonneg: "0 \<le> rnd x"
  using Rne_ulp_bound(1) [of x] by (auto simp: rnd_def)

text \<open>A power of two not below the last place is a double.\<close>

lemma rnd_below_power:
  assumes "0 < x" "x \<le> 2 powi k" "ulp_exp x \<le> k"
  shows "rnd x \<le> 2 powi k"
proof -
  let ?e = "ulp_exp x"
  have k: "2 powi k / 2 powi ?e = real_of_int (2 ^ nat (k - ?e))"
    using assms(3) by (rule powi_quot)
  have "x / 2 powi ?e \<le> 2 powi k / 2 powi ?e"
    using assms(2) by (simp add: divide_right_mono)
  from Rne_mono [OF this] have "Rne (x / 2 powi ?e) \<le> 2 ^ nat (k - ?e)"
    by (simp only: k Rne_of_int)
  then have "real_of_int (Rne (x / 2 powi ?e)) \<le> 2 powi k / 2 powi ?e"
    by (simp only: k of_int_le_iff)
  with assms(1) show ?thesis
    by (simp add: rnd_def pos_le_divide_eq)
qed

lemma rnd_above_power:
  assumes "2 powi k \<le> x" "ulp_exp x \<le> k"
  shows "2 powi k \<le> rnd x"
proof -
  let ?e = "ulp_exp x"
  have x: "0 < x" using assms(1) zero_less_power_int [of "2::real" k] by linarith
  have k: "2 powi k / 2 powi ?e = real_of_int (2 ^ nat (k - ?e))"
    using assms(2) by (rule powi_quot)
  have "2 powi k / 2 powi ?e \<le> x / 2 powi ?e"
    using assms(1) by (simp add: divide_right_mono)
  from Rne_mono [OF this] have "2 ^ nat (k - ?e) \<le> Rne (x / 2 powi ?e)"
    by (simp only: k Rne_of_int)
  then have "2 powi k / 2 powi ?e \<le> real_of_int (Rne (x / 2 powi ?e))"
    by (simp only: k of_int_le_iff)
  with x show ?thesis
    by (simp add: rnd_def pos_divide_le_eq)
qed

lemma rnd_mono:
  assumes "x \<le> y"
  shows "rnd x \<le> rnd y"
proof (cases "x \<le> 0")
  case True
  then show ?thesis using rnd_nonneg [of y] by (simp add: rnd_def [of x])
next
  case False
  then have x: "0 < x" and y: "0 < y" using assms by simp_all
  have "\<lfloor>log 2 x\<rfloor> \<le> \<lfloor>log 2 y\<rfloor>"
    using assms x by (intro floor_mono) simp
  then have le: "ulp_exp x \<le> ulp_exp y" by (simp add: ulp_exp_def)
  show ?thesis
  proof (cases "ulp_exp x = ulp_exp y")
    case True
    have "Rne (x / 2 powi ulp_exp x) \<le> Rne (y / 2 powi ulp_exp x)"
      using assms by (intro Rne_mono) (simp add: divide_right_mono)
    with x y True show ?thesis by (simp add: rnd_def)
  next
    case False
    let ?k = "\<lfloor>log 2 y\<rfloor>"
    from le False have lt: "ulp_exp x < ulp_exp y" by simp
    then have k: "ulp_exp y + 52 = ?k" by (auto simp: ulp_exp_def)
    have "\<lfloor>log 2 x\<rfloor> < ?k"
      using lt by (auto simp: ulp_exp_def)
    then have "(2::real) powi (\<lfloor>log 2 x\<rfloor> + 1) \<le> 2 powi ?k" by (intro powi_mono2) simp
    then have "x \<le> 2 powi ?k" using ulp_exp_bounds(2) [OF x] by linarith
    then have "rnd x \<le> 2 powi ?k"
      using x lt k by (intro rnd_below_power) auto
    also have "2 powi ?k \<le> rnd y"
      using ulp_exp_bounds(1) [OF y] k by (intro rnd_above_power) auto
    finally show ?thesis .
  qed
qed

lemma rnd_near: "0 < x \<Longrightarrow> \<bar>rnd x - x\<bar> \<le> 2 powi ulp_exp x / 2"
proof -
  assume x: "0 < x"
  let ?u = "(2::real) powi ulp_exp x"
  have "\<bar>rnd x - x\<bar> = \<bar>real_of_int (Rne (x / ?u)) - x / ?u\<bar> * ?u"
    using x by (simp add: rnd_def abs_mult [symmetric] field_simps flip: abs_mult_pos)
  also have "\<dots> \<le> 1/2 * ?u"
    by (intro mult_right_mono Rne_near) simp
  finally show ?thesis by simp
qed

lemma rnd_exact:
  assumes "0 \<le> m" "m < 2 ^ 53" "-1074 \<le> e"
  shows "rnd (real_of_int m * 2 powi e) = real_of_int m * 2 powi e"
proof (cases "m = 0")
  case False
  let ?x = "real_of_int m * 2 powi e"
  have x: "0 < ?x" using False assms(1) by simp
  have "real_of_int m < real_of_int (2 ^ 53)" using assms(2) by (simp only: of_int_less_iff)
  then have "?x < 2 powi 53 * 2 powi e" by (simp add: power_int_def)
  then have lt: "?x < 2 powi (53 + e)" by (simp add: power_int_add)
  have "\<lfloor>log 2 ?x\<rfloor> < 53 + e"
    using ulp_exp_bounds(1) [OF x] lt by (intro powi_less_cancel) linarith
  then have e: "ulp_exp ?x \<le> e" using assms(3) by (simp add: ulp_exp_def)
  have "?x / 2 powi ulp_exp ?x = real_of_int m * 2 powi (e - ulp_exp ?x)"
    by (simp add: power_int_diff)
  also have "\<dots> = real_of_int (m * 2 ^ nat (e - ulp_exp ?x))"
    using powi_nat [of "e - ulp_exp ?x"] e by simp
  finally have "Rne (?x / 2 powi ulp_exp ?x) = m * 2 ^ nat (e - ulp_exp ?x)"
    by (simp only: Rne_of_int)
  then have "rnd ?x = real_of_int (m * 2 ^ nat (e - ulp_exp ?x)) * 2 powi ulp_exp ?x"
    using x by (simp add: rnd_def)
  also have "\<dots> = real_of_int m * (2 powi (e - ulp_exp ?x) * 2 powi ulp_exp ?x)"
    using powi_nat [of "e - ulp_exp ?x"] e by simp
  also have "\<dots> = ?x"
    by (simp add: power_int_diff)
  finally show ?thesis .
qed (simp add: rnd_def)

section \<open>\<open>fround\<close> is that rounding\<close>

lemma fround_cases:
  assumes "0 \<le> a" "0 < b"
  defines "x \<equiv> real_of_int a / real_of_int b"
  obtains (zero) "a = 0" "fround s a b = fzero s"
    | (finite) m e where "0 < a" "fround s a b = FFin s m e" "real_of_int m * 2 powi e = rnd x"
        "0 \<le> m" "m < 2 ^ 53" "-1074 \<le> e" "e \<le> 971" "2 ^ 52 \<le> m \<or> e = -1074"
    | (overflow) "0 < a" "fround s a b = FInf s" "2 powi 1024 \<le> rnd x"
proof (cases "a = 0")
  case True
  then show thesis by (intro zero) (simp_all add: fround_def)
next
  case False
  then have a: "0 < a" using assms(1) by simp
  then have x: "0 < x" using assms(2) by (simp add: x_def)
  note lead = lead_bounds [OF a assms(2)]
  from floor_log2 [OF lead] have "ulp_exp x = max (lead a b - 52) (-1074)"
    by (simp add: ulp_exp_def x_def)
  then obtain e where e: "e = ulp_exp x" "e = max (lead a b - 52) (-1074)" by simp
  define m where "m = rne (a * pow2 (- e)) (b * pow2 e)"
  have "m = Rne (x / 2 powi e)"
    unfolding m_def x_def using assms(2)
    by (subst rne_Rne) (simp_all add: scale_ratio del: of_int_mult)
  with e have m: "0 \<le> m" "m \<le> 2 ^ 53" "-1074 < e \<Longrightarrow> 2 ^ 52 \<le> m" "rnd x = real_of_int m * 2 powi e"
    using Rne_ulp_bound [OF x] x by (simp_all add: rnd_def)
  have carry: "real_of_int (2 ^ 53) * 2 powi e = real_of_int (2 ^ 52) * 2 powi (e + 1)"
    by (simp add: power_int_add)
  have eq: "fround s a b = (let (m', e') = if m = 2 ^ 53 then (2 ^ 52, e + 1) else (m, e)
      in if 971 < e' then FInf s else FFin s m' e')"
    using False by (simp add: fround_def m_def e(2) Let_def)
  define m' e' where "m' = (if m = 2 ^ 53 then 2 ^ 52 else m)"
    and "e' = (if m = 2 ^ 53 then e + 1 else e)"
  have res: "fround s a b = (if 971 < e' then FInf s else FFin s m' e')"
    by (simp add: eq m'_def e'_def)
  have val: "real_of_int m' * 2 powi e' = rnd x"
    using m(4) carry by (simp add: m'_def e'_def)
  have rng: "0 \<le> m'" "m' < 2 ^ 53" "-1074 \<le> e'" "2 ^ 52 \<le> m' \<or> e' = -1074"
    using m(1-3) e(2) by (auto simp: m'_def e'_def)
  show thesis
  proof (cases "971 < e'")
    case True
    then have "2 ^ 52 \<le> m'" using rng(4) by simp
    then have "real_of_int (2 ^ 52) \<le> real_of_int m'" by (simp only: of_int_le_iff)
    then have "real_of_int (2 ^ 52) * 2 powi e' \<le> rnd x"
      unfolding val [symmetric] by (intro mult_right_mono) simp_all
    moreover have "(2::real) powi 1024 \<le> 2 powi (52 + e')" using True by (intro powi_mono2) simp
    moreover have "(2::real) powi (52 + e') = real_of_int (2 ^ 52) * 2 powi e'"
      by (simp add: power_int_add)
    ultimately show thesis using True a res by (intro overflow) simp_all
  next
    case False
    then show thesis using a res val rng by (intro finite [of m' e']) simp_all
  qed
qed

lemma canonical_fround: "0 \<le> a \<Longrightarrow> 0 < b \<Longrightarrow> canonical (fround s a b)"
  by (cases rule: fround_cases [of a b s]) (auto simp: canonical_def fzero_def)

lemma fround_FFin:
  assumes "0 \<le> a" "0 < b" "fround s a b = FFin t m e"
  shows "t = s" "0 \<le> m" "real_of_int m * 2 powi e = rnd (real_of_int a / real_of_int b)"
  using assms by (cases rule: fround_cases [of a b s]; simp add: fzero_def rnd_def)+

lemma fval_fround:
  assumes "0 \<le> a" "0 < b" "finite_f64 (fround s a b)"
  shows "fval (fround s a b) = (if s then -1 else 1) * rnd (real_of_int a / real_of_int b)"
  using assms by (cases rule: fround_cases [of a b s])
    (auto simp: fval_def sg_def fzero_def rnd_def finite_f64_def)

lemma fround_finite:
  assumes "0 \<le> a" "0 < b" "real_of_int a / real_of_int b < 2 powi 1023"
  shows "finite_f64 (fround s a b)"
  using assms(1,2)
proof (cases rule: fround_cases [of a b s])
  case overflow
  let ?x = "real_of_int a / real_of_int b"
  have x: "0 < ?x" using overflow assms(2) by simp
  have "\<lfloor>log 2 ?x\<rfloor> < 1023"
    using ulp_exp_bounds(1) [OF x] assms(3) by (intro powi_less_cancel) linarith
  then have "rnd ?x \<le> 2 powi 1023"
    using assms(3) x by (intro rnd_below_power) (auto simp: ulp_exp_def)
  moreover have "(2::real) powi 1023 < 2 powi 1024" by (simp add: power_int_strict_increasing)
  ultimately show ?thesis using overflow by linarith
qed (auto simp: finite_f64_def fzero_def)

section \<open>Canonical values\<close>

lemma canonical_FFin_unique:
  assumes "canonical (FFin s m e)" "canonical (FFin s n f)"
    and "real_of_int m * 2 powi e = real_of_int n * 2 powi f"
  shows "m = n \<and> e = f"
proof -
  have less: False if "canonical (FFin s m e)" "canonical (FFin s n f)"
    "real_of_int m * 2 powi e = real_of_int n * 2 powi f" "e < f" for m e n f
  proof -
    have "-1074 < f" using that(1,4) by (simp add: canonical_def)
    then have "2 ^ 52 \<le> n" "m < 2 ^ 53" using that(1,2) by (auto simp: canonical_def)
    then have r: "real_of_int (2 ^ 52) \<le> real_of_int n" "real_of_int m < real_of_int (2 ^ 53)"
      by (simp_all only: of_int_le_iff of_int_less_iff)
    have "real_of_int m * 2 powi e < real_of_int (2 ^ 53) * 2 powi e"
      using r(2) by (intro mult_strict_right_mono) simp_all
    also have "\<dots> = real_of_int (2 ^ 52) * 2 powi (e + 1)" by (simp add: power_int_add)
    also have "\<dots> \<le> real_of_int (2 ^ 52) * 2 powi f"
      using that(4) by (intro mult_left_mono powi_mono2) simp_all
    also have "\<dots> \<le> real_of_int n * 2 powi f"
      using r(1) by (intro mult_right_mono) simp_all
    finally show False using that(3) by simp
  qed
  have "e = f"
    using less [OF assms] less [OF assms(2,1) assms(3) [symmetric]]
    by (cases e f rule: linorder_cases) auto
  with assms(3) show ?thesis by simp
qed

lemma f64_of_int_exact:
  assumes "\<bar>n\<bar> < 2 ^ 53"
  shows "canonical (f64_of_int n)" "finite_f64 (f64_of_int n)" "fval (f64_of_int n) = real_of_int n"
proof -
  have "\<bar>real_of_int n\<bar> < real_of_int (2 ^ 53)" using assms by linarith
  also have "\<dots> = 2 powi 53" by (simp add: power_int_def)
  also have "\<dots> < 2 powi 1023" by (simp add: power_int_strict_increasing)
  finally have "real_of_int \<bar>n\<bar> / real_of_int 1 < 2 powi 1023" by simp
  then show fin: "finite_f64 (f64_of_int n)"
    unfolding f64_of_int_def by (intro fround_finite) simp_all
  show "canonical (f64_of_int n)"
    by (simp add: f64_of_int_def canonical_fround)
  have "rnd (real_of_int \<bar>n\<bar>) = real_of_int \<bar>n\<bar>"
    using rnd_exact [of "\<bar>n\<bar>" 0] assms by simp
  then show "fval (f64_of_int n) = real_of_int n"
    using fval_fround [of "\<bar>n\<bar>" 1 "n < 0"] fin by (simp add: f64_of_int_def)
qed

section \<open>The operations on finite values\<close>

lemma scaled_ratio:
  "real_of_int (a * pow2 g) / real_of_int (pow2 (- g)) = real_of_int a * 2 powi g"
  using pow2_ratio [of g] by (simp add: field_simps)

lemma fval_align:
  assumes "m = 0 \<or> g \<le> e"
  shows "real_of_int (sg s m * pow2 (e - g)) * 2 powi g = fval (FFin s m e)"
proof (cases "m = 0")
  case False
  have "real_of_int (pow2 (e - g)) * 2 powi g = (2::real) powi e"
    using assms False by (simp add: pow2_nonneg power_int_add [symmetric])
  then show ?thesis by (simp add: fval_def mult.assoc)
qed (simp add: fval_def sg_def)

lemma f64_cmp_fval:
  assumes "finite_f64 x" "finite_f64 y"
  shows "x < y \<longleftrightarrow> fval x < fval y" "x \<le> y \<longleftrightarrow> fval x \<le> fval y" "f64_eq x y \<longleftrightarrow> fval x = fval y"
proof -
  obtain s m e t n f where x: "x = FFin s m e" and y: "y = FFin t n f"
    using assms by (auto simp: finite_f64_def split: f64.splits)
  let ?g = "align m e n f"
  have "fval x = real_of_int (sg s m * pow2 (e - ?g)) * 2 powi ?g"
    "fval y = real_of_int (sg t n * pow2 (f - ?g)) * 2 powi ?g"
    unfolding x y by (intro fval_align [symmetric]; simp add: align_def)+
  then show "x < y \<longleftrightarrow> fval x < fval y" "x \<le> y \<longleftrightarrow> fval x \<le> fval y" "f64_eq x y \<longleftrightarrow> fval x = fval y"
    by (simp_all add: x y f64_ops Let_def del: of_int_mult)
qed

lemma f64_add_fval:
  assumes "finite_f64 x" "finite_f64 y" "finite_f64 (x + y)"
  shows "fval (x + y) = (if fval x + fval y < 0 then -1 else 1) * rnd \<bar>fval x + fval y\<bar>"
proof -
  obtain s m e t n f where x: "x = FFin s m e" and y: "y = FFin t n f"
    using assms by (auto simp: finite_f64_def split: f64.splits)
  let ?g = "align m e n f"
  let ?r = "sg s m * pow2 (e - ?g) + sg t n * pow2 (f - ?g)"
  have "fval x = real_of_int (sg s m * pow2 (e - ?g)) * 2 powi ?g"
    "fval y = real_of_int (sg t n * pow2 (f - ?g)) * 2 powi ?g"
    unfolding x y by (intro fval_align [symmetric]; simp add: align_def)+
  then have sum: "fval x + fval y = real_of_int ?r * 2 powi ?g"
    by (simp only: of_int_add distrib_right)
  show ?thesis
  proof (cases "?r = 0")
    case True
    then show ?thesis
      using sum by (simp add: x y f64_ops Let_def fval_def fzero_def sg_def rnd_def)
  next
    case False
    let ?a = "\<bar>?r\<bar> * pow2 ?g" and ?b = "pow2 (- ?g)"
    have z: "x + y = fround (?r < 0) ?a ?b"
      using False by (simp add: x y f64_ops Let_def)
    have "real_of_int ?a / real_of_int ?b = \<bar>fval x + fval y\<bar>"
      by (simp only: scaled_ratio sum abs_mult) simp
    moreover have "?r < 0 \<longleftrightarrow> fval x + fval y < 0"
    proof -
      have "c * 2 powi ?g < 0 \<longleftrightarrow> c < 0" for c :: real by (auto simp: mult_less_0_iff)
      then show ?thesis by (simp only: sum of_int_less_0_iff)
    qed
    ultimately show ?thesis
      using fval_fround [of ?a ?b "?r < 0"] assms(3) by (simp only: z) simp
  qed
qed

lemma f64_add_finite:
  assumes "finite_f64 x" "finite_f64 y" "\<bar>fval x + fval y\<bar> < 2 powi 1023"
  shows "finite_f64 (x + y)"
proof -
  obtain s m e t n f where x: "x = FFin s m e" and y: "y = FFin t n f"
    using assms by (auto simp: finite_f64_def split: f64.splits)
  let ?g = "align m e n f"
  let ?r = "sg s m * pow2 (e - ?g) + sg t n * pow2 (f - ?g)"
  have "fval x = real_of_int (sg s m * pow2 (e - ?g)) * 2 powi ?g"
    "fval y = real_of_int (sg t n * pow2 (f - ?g)) * 2 powi ?g"
    unfolding x y by (intro fval_align [symmetric]; simp add: align_def)+
  then have sum: "fval x + fval y = real_of_int ?r * 2 powi ?g"
    by (simp only: of_int_add distrib_right)
  show ?thesis
  proof (cases "?r = 0")
    case True
    then show ?thesis by (simp add: x y f64_ops Let_def finite_f64_def fzero_def)
  next
    case False
    let ?a = "\<bar>?r\<bar> * pow2 ?g" and ?b = "pow2 (- ?g)"
    have "real_of_int ?a / real_of_int ?b = \<bar>fval x + fval y\<bar>"
      by (simp only: scaled_ratio sum abs_mult) simp
    then have "finite_f64 (fround (?r < 0) ?a ?b)"
      using assms(3) by (intro fround_finite) auto
    moreover have "x + y = fround (?r < 0) ?a ?b"
      using False by (simp add: x y f64_ops Let_def)
    ultimately show ?thesis by simp
  qed
qed

lemma f64_mul_fval:
  assumes "x = FFin False m e" "y = FFin False n f" "0 \<le> m" "0 \<le> n"
  shows "\<exists>a b. x * y = fround False a b \<and> 0 \<le> a \<and> 0 < b
           \<and> real_of_int a / real_of_int b = fval x * fval y"
proof -
  have "real_of_int (m * n * pow2 (e + f)) / real_of_int (pow2 (- (e + f))) = fval x * fval y"
    by (simp only: scaled_ratio) (simp add: assms fval_def sg_def power_int_add)
  then show ?thesis
    by (intro exI [of _ "m * n * pow2 (e + f)"] exI [of _ "pow2 (- (e + f))"])
      (simp add: assms f64_ops)
qed

lemma f64_div_fval:
  assumes "x = FFin False m e" "y = FFin False n f" "0 \<le> m" "0 < n"
  shows "\<exists>a b. x / y = fround False a b \<and> 0 \<le> a \<and> 0 < b
           \<and> real_of_int a / real_of_int b = fval x / fval y"
proof -
  have "real_of_int (m * pow2 (e - f)) / real_of_int (n * pow2 (- (e - f)))
      = real_of_int m / real_of_int n * 2 powi (e - f)"
    using pow2_ratio [of "e - f"] assms(4) by (simp add: field_simps)
  also have "\<dots> = fval x / fval y"
    by (simp add: assms fval_def sg_def power_int_diff)
  finally show ?thesis
    by (intro exI [of _ "m * pow2 (e - f)"] exI [of _ "n * pow2 (f - e)"])
      (use assms in \<open>auto simp: f64_ops\<close>)
qed

lemma f64_trunc_nonneg:
  assumes "x = FFin False m e"
  shows "f64_trunc x = Some \<lfloor>fval x\<rfloor>"
proof -
  have "fval x = real_of_int (m * pow2 e) / real_of_int (pow2 (- e))"
    by (simp only: scaled_ratio) (simp add: assms fval_def sg_def)
  then show ?thesis
    by (simp only: floor_divide_of_int_eq) (simp add: assms sg_def)
qed

text \<open>A sum that is a non-zero integer below \<open>2\<^sup>5\<^sup>3\<close> is exact.\<close>

lemma f64_add_int:
  assumes "finite_f64 x" "finite_f64 y" "fval x + fval y = real_of_int n" "n \<noteq> 0" "\<bar>n\<bar> < 2 ^ 53"
  shows "x + y = f64_of_int n"
proof -
  obtain s m e t k f where x: "x = FFin s m e" and y: "y = FFin t k f"
    using assms(1,2) by (auto simp: finite_f64_def split: f64.splits)
  let ?g = "align m e k f"
  let ?r = "sg s m * pow2 (e - ?g) + sg t k * pow2 (f - ?g)"
  have "fval x = real_of_int (sg s m * pow2 (e - ?g)) * 2 powi ?g"
    "fval y = real_of_int (sg t k * pow2 (f - ?g)) * 2 powi ?g"
    unfolding x y by (intro fval_align [symmetric]; simp add: align_def)+
  then have sum: "real_of_int ?r * 2 powi ?g = real_of_int n"
    using assms(3) by (simp only: of_int_add distrib_right)
  have r0: "?r \<noteq> 0"
    using sum assms(4) by (metis mult_zero_left of_int_0 of_int_eq_0_iff)
  have neg: "?r < 0 \<longleftrightarrow> n < 0"
  proof -
    have "c * 2 powi ?g < 0 \<longleftrightarrow> c < 0" for c :: real by (auto simp: mult_less_0_iff)
    then show ?thesis using sum by (metis of_int_less_0_iff)
  qed
  let ?a = "\<bar>?r\<bar> * pow2 ?g" and ?b = "pow2 (- ?g)"
  have z: "x + y = fround (n < 0) ?a ?b"
    using r0 neg by (simp add: x y f64_ops Let_def)
  have val: "real_of_int ?a / real_of_int ?b = real_of_int \<bar>n\<bar>"
    using sum by (simp only: scaled_ratio of_int_abs) (metis abs_mult abs_of_pos zero_less_numeral zero_less_power_int)
  have tgt: "f64_of_int n = fround (n < 0) \<bar>n\<bar> 1"
    by (simp add: f64_of_int_def)
  have "real_of_int \<bar>n\<bar> < real_of_int (2 ^ 53)" using assms(5) by (simp only: of_int_less_iff)
  also have "\<dots> = 2 powi 53" by (simp add: power_int_def)
  also have "\<dots> < 2 powi 1023" by (simp add: power_int_strict_increasing)
  finally have fin: "finite_f64 (fround (n < 0) ?a ?b)" "finite_f64 (fround (n < 0) \<bar>n\<bar> 1)"
    using val by (intro fround_finite; simp del: of_int_mult of_int_add)+
  have a0: "0 \<le> ?a" "0 < ?b" by simp_all
  obtain s1 m1 e1 where f1: "fround (n < 0) ?a ?b = FFin s1 m1 e1"
    using fin(1) by (auto simp: finite_f64_def split: f64.splits)
  obtain s2 m2 e2 where f2: "fround (n < 0) \<bar>n\<bar> 1 = FFin s2 m2 e2"
    using fin(2) by (auto simp: finite_f64_def split: f64.splits)
  have sgn: "s1 = (n < 0)" "s2 = (n < 0)"
    using fround_FFin(1) [OF a0 f1] fround_FFin(1) [OF _ _ f2] by simp_all
  have "real_of_int m1 * 2 powi e1 = real_of_int m2 * 2 powi e2"
    using fround_FFin(3) [OF a0 f1] fround_FFin(3) [OF _ _ f2]
    by (simp only: val of_int_1 div_by_1)
  moreover have "canonical (FFin s1 m1 e1)" "canonical (FFin s1 m2 e2)"
    using canonical_fround [OF a0, of "n < 0"] canonical_fround [of "\<bar>n\<bar>" 1 "n < 0"] f1 f2 sgn
    by auto
  ultimately have "m1 = m2 \<and> e1 = e2" by (intro canonical_FFin_unique)
  then show ?thesis using z tgt f1 f2 sgn by simp
qed

lemma f64_of_int_succ:
  assumes "0 \<le> n" "n + 1 < 2 ^ 53"
  shows "f64_of_int n + f64_of_int 1 = f64_of_int (n + 1)"
  using f64_of_int_exact [of n] f64_of_int_exact [of 1] assms by (intro f64_add_int) simp_all

lemma f64_of_int_diff:
  assumes "0 \<le> m" "m < n" "n < 2 ^ 53"
  shows "f64_of_int n - f64_of_int m = f64_of_int (n - m)"
proof -
  have "minus_class.minus (f64_of_int n) (f64_of_int m) = f64_of_int n + f64_uminus (f64_of_int m)"
    by (simp add: f64_ops)
  moreover have "finite_f64 (f64_uminus (f64_of_int m))" "fval (f64_uminus (f64_of_int m)) = - real_of_int m"
    using f64_of_int_exact(2,3) [of m] assms
    by (cases "f64_of_int m"; force simp: finite_f64_def fval_def sg_def)+
  ultimately show ?thesis
    using f64_of_int_exact [of n] assms by (simp add: f64_add_int)
qed

lemma f64_of_int_cmp:
  assumes "\<bar>m\<bar> < 2 ^ 53" "\<bar>n\<bar> < 2 ^ 53"
  shows "f64_of_int m < f64_of_int n \<longleftrightarrow> m < n" "f64_of_int m \<le> f64_of_int n \<longleftrightarrow> m \<le> n"
    "f64_eq (f64_of_int m) (f64_of_int n) \<longleftrightarrow> m = n"
  using f64_of_int_exact [OF assms(1)] f64_of_int_exact [OF assms(2)]
  by (simp_all add: f64_cmp_fval)

text \<open>The relative error of a rounding, away from the subnormal numbers.\<close>

lemma rnd_rel:
  assumes "2 powi (-1022) \<le> x"
  shows "\<bar>rnd x - x\<bar> \<le> x / 2 ^ 53"
proof -
  have x: "0 < x" using assms zero_less_power_int [of "2::real" "-1022"] by linarith
  have "\<not> \<lfloor>log 2 x\<rfloor> + 1 \<le> -1022"
    using ulp_exp_bounds(2) [OF x] assms powi_mono2 [of "\<lfloor>log 2 x\<rfloor> + 1" "-1022"] by linarith
  then have "ulp_exp x = \<lfloor>log 2 x\<rfloor> - 52" by (simp add: ulp_exp_def)
  then have "2 powi ulp_exp x / 2 = 2 powi \<lfloor>log 2 x\<rfloor> / (2::real) ^ 53"
    by (simp add: power_int_diff)
  also have "\<dots> \<le> x / 2 ^ 53"
    using ulp_exp_bounds(1) [OF x] by (simp add: divide_right_mono)
  finally show ?thesis using rnd_near [OF x] by linarith
qed

section \<open>Bit patterns\<close>

lemma f64_bits_range:
  assumes "canonical x"
  shows "0 \<le> f64_bits x" "f64_bits x < 2 ^ 64"
  using assms by (cases x; simp add: canonical_def)+

lemma f64_from_bits:
  assumes "canonical x"
  shows "f64_from_bits (f64_bits x) = x"
proof (cases x)
  case (FFin s m e)
  then have c: "0 \<le> m" "m < 2 ^ 53" "-1074 \<le> e" "e \<le> 971" "2 ^ 52 \<le> m \<or> e = -1074"
    using assms by (simp_all add: canonical_def)
  define E where "E = (if 2 ^ 52 \<le> m then e + 1075 else 0)"
  define F where "F = (if 2 ^ 52 \<le> m then m - 2 ^ 52 else m)"
  have EF: "0 \<le> E" "E < 2047" "0 \<le> F" "F < 2 ^ 52"
    using c by (auto simp: E_def F_def)
  have bits: "f64_bits x = (if s then 2 ^ 63 else 0) + E * 2 ^ 52 + F"
    using c FFin by (auto simp: E_def F_def)
  have "f64_bits x = ((if s then 2048 else 0) + E) * 2 ^ 52 + F"
    by (simp add: bits)
  then have d: "f64_bits x div 2 ^ 52 = (if s then 2048 else 0) + E" "f64_bits x mod 2 ^ 52 = F"
    using EF by (simp_all add: div_add1_eq mod_add_eq [symmetric])
  then have d2: "f64_bits x div 2 ^ 52 mod 2048 = E"
    using EF by (simp add: mod_add_left_eq [symmetric])
  have s: "2 ^ 63 \<le> f64_bits x \<longleftrightarrow> s"
    using EF by (auto simp: bits)
  show ?thesis
    using c EF unfolding f64_from_bits_def Let_def d2 d(2) s
    by (auto simp: E_def F_def FFin)
qed (auto simp: f64_from_bits_def)

lemma f64_of_int_nonneg:
  assumes "0 \<le> n" "n < 2 ^ 53"
  obtains m e where "f64_of_int n = FFin False m e" "0 \<le> m" "0 < n \<Longrightarrow> 0 < m"
    "fval (FFin False m e) = real_of_int n"
proof -
  note ex = f64_of_int_exact [of n]
  obtain s m e where f: "f64_of_int n = FFin s m e"
    using ex(2) assms by (auto simp: finite_f64_def split: f64.splits)
  then have fr: "fround False n 1 = FFin s m e" using assms by (simp add: f64_of_int_def)
  note g = fround_FFin [OF assms(1) _ fr]
  have v: "fval (FFin False m e) = real_of_int n"
    using ex(3) assms f g(1) by simp
  then have "0 < n \<Longrightarrow> 0 < m"
    using g(2) by (cases "m = 0") (auto simp: fval_def sg_def)
  with f g v that show thesis by simp
qed

section \<open>Signs\<close>

text \<open>Mantissas are never negative, and every operation keeps it so.\<close>

fun f64_ok :: "f64 \<Rightarrow> bool" where
  "f64_ok (FFin s m e) = (0 \<le> m)"
| "f64_ok _ = True"

text \<open>No minus sign (a NaN excluded), and no plus sign.\<close>

fun f64_nn :: "f64 \<Rightarrow> bool" where
  "f64_nn (FFin s m e) = (\<not> s \<and> 0 \<le> m)"
| "f64_nn (FInf s) = (\<not> s)"
| "f64_nn FNaN = False"

fun f64_np :: "f64 \<Rightarrow> bool" where
  "f64_np (FFin s m e) = (s \<and> 0 \<le> m)"
| "f64_np (FInf s) = s"
| "f64_np FNaN = False"

lemma fround_signs:
  assumes "0 \<le> a" "0 < b"
  shows "f64_ok (fround s a b)" "f64_nn (fround False a b)" "f64_np (fround True a b)"
proof -
  show "f64_ok (fround s a b)"
    by (cases rule: fround_cases [OF assms, of s]) (simp_all add: fzero_def)
  show "f64_nn (fround False a b)"
    by (cases rule: fround_cases [OF assms, of False]) (simp_all add: fzero_def)
  show "f64_np (fround True a b)"
    by (cases rule: fround_cases [OF assms, of True]) (simp_all add: fzero_def)
qed

lemma f64_of_int_nn: "0 \<le> n \<Longrightarrow> f64_nn (f64_of_int n)"
  by (simp add: f64_of_int_def fround_signs)

lemma f64_div_signs:
  "f64_ok x \<Longrightarrow> f64_ok y \<Longrightarrow> f64_ok (x / y)"
  "f64_nn x \<Longrightarrow> f64_nn y \<Longrightarrow> x / y = FNaN \<or> f64_nn (x / y)"
  "f64_nn x \<Longrightarrow> f64_np y \<Longrightarrow> x / y = FNaN \<or> f64_np (x / y)"
  by (cases x; cases y; auto simp: f64_ops fzero_def intro!: fround_signs)+

lemma f64_mul_signs:
  "f64_ok x \<Longrightarrow> f64_ok y \<Longrightarrow> f64_ok (x * y)"
  "f64_nn x \<Longrightarrow> f64_nn y \<Longrightarrow> x * y = FNaN \<or> f64_nn (x * y)"
  by (cases x; cases y; auto simp: f64_ops intro!: fround_signs)+

lemma pos_nn: "f64_ok x \<Longrightarrow> f64_of_int 0 < x \<Longrightarrow> f64_nn x"
  by (cases x) (auto simp: f64_ops f64_of_int_def fround_def fzero_def align_def sg_def pow2_def
      split: if_splits)

lemma neg_np: "f64_ok x \<Longrightarrow> x < f64_of_int 0 \<Longrightarrow> f64_np x"
  by (cases x) (auto simp: f64_ops f64_of_int_def fround_def fzero_def align_def sg_def pow2_def
      split: if_splits)

text \<open>The root of a value with a minus sign is a NaN or a zero, so no product with it is positive.\<close>

lemma sqrt_np_not_pos:
  assumes "f64_ok k" "y = FNaN \<or> f64_np y"
  shows "\<not> f64_of_int 0 < k * f64_sqrt y"
  using assms
  by (cases y; cases k) (auto simp: f64_ops f64_of_int_def fround_def fzero_def align_def sg_def pow2_def)

end
