(* ===== verification/Binary_Codec.thy ===== *)
theory Binary_Codec
  imports Float64_Facts
begin

text \<open>
  \<open>encoding/binary\<close> as \<open>pkg/core/output.go\<close> uses it: fixed-width values, little endian, and
  the reader of such records in \<open>taurus/encarno/__init__.py\<close>.  The interface \<open>codec\<close> states
  what a fixed-size format promises; reading a stream of records is proved once from it.
\<close>

section \<open>Little endian\<close>

fun le :: "nat \<Rightarrow> nat \<Rightarrow> bytes" where
  "le 0 v = []"
| "le (Suc n) v = char_of (v mod 256) # le n (v div 256)"

fun of_le :: "bytes \<Rightarrow> nat" where
  "of_le [] = 0"
| "of_le (c # cs) = of_char c + 256 * of_le cs"

lemma length_le [simp]: "length (le n v) = n"
  by (induction n arbitrary: v) simp_all

lemma of_le_le: "v < 256 ^ n \<Longrightarrow> of_le (le n v) = v"
proof (induction n arbitrary: v)
  case (Suc n)
  then have "v div 256 < 256 ^ n" by (simp add: less_mult_imp_div_less mult.commute)
  with Suc.IH show ?case by simp
qed simp

section \<open>The interface of a fixed-width format\<close>

locale codec =
  fixes enc :: "'a \<Rightarrow> bytes" and dec :: "bytes \<Rightarrow> 'a" and width :: nat and ok :: "'a \<Rightarrow> bool"
  assumes width_pos: "0 < width"
    and length_enc: "length (enc x) = width"
    and dec_enc: "ok x \<Longrightarrow> dec (enc x) = x"
begin

lemma enc_inj: "ok x \<Longrightarrow> ok y \<Longrightarrow> enc x = enc y \<Longrightarrow> x = y"
  by (metis dec_enc)

end

text \<open>
  The loop of the reader: while a whole record is left, unpack it; what remains is kept for
  the next pass.
\<close>

function unpack_all :: "(bytes \<Rightarrow> 'a) \<Rightarrow> nat \<Rightarrow> bytes \<Rightarrow> 'a list \<times> bytes" where
  "unpack_all dec width data =
     (if width = 0 \<or> length data < width then ([], data)
      else let (xs, rest) = unpack_all dec width (drop width data) in (dec (take width data) # xs, rest))"
  by pat_completeness auto
termination
  by (relation "measure (\<lambda>(_, _, data). length data)") auto

declare unpack_all.simps [simp del]

fun read_passes :: "(bytes \<Rightarrow> 'a) \<Rightarrow> nat \<Rightarrow> bytes \<Rightarrow> bytes list \<Rightarrow> 'a list \<times> bytes" where
  "read_passes dec width partial [] = ([], partial)"
| "read_passes dec width partial (data # more) =
     (let (xs, rest) = unpack_all dec width (partial @ data);
          (ys, rest') = read_passes dec width rest more
      in (xs @ ys, rest'))"

lemma unpack_all_append:
  assumes "0 < width" "unpack_all dec width a = (xs, r)"
  shows "unpack_all dec width (a @ b) = (let (ys, r') = unpack_all dec width (r @ b) in (xs @ ys, r'))"
  using assms
proof (induction dec width a arbitrary: xs r rule: unpack_all.induct)
  case (1 dec width a)
  show ?case
  proof (cases "length a < width")
    case True
    with 1 show ?thesis by (simp add: unpack_all.simps [of dec width a])
  next
    case False
    obtain ys s where ys: "unpack_all dec width (drop width a) = (ys, s)" by fastforce
    with 1(3) False \<open>0 < width\<close> have x: "xs = dec (take width a) # ys" "r = s"
      by (auto simp: unpack_all.simps [of dec width a])
    from 1(1) [OF _ \<open>0 < width\<close> ys] False \<open>0 < width\<close>
    show ?thesis
      by (simp add: unpack_all.simps [of dec width "a @ b"] x split: prod.splits)
  qed
qed

text \<open>However the data is cut into passes, the records read are those of the whole.\<close>

lemma read_passes_whole:
  assumes "0 < width" "length partial < width"
  shows "read_passes dec width partial chunks = unpack_all dec width (partial @ concat chunks)"
  using assms(2)
proof (induction chunks arbitrary: partial)
  case Nil
  then show ?case by (simp add: unpack_all.simps)
next
  case (Cons data more)
  obtain xs r where xs: "unpack_all dec width (partial @ data) = (xs, r)" by fastforce
  have "length (snd (unpack_all dec width z)) < width" for z
    using assms(1)
    by (induction dec width z rule: unpack_all.induct)
      (subst unpack_all.simps, auto split: prod.splits)
  from this [of "partial @ data"] have "length r < width" by (simp add: xs)
  from Cons.IH [OF this] unpack_all_append [OF assms(1) xs, of "concat more"]
  show ?case by (simp add: xs)
qed

context codec begin

lemma unpack_records:
  "list_all ok xs \<Longrightarrow> length rest < width \<Longrightarrow>
     unpack_all dec width (concat (map enc xs) @ rest) = (xs, rest)"
proof (induction xs)
  case Nil
  then show ?case by (simp add: unpack_all.simps)
next
  case (Cons x xs)
  then show ?case
    using width_pos by (subst unpack_all.simps) (simp add: length_enc dec_enc)
qed

lemma read_records:
  assumes "list_all ok xs" "concat chunks = concat (map enc xs)"
  shows "read_passes dec width [] chunks = (xs, [])"
  using read_passes_whole [of width "[]" dec chunks] unpack_records [OF assms(1), of "[]"] assms(2) width_pos
  by simp

end

section \<open>The formats of the fields\<close>

definition put_u16 :: "u16 \<Rightarrow> bytes" where "put_u16 w = le 2 (unat w)"
definition put_u32 :: "u32 \<Rightarrow> bytes" where "put_u32 w = le 4 (unat w)"
definition put_u64 :: "u64 \<Rightarrow> bytes" where "put_u64 w = le 8 (unat w)"
definition put_f64 :: "f64 \<Rightarrow> bytes" where "put_f64 x = le 8 (nat (f64_bits x))"

definition get_word :: "bytes \<Rightarrow> 'a::len word" where "get_word bs = of_nat (of_le bs)"
definition get_f64 :: "bytes \<Rightarrow> f64" where "get_f64 bs = f64_from_bits (int (of_le bs))"

lemma get_put_word:
  "unat (w :: 'a::len word) < 256 ^ n \<Longrightarrow> get_word (le n (unat w)) = w"
  by (simp add: get_word_def of_le_le)

lemma word_bounds:
  "unat (w :: u16) < 256 ^ 2" "unat (x :: u32) < 256 ^ 4" "unat (y :: u64) < 256 ^ 8"
proof -
  have "unat w < 2 ^ LENGTH(16)" "unat x < 2 ^ LENGTH(32)" "unat y < 2 ^ LENGTH(64)"
    by (rule unsigned_less)+
  then show "unat w < 256 ^ 2" "unat x < 256 ^ 4" "unat y < 256 ^ 8" by simp_all
qed

interpretation u16: codec put_u16 get_word 2 "\<lambda>_. True"
  by unfold_locales (simp_all add: put_u16_def get_put_word [OF word_bounds(1)] get_put_word [OF word_bounds(2)] get_put_word [OF word_bounds(3)])

interpretation u32: codec put_u32 get_word 4 "\<lambda>_. True"
  by unfold_locales (simp_all add: put_u32_def get_put_word [OF word_bounds(1)] get_put_word [OF word_bounds(2)] get_put_word [OF word_bounds(3)])

interpretation u64: codec put_u64 get_word 8 "\<lambda>_. True"
  by unfold_locales (simp_all add: put_u64_def get_put_word [OF word_bounds(1)] get_put_word [OF word_bounds(2)] get_put_word [OF word_bounds(3)])

interpretation double: codec put_f64 get_f64 8 canonical
proof
  fix x
  show "canonical x \<Longrightarrow> get_f64 (put_f64 x) = x"
    using f64_bits_range [of x] by (simp add: get_f64_def put_f64_def of_le_le f64_from_bits nat_less_iff)
qed (simp_all add: put_f64_def)

end
