(* ===== verification/Numerals.thy ===== *)
theory Numerals
  imports Prelude
begin

text \<open>Decimal numbers as \<open>strconv\<close> and \<open>encoding/json\<close> write and read them.\<close>

definition code :: "char \<Rightarrow> nat" where
  "code c = of_char c"

definition ascii_digit :: "char \<Rightarrow> bool" where
  "ascii_digit c = (48 \<le> code c \<and> code c \<le> 57)"

definition decimal :: "bytes \<Rightarrow> nat" where
  "decimal ds = foldl (\<lambda>n c. n * 10 + (code c - 48)) 0 ds"

function digits :: "nat \<Rightarrow> bytes" where
  "digits n = (if n < 10 then [char_of (48 + n)] else digits (n div 10) @ [char_of (48 + n mod 10)])"
  by pat_completeness auto
termination
  by (relation "measure id") auto

declare digits.simps [simp del]

definition itoa :: "int \<Rightarrow> bytes" where
  "itoa n = (if n < 0 then CHR ''-'' # digits (nat (- n)) else digits (nat n))"

text \<open>
  \<open>strconv.Atoi\<close>: the value and whether there was no error.  A number out of range is an error
  with the nearest value; a syntax error gives 0.
\<close>

definition Atoi :: "bytes \<Rightarrow> int \<times> bool" where
  "Atoi s =
     (let neg = (s \<noteq> [] \<and> hd s = CHR ''-'');
          ds = (if s \<noteq> [] \<and> (hd s = CHR ''-'' \<or> hd s = CHR ''+'') then tl s else s);
          n = int (decimal ds)
      in if ds = [] \<or> \<not> list_all ascii_digit ds then (0, False)
         else if neg then (if 2 ^ 63 < n then (- (2 ^ 63), False) else (- n, True))
         else if 2 ^ 63 \<le> n then (2 ^ 63 - 1, False) else (n, True))"

lemma code_digit: "n < 10 \<Longrightarrow> code (char_of (48 + n)) = 48 + n"
  by (simp add: code_def)

lemma decimal_snoc [simp]: "decimal (ds @ [c]) = decimal ds * 10 + (code c - 48)"
  by (simp add: decimal_def)

lemma decimal_digits [simp]: "decimal (digits n) = n"
proof (induction n rule: digits.induct)
  case (1 n)
  show ?case
  proof (cases "n < 10")
    case True
    then show ?thesis by (subst digits.simps) (simp add: decimal_def code_digit)
  next
    case False
    then show ?thesis using 1 code_digit [of "n mod 10"] by (subst digits.simps) simp
  qed
qed

lemma digits_ascii: "list_all ascii_digit (digits n)"
proof (induction n rule: digits.induct)
  case (1 n)
  have "ascii_digit (char_of (48 + m))" if "m < 10" for m :: nat
    using code_digit [OF that] that by (simp add: ascii_digit_def)
  with 1 show ?case by (subst digits.simps) simp
qed

lemma digits_not_Nil [simp]: "digits n \<noteq> []"
  by (subst digits.simps) simp

lemma hd_digits: "ascii_digit (hd (digits n))"
  using digits_ascii [of n] digits_not_Nil [of n] by (cases "digits n") auto

lemma not_ascii_digit [simp]:
  "\<not> ascii_digit (CHR ''-'')" "\<not> ascii_digit (CHR ''+'')" "\<not> ascii_digit (CHR '' '')"
  "\<not> ascii_digit LF" "\<not> ascii_digit CR"
  by (simp_all add: ascii_digit_def code_def)

lemma digits_free: "\<not> ascii_digit c \<Longrightarrow> c \<notin> set (digits n)"
  using digits_ascii [of n] by (auto simp: list_all_iff)

lemma Atoi_itoa: "fits64 n \<Longrightarrow> Atoi (itoa n) = (n, True)"
proof (cases "n < 0")
  case True
  then show "fits64 n \<Longrightarrow> ?thesis"
    by (simp add: Atoi_def itoa_def digits_ascii fits64_def)
next
  case False
  have "hd (digits (nat n)) \<noteq> CHR ''-''" "hd (digits (nat n)) \<noteq> CHR ''+''"
    using hd_digits [of "nat n"] by auto
  with False show "fits64 n \<Longrightarrow> ?thesis"
    by (simp add: Atoi_def itoa_def digits_ascii fits64_def)
qed

lemma itoa_free: "\<not> ascii_digit c \<Longrightarrow> c \<noteq> CHR ''-'' \<Longrightarrow> c \<notin> set (itoa n)"
  by (simp add: itoa_def digits_free)

end
