(* ===== verification/Json_Text.thy ===== *)
theory Json_Text
  imports Numerals
begin

text \<open>
  Strings as \<open>encoding/json\<close> writes them (\<open>json.Marshal\<close>, with the escaping of HTML that it has
  by default): the trace and the LDJSON output of \<open>pkg/core/output.go\<close> are lines of such JSON.
\<close>

section \<open>UTF-8\<close>

definition between :: "nat \<Rightarrow> nat \<Rightarrow> char \<Rightarrow> bool" where
  "between a b c = (a \<le> code c \<and> code c \<le> b)"

definition cont :: "char \<Rightarrow> bool" where
  "cont = between 0x80 0xBF"

text \<open>The length of the rune beyond ASCII at the start of a text; 0 if the bytes are no such rune.\<close>

fun utf8_len :: "bytes \<Rightarrow> nat" where
  "utf8_len (a # b # c # d # _) =
     (if between 0xC2 0xDF a \<and> cont b then 2
      else if (if code a = 0xE0 then between 0xA0 0xBF b else if code a = 0xED then between 0x80 0x9F b
               else between 0xE1 0xEF a \<and> cont b) \<and> cont c then 3
      else if (if code a = 0xF0 then between 0x90 0xBF b else if code a = 0xF4 then between 0x80 0x8F b
               else between 0xF1 0xF3 a \<and> cont b) \<and> cont c \<and> cont d then 4
      else 0)"
| "utf8_len [a, b, c] =
     (if between 0xC2 0xDF a \<and> cont b then 2
      else if (if code a = 0xE0 then between 0xA0 0xBF b else if code a = 0xED then between 0x80 0x9F b
               else between 0xE1 0xEF a \<and> cont b) \<and> cont c then 3
      else 0)"
| "utf8_len [a, b] = (if between 0xC2 0xDF a \<and> cont b then 2 else 0)"
| "utf8_len _ = 0"

lemma utf8_len_le: "utf8_len s \<le> length s"
  by (cases s rule: utf8_len.cases) auto

section \<open>Escaping\<close>

definition hex_digit :: "nat \<Rightarrow> char" where
  "hex_digit n = char_of (if n < 10 then 48 + n else 87 + n)"

abbreviation Backslash :: char where "Backslash \<equiv> CHR 0x5C"
abbreviation Quote :: char where "Quote \<equiv> CHR 0x22"

definition html_safe :: "char \<Rightarrow> bool" where
  "html_safe c = (0x20 \<le> code c \<and> code c < 0x80 \<and> c \<notin> {Quote, Backslash, CHR ''<'', CHR ''>'', CHR ''&''})"

definition escape_ascii :: "char \<Rightarrow> bytes" where
  "escape_ascii c =
     (if html_safe c then [c]
      else if c = Quote \<or> c = Backslash then [Backslash, c]
      else if c = LF then [Backslash, CHR ''n'']
      else if c = CR then [Backslash, CHR ''r'']
      else if c = CHR 0x09 then [Backslash, CHR ''t'']
      else Backslash # ''u00'' @ [hex_digit (code c div 16), hex_digit (code c mod 16)])"

definition line_separator :: "bytes \<Rightarrow> bool" where
  "line_separator r = (r = [CHR 0xE2, CHR 0x80, CHR 0xA8] \<or> r = [CHR 0xE2, CHR 0x80, CHR 0xA9])"

function json_chars :: "bytes \<Rightarrow> bytes" where
  "json_chars [] = []"
| "json_chars (c # s) =
     (if code c < 0x80 then escape_ascii c @ json_chars s
      else
        let k = utf8_len (c # s)
        in if k = 0 then Backslash # ''ufffd'' @ json_chars s
           else
             (let r = take k (c # s)
              in if line_separator r then Backslash # ''u202'' @ [hex_digit (code (last r) mod 16)] else r)
             @ json_chars (drop k (c # s)))"
  by pat_completeness auto
termination
  by (relation "measure length") (auto simp: diff_less)

definition json_string :: "string \<Rightarrow> bytes" where
  "json_string s = Quote # json_chars s @ [Quote]"

text \<open>An object with its members in order, as a struct is written.\<close>

fun json_members :: "(string \<times> bytes) list \<Rightarrow> bytes" where
  "json_members [] = []"
| "json_members [(k, v)] = json_string k @ CHR '':'' # v"
| "json_members ((k, v) # ms) = json_string k @ CHR '':'' # v @ CHR '','' # json_members ms"

definition json_object :: "(string \<times> bytes) list \<Rightarrow> bytes" where
  "json_object ms = CHR ''{'' # json_members ms @ ''}''"

section \<open>A JSON text is one line\<close>

definition printable :: "char \<Rightarrow> bool" where
  "printable c = (0x20 \<le> code c)"

lemma code_char_of: "n < 256 \<Longrightarrow> code (char_of n) = n"
  by (simp add: code_def)

lemma hex_digit_printable: "n < 16 \<Longrightarrow> printable (hex_digit n)"
  by (simp add: hex_digit_def printable_def code_char_of)

lemma code_less: "code c < 256"
  by (simp add: code_def)

lemma printable_consts:
  "printable Quote" "printable Backslash" "printable (CHR ''n'')" "printable (CHR ''r'')"
  "printable (CHR ''t'')" "printable (CHR ''u'')" "printable (CHR ''0'')" "printable (CHR ''2'')"
  "printable (CHR ''f'')" "printable (CHR ''d'')" "printable (CHR '':'')" "printable (CHR '','')"
  "printable (CHR ''{'')" "printable (CHR ''}'')" "printable (CHR ''-'')"
  by (simp_all add: printable_def code_def)

lemma escape_ascii_printable:
  assumes "code c < 0x80"
  shows "list_all printable (escape_ascii c)"
proof -
  have "printable (hex_digit (code c div 16))" "printable (hex_digit (code c mod 16))"
    using assms by (simp_all add: hex_digit_printable)
  moreover have "html_safe c \<Longrightarrow> printable c"
    by (simp add: html_safe_def printable_def)
  ultimately show ?thesis by (simp add: escape_ascii_def printable_consts)
qed

lemma utf8_high:
  assumes "0 < utf8_len s" "x \<in> set (take (utf8_len s) s)"
  shows "0x80 \<le> code x"
  using assms
  by (cases s rule: utf8_len.cases) (auto simp: cont_def between_def split: if_splits)

lemma json_chars_printable: "list_all printable (json_chars s)"
proof (induction s rule: json_chars.induct)
  case (2 c s)
  let ?k = "utf8_len (c # s)"
  have "list_all printable (take ?k (c # s))" if "?k \<noteq> 0"
    using utf8_high [of "c # s"] that by (fastforce simp: list_all_iff printable_def)
  moreover have "printable (hex_digit (m mod 16))" for m
    by (simp add: hex_digit_printable)
  ultimately show ?case
    using 2 escape_ascii_printable [of c] by (simp add: Let_def printable_consts)
qed simp

lemma json_string_printable: "list_all printable (json_string s)"
  using json_chars_printable by (simp add: json_string_def printable_consts)

lemma json_object_printable:
  assumes "list_all (\<lambda>(k, v). list_all printable v) ms"
  shows "list_all printable (json_object ms)"
proof -
  have "list_all printable (json_members ms)"
    using assms by (induction ms rule: json_members.induct) (auto simp: json_string_printable printable_consts)
  then show ?thesis by (simp add: json_object_def printable_consts)
qed

lemma itoa_printable: "list_all printable (itoa n)" "list_all printable (digits m)"
proof -
  show "list_all printable (digits m)" for m
    using digits_ascii [of m] by (auto simp: list_all_iff printable_def ascii_digit_def)
  then show "list_all printable (itoa n)"
    by (simp add: itoa_def printable_consts)
qed

lemma printable_no_line: "list_all printable s \<Longrightarrow> LF \<notin> set s \<and> CR \<notin> set s"
  by (auto simp: list_all_iff printable_def code_def)

end
