(* ===== verification/Json_Decode.thy ===== *)
theory Json_Decode
  imports Json_Text
begin

text \<open>
  JSON as \<open>encoding/json\<close> reads it: the metadata of a record is such a text.  A text is cut into
  tokens, and a pushdown machine, one step for each token, builds the value (the scanner of the
  package is such a machine).  The bound on nesting is left out: a metadata line is shorter than it.
  \<open>reads v j\<close> says that the text \<open>v\<close> is read as \<open>j\<close> wherever it stands; it holds of what
  \<open>json.Marshal\<close> writes.
\<close>

section \<open>Values and tokens\<close>

text \<open>A number is kept as it is written; a string is its bytes after decoding.\<close>

datatype json =
  JNull
| JBool bool
| JNum bytes
| JStr string
| JArr "json list"
| JObj "(string \<times> json) list"

datatype token = LBrace | RBrace | LBracket | RBracket | Colon | Comma | Atom json

section \<open>Strings\<close>

definition byte :: "nat \<Rightarrow> char" where
  "byte n = char_of n"

definition surrogate :: "nat \<Rightarrow> bool" where
  "surrogate r = (0xD800 \<le> r \<and> r < 0xE000)"

definition replacement :: bytes where
  "replacement = [CHR 0xEF, CHR 0xBF, CHR 0xBD]"

text \<open>\<open>utf8.EncodeRune\<close>: what is no code point is written as the replacement character.\<close>

definition encode_rune :: "nat \<Rightarrow> bytes" where
  "encode_rune r =
     (if r < 0x80 then [byte r]
      else if r < 0x800 then [byte (0xC0 + r div 64), byte (0x80 + r mod 64)]
      else if surrogate r \<or> 0x110000 \<le> r then replacement
      else if r < 0x10000
        then [byte (0xE0 + r div 4096), byte (0x80 + r div 64 mod 64), byte (0x80 + r mod 64)]
      else [byte (0xF0 + r div 262144), byte (0x80 + r div 4096 mod 64), byte (0x80 + r div 64 mod 64),
            byte (0x80 + r mod 64)])"

definition hex_value :: "char \<Rightarrow> nat option" where
  "hex_value c =
     (if ascii_digit c then Some (code c - 48)
      else if between 97 102 c then Some (code c - 87)
      else if between 65 70 c then Some (code c - 55)
      else None)"

fun hex4 :: "bytes \<Rightarrow> nat option" where
  "hex4 (a # b # c # d # _) =
     (case (hex_value a, hex_value b, hex_value c, hex_value d) of
        (Some p, Some q, Some r, Some s) \<Rightarrow> Some (((p * 16 + q) * 16 + r) * 16 + s)
      | _ \<Rightarrow> None)"
| "hex4 _ = None"

text \<open>
  What stands after a backslash and a \<open>u\<close>: the rune and how many bytes it takes.  A pair of
  surrogates is one rune, a lone surrogate is replaced.
\<close>

definition low_half :: "bytes \<Rightarrow> nat option" where
  "low_half s = (if take 2 s = [Backslash, CHR ''u''] then hex4 (drop 2 s) else None)"

definition unicode_escape :: "bytes \<Rightarrow> (bytes \<times> nat) option" where
  "unicode_escape s =
     (case hex4 s of
        None \<Rightarrow> None
      | Some r \<Rightarrow>
          (case low_half (drop 4 s) of
             Some l \<Rightarrow>
               if 0xD800 \<le> r \<and> r < 0xDC00 \<and> 0xDC00 \<le> l \<and> l < 0xE000
               then Some (encode_rune (0x10000 + (r - 0xD800) * 1024 + (l - 0xDC00)), 10)
               else Some (encode_rune r, 4)
           | None \<Rightarrow> Some (encode_rune r, 4)))"

definition simple_escape :: "char \<Rightarrow> char option" where
  "simple_escape e =
     (if e \<in> {Quote, Backslash, CHR ''/''} then Some e
      else if e = CHR ''b'' then Some (CHR 0x08)
      else if e = CHR ''f'' then Some (CHR 0x0C)
      else if e = CHR ''n'' then Some LF
      else if e = CHR ''r'' then Some CR
      else if e = CHR ''t'' then Some (CHR 0x09)
      else None)"

definition emit :: "bytes \<Rightarrow> (string \<times> bytes) option \<Rightarrow> (string \<times> bytes) option" where
  "emit b = map_option (\<lambda>(s, rest). (b @ s, rest))"

text \<open>The string whose opening quote has been read, and what stands after its closing quote.\<close>

function lex_string :: "bytes \<Rightarrow> (string \<times> bytes) option" where
  "lex_string [] = None"
| "lex_string (c # s) =
     (if c = Quote then Some ([], s)
      else if c = Backslash then
        (case s of
           [] \<Rightarrow> None
         | e # t \<Rightarrow>
             if e = CHR ''u''
             then (case unicode_escape t of None \<Rightarrow> None | Some (b, k) \<Rightarrow> emit b (lex_string (drop k t)))
             else (case simple_escape e of None \<Rightarrow> None | Some b \<Rightarrow> emit [b] (lex_string t)))
      else if code c < 0x20 then None
      else if code c < 0x80 then emit [c] (lex_string s)
      else
        let k = utf8_len (c # s)
        in if k = 0 then emit replacement (lex_string s)
           else emit (take k (c # s)) (lex_string (drop k (c # s))))"
  by pat_completeness auto
termination
  by (relation "measure length") (auto simp: diff_less)

declare lex_string.simps [simp del]

section \<open>Numbers and words\<close>

definition lex_digits :: "bytes \<Rightarrow> (bytes \<times> bytes) option" where
  "lex_digits s =
     (if takeWhile ascii_digit s = [] then None
      else Some (takeWhile ascii_digit s, dropWhile ascii_digit s))"

text \<open>No digit follows a leading zero in the same number.\<close>

definition lex_int :: "bytes \<Rightarrow> (bytes \<times> bytes) option" where
  "lex_int s = (case s of c # t \<Rightarrow> if c = CHR ''0'' then Some ([c], t) else lex_digits s | [] \<Rightarrow> None)"

definition optional :: "(char \<Rightarrow> bool) \<Rightarrow> (bytes \<Rightarrow> (bytes \<times> bytes) option) \<Rightarrow> bytes \<Rightarrow> (bytes \<times> bytes) option" where
  "optional p f s =
     (case s of
        c # t \<Rightarrow> if p c then map_option (\<lambda>(d, r). (c # d, r)) (f t) else Some ([], s)
      | [] \<Rightarrow> Some ([], []))"

definition followed :: "(bytes \<Rightarrow> (bytes \<times> bytes) option) \<Rightarrow> (bytes \<Rightarrow> (bytes \<times> bytes) option)
    \<Rightarrow> bytes \<Rightarrow> (bytes \<times> bytes) option" where
  "followed f g s =
     (case f s of
        None \<Rightarrow> None
      | Some (a, r) \<Rightarrow> (case g r of None \<Rightarrow> None | Some (b, r') \<Rightarrow> Some (a @ b, r')))"

text \<open>The sign of an exponent; there must be digits after it.\<close>

definition optional_sign :: "(bytes \<Rightarrow> (bytes \<times> bytes) option) \<Rightarrow> bytes \<Rightarrow> (bytes \<times> bytes) option" where
  "optional_sign f = followed (optional (\<lambda>c. c = CHR ''+'' \<or> c = CHR ''-'') (\<lambda>t. Some ([], t))) f"

definition lex_unsigned :: "bytes \<Rightarrow> (bytes \<times> bytes) option" where
  "lex_unsigned =
     followed lex_int
       (followed (optional (\<lambda>c. c = CHR ''.'') lex_digits)
         (optional (\<lambda>c. c = CHR ''e'' \<or> c = CHR ''E'')
           (optional_sign lex_digits)))"

definition lex_number :: "bytes \<Rightarrow> (bytes \<times> bytes) option" where
  "lex_number s =
     (case s of
        c # t \<Rightarrow> if c = CHR ''-'' then map_option (\<lambda>(d, r). (c # d, r)) (lex_unsigned t) else lex_unsigned s
      | [] \<Rightarrow> None)"

definition lex_word :: "bytes \<Rightarrow> (json \<times> bytes) option" where
  "lex_word s =
     (if take 4 s = ''true'' then Some (JBool True, drop 4 s)
      else if take 5 s = ''false'' then Some (JBool False, drop 5 s)
      else if take 4 s = ''null'' then Some (JNull, drop 4 s)
      else None)"

definition lex_atom :: "char \<Rightarrow> bytes \<Rightarrow> (json \<times> bytes) option" where
  "lex_atom c s =
     (if c = Quote then map_option (map_prod JStr id) (lex_string s)
      else if c = CHR ''-'' \<or> ascii_digit c then map_option (map_prod JNum id) (lex_number (c # s))
      else lex_word (c # s))"

section \<open>Tokens\<close>

definition json_space :: "char \<Rightarrow> bool" where
  "json_space c = (c \<in> {CHR '' '', CHR 0x09, CR, LF})"

definition punctuation :: "char \<Rightarrow> token option" where
  "punctuation c =
     (if c = CHR ''{'' then Some LBrace else if c = CHR ''}'' then Some RBrace
      else if c = CHR ''['' then Some LBracket else if c = CHR '']'' then Some RBracket
      else if c = CHR '':'' then Some Colon else if c = CHR '','' then Some Comma else None)"

lemma emit_Some: "emit b x = Some (s, r) \<longleftrightarrow> (\<exists>t. x = Some (t, r) \<and> s = b @ t)"
  by (auto simp: emit_def)

lemma lex_string_step:
  "lex_string (c # s) = Some (x, r) \<Longrightarrow> c = Quote \<and> r = s \<or> (\<exists>t y. lex_string t = Some (y, r) \<and> length t \<le> length s)"
  by (subst (asm) lex_string.simps)
    (auto simp: emit_Some Let_def split: list.splits option.splits if_splits;
     (intro exI conjI, assumption, simp))

lemma lex_string_shorter: "lex_string s = Some (x, r) \<Longrightarrow> length r < length s"
proof (induction s arbitrary: x rule: measure_induct_rule [of length])
  case (less s)
  show ?case
  proof (cases s)
    case (Cons c t)
    from lex_string_step [OF less.prems [unfolded Cons]] show ?thesis
    proof
      assume "\<exists>u y. lex_string u = Some (y, r) \<and> length u \<le> length t"
      then obtain u y where u: "lex_string u = Some (y, r)" "length u \<le> length t" by blast
      then have "length u < length s" by (simp add: Cons)
      from less.IH [OF this u(1)] u(2) show ?thesis by (simp add: Cons)
    qed (simp add: Cons)
  qed (use less.prems in \<open>simp add: lex_string.simps\<close>)
qed

lemma lex_digits_shorter: "lex_digits s = Some (d, r) \<Longrightarrow> length r < length s"
  by (cases s) (auto simp: lex_digits_def less_Suc_eq_le length_dropWhile_le split: if_splits)

lemma followed_shorter:
  assumes "followed f g s = Some (d, r)" "\<And>d r. f s = Some (d, r) \<Longrightarrow> length r < length s"
    and "\<And>t d r. g t = Some (d, r) \<Longrightarrow> length r \<le> length t"
  shows "length r < length s"
  using assms by (fastforce simp: followed_def split: option.splits prod.splits)

lemma optional_no_longer:
  assumes "optional p f s = Some (d, r)" "\<And>t d r. f t = Some (d, r) \<Longrightarrow> length r \<le> length t"
  shows "length r \<le> length s"
  using assms by (fastforce simp: optional_def split: list.splits if_splits)

lemma followed_no_longer:
  assumes "followed f g s = Some (d, r)" "\<And>d r. f s = Some (d, r) \<Longrightarrow> length r \<le> length s"
    and "\<And>t d r. g t = Some (d, r) \<Longrightarrow> length r \<le> length t"
  shows "length r \<le> length s"
  using assms by (fastforce simp: followed_def split: option.splits prod.splits)

lemma lex_exponent_no_longer: "optional_sign lex_digits s = Some (d, r) \<Longrightarrow> length r \<le> length s"
  unfolding optional_sign_def
  by (erule followed_no_longer) (auto dest: lex_digits_shorter elim!: optional_no_longer intro: less_imp_le)

lemma lex_unsigned_shorter: "lex_unsigned s = Some (d, r) \<Longrightarrow> length r < length s"
  unfolding lex_unsigned_def
  by (erule followed_shorter)
    (auto simp: lex_int_def dest: lex_digits_shorter split: list.splits if_splits
      elim!: followed_no_longer optional_no_longer intro: lex_exponent_no_longer less_imp_le)

lemma lex_number_shorter: "lex_number s = Some (d, r) \<Longrightarrow> length r < length s"
  by (fastforce simp: lex_number_def dest: lex_unsigned_shorter split: list.splits if_splits)

lemma lex_atom_shorter: "lex_atom c s = Some (j, r) \<Longrightarrow> length r \<le> length s"
proof -
  have "lex_word (c # s) = Some (j, r) \<Longrightarrow> length r \<le> length s"
    by (auto simp: lex_word_def split: if_splits)
  then show "lex_atom c s = Some (j, r) \<Longrightarrow> ?thesis"
    using lex_string_shorter [of s] lex_number_shorter [of "c # s"]
    by (fastforce simp: lex_atom_def split: if_splits)
qed

function tokenize :: "bytes \<Rightarrow> token list option" where
  "tokenize [] = Some []"
| "tokenize (c # s) =
     (if json_space c then tokenize s
      else case punctuation c of
        Some t \<Rightarrow> map_option ((#) t) (tokenize s)
      | None \<Rightarrow>
          (case lex_atom c s of
             None \<Rightarrow> None
           | Some (j, rest) \<Rightarrow> map_option ((#) (Atom j)) (tokenize rest)))"
  by pat_completeness auto
termination
  by (relation "measure length") (auto dest!: lex_atom_shorter)

declare tokenize.simps(2) [simp del]

section \<open>The machine\<close>

text \<open>
  What the machine expects, and around it the arrays and objects that are open: an array with
  its elements so far, an object with its members so far and the key of the next one.
\<close>

datatype expect = Want | WantFirst | WantKey "(string \<times> json) list" | WantFirstKey
  | WantColon "(string \<times> json) list" string | Have json

datatype frame = InArr "json list" | InObj "(string \<times> json) list" string

fun parse_step :: "expect \<times> frame list \<Rightarrow> token \<Rightarrow> (expect \<times> frame list) option" where
  "parse_step (Want, fs) (Atom j) = Some (Have j, fs)"
| "parse_step (Want, fs) LBracket = Some (WantFirst, fs)"
| "parse_step (Want, fs) LBrace = Some (WantFirstKey, fs)"
| "parse_step (WantFirst, fs) RBracket = Some (Have (JArr []), fs)"
| "parse_step (WantFirst, fs) (Atom j) = Some (Have j, InArr [] # fs)"
| "parse_step (WantFirst, fs) LBracket = Some (WantFirst, InArr [] # fs)"
| "parse_step (WantFirst, fs) LBrace = Some (WantFirstKey, InArr [] # fs)"
| "parse_step (WantFirstKey, fs) RBrace = Some (Have (JObj []), fs)"
| "parse_step (WantFirstKey, fs) (Atom (JStr k)) = Some (WantColon [] k, fs)"
| "parse_step (WantKey ms, fs) (Atom (JStr k)) = Some (WantColon ms k, fs)"
| "parse_step (WantColon ms k, fs) Colon = Some (Want, InObj ms k # fs)"
| "parse_step (Have j, InArr xs # fs) Comma = Some (Want, InArr (xs @ [j]) # fs)"
| "parse_step (Have j, InArr xs # fs) RBracket = Some (Have (JArr (xs @ [j])), fs)"
| "parse_step (Have j, InObj ms k # fs) Comma = Some (WantKey (ms @ [(k, j)]), fs)"
| "parse_step (Have j, InObj ms k # fs) RBrace = Some (Have (JObj (ms @ [(k, j)])), fs)"
| "parse_step _ _ = None"

fun parse_run :: "expect \<times> frame list \<Rightarrow> token list \<Rightarrow> json option" where
  "parse_run p [] = (case p of (Have j, []) \<Rightarrow> Some j | _ \<Rightarrow> None)"
| "parse_run p (t # ts) = (case parse_step p t of None \<Rightarrow> None | Some q \<Rightarrow> parse_run q ts)"

definition parse_json :: "bytes \<Rightarrow> json option" where
  "parse_json s = Option.bind (tokenize s) (parse_run (Want, []))"

section \<open>Reading back\<close>

fun sep_by :: "'a list \<Rightarrow> 'a list list \<Rightarrow> 'a list" where
  "sep_by c [] = []"
| "sep_by c [x] = x"
| "sep_by c (x # y # xs) = x @ c @ sep_by c (y # xs)"

lemma sep_by_Cons: "sep_by c (x # xs) = x @ (if xs = [] then [] else c @ sep_by c xs)"
  by (cases xs) simp_all

text \<open>The tokens of a value.\<close>

fun toks :: "json \<Rightarrow> token list" where
  "toks (JArr xs) = LBracket # sep_by [Comma] (map toks xs) @ [RBracket]"
| "toks (JObj ms) = LBrace # sep_by [Comma] (map (\<lambda>(k, v). Atom (JStr k) # Colon # toks v) ms) @ [RBrace]"
| "toks j = [Atom j]"

abbreviation member_toks :: "string \<times> json \<Rightarrow> token list" where
  "member_toks \<equiv> \<lambda>(k, v). Atom (JStr k) # Colon # toks v"

lemma run_first: "parse_run (WantFirst, fs) (toks j @ ts) = parse_run (Want, InArr [] # fs) (toks j @ ts)"
  by (cases j) simp_all

lemma run_toks: "parse_run (Want, fs) (toks j @ ts) = parse_run (Have j, fs) ts"
proof (induction j arbitrary: fs ts)
  case (JArr ys)
  have rest: "parse_run (Want, InArr xs # fs) (sep_by [Comma] (map toks (z # zs)) @ RBracket # ts)
      = parse_run (Have (JArr (xs @ z # zs)), fs) ts" if "set (z # zs) \<subseteq> set ys" for xs z zs
    using that
  proof (induction zs arbitrary: xs z)
    case (Cons z' zs)
    have "z \<in> set ys" using Cons.prems by simp
    from JArr.IH [OF this] Cons.IH [of z' "xs @ [z]"] Cons.prems show ?case by simp
  qed (use JArr.IH in simp)
  show ?case
  proof (cases ys)
    case (Cons z zs)
    have "parse_run (WantFirst, fs) (sep_by [Comma] (map toks ys) @ RBracket # ts)
        = parse_run (Want, InArr [] # fs) (sep_by [Comma] (map toks ys) @ RBracket # ts)"
      by (simp add: Cons sep_by_Cons run_first del: sep_by.simps)
    also have "\<dots> = parse_run (Have (JArr ys), fs) ts"
      using rest [of z zs "[]"] by (simp add: Cons)
    finally show ?thesis by simp
  qed simp
next
  case (JObj ms)
  have rest: "parse_run (WantKey xs, fs) (sep_by [Comma] (map member_toks (z # zs)) @ RBrace # ts)
      = parse_run (Have (JObj (xs @ z # zs)), fs) ts" if "set (z # zs) \<subseteq> set ms" for xs z zs
    using that
  proof (induction zs arbitrary: xs z)
    case (Cons z' zs)
    have "parse_run (Want, gs) (toks (snd z) @ us) = parse_run (Have (snd z), gs) us" for gs us
      using JObj.IH [of z "snd z"] Cons.prems by (cases z) simp
    then show ?case using Cons.IH [of z' "xs @ [z]"] Cons.prems by (cases z) simp
  next
    case Nil
    have "parse_run (Want, gs) (toks (snd z) @ us) = parse_run (Have (snd z), gs) us" for gs us
      using JObj.IH [of z "snd z"] Nil.prems by (cases z) simp
    then show ?case by (cases z) simp
  qed
  show ?case
  proof (cases ms)
    case (Cons z zs)
    have "parse_run (WantFirstKey, fs) (sep_by [Comma] (map member_toks ms) @ RBrace # ts)
        = parse_run (WantKey [], fs) (sep_by [Comma] (map member_toks ms) @ RBrace # ts)"
      by (cases z) (simp add: Cons sep_by_Cons del: sep_by.simps)
    also have "\<dots> = parse_run (Have (JObj ms), fs) ts"
      using rest [of z zs "[]"] by (simp add: Cons)
    finally show ?thesis by simp
  qed simp
qed simp_all

text \<open>
  \<open>lexes v ts\<close>: the text is cut into these tokens, whatever follows it, unless that continues a
  number.
\<close>

definition delim :: "bytes \<Rightarrow> bool" where
  "delim rest = (case rest of [] \<Rightarrow> True | c # _ \<Rightarrow> \<not> ascii_digit c \<and> c \<notin> {CHR ''.'', CHR ''e'', CHR ''E''})"

definition lexes :: "bytes \<Rightarrow> token list \<Rightarrow> bool" where
  "lexes v ts = (\<forall>rest. delim rest \<longrightarrow> tokenize (v @ rest) = map_option ((@) ts) (tokenize rest))"

definition reads :: "bytes \<Rightarrow> json \<Rightarrow> bool" where
  "reads v j = lexes v (toks j)"

lemma delim_simps [simp]:
  "delim []" "delim (CHR '','' # s)" "delim (CHR '':'' # s)" "delim (CHR '']'' # s)" "delim (CHR ''}'' # s)"
  "delim (CHR '' '' # s)" "delim (Quote # s)" "delim (CR # s)"
  by (simp_all add: delim_def ascii_digit_def code_def)

lemma prefix_tokens:
  "map_option ((@) []) x = x"
  "map_option ((@) (t # ts)) x = map_option ((#) t) (map_option ((@) ts) x)"
  "map_option ((@) (ts @ us)) x = map_option ((@) ts) (map_option ((@) us) x)"
  by (cases x; simp)+

lemma delim_append: "v \<noteq> [] \<Longrightarrow> delim v \<Longrightarrow> delim (v @ rest)"
  by (auto simp: delim_def split: list.splits)

lemma lexes_append: "lexes u ts \<Longrightarrow> lexes v us \<Longrightarrow> v \<noteq> [] \<Longrightarrow> delim v \<Longrightarrow> lexes (u @ v) (ts @ us)"
  by (simp add: lexes_def delim_append prefix_tokens)

lemma lexes_punctuation: "punctuation c = Some t \<Longrightarrow> lexes v us \<Longrightarrow> lexes (c # v) (t # us)"
  by (auto simp: lexes_def tokenize.simps json_space_def punctuation_def prefix_tokens split: if_splits)

lemma lexes_space: "json_space c \<Longrightarrow> lexes v us \<Longrightarrow> lexes (c # v) us"
  by (simp add: lexes_def tokenize.simps)

lemma lexes_Nil: "lexes [] []"
  by (simp add: lexes_def prefix_tokens(1))

lemma parse_reads: "reads v j \<Longrightarrow> parse_json v = Some j"
  using run_toks [of "[]" j "[]"] by (fastforce simp: reads_def lexes_def parse_json_def dest: spec [of _ "[]"])

lemma reads_atom:
  assumes "\<And>rest. delim rest \<Longrightarrow> lex_atom c (v @ rest) = Some (j, rest)"
    and "toks j = [Atom j]" "\<not> json_space c" "punctuation c = None"
  shows "reads (c # v) j"
  using assms by (simp add: reads_def lexes_def tokenize.simps(2) prefix_tokens(1,2) del: map_option_eq_Some)

lemma reads_quoted:
  assumes "\<And>rest. lex_string (v @ Quote # rest) = Some (s, rest)"
  shows "reads (Quote # v @ [Quote]) (JStr s)"
  by (rule reads_atom) (simp_all add: lex_atom_def assms json_space_def punctuation_def)

lemma reads_words: "reads ''true'' (JBool True)" "reads ''false'' (JBool False)" "reads ''null'' JNull"
  by (rule reads_atom; simp add: lex_atom_def lex_word_def json_space_def punctuation_def ascii_digit_def code_def)+

lemma digits_0: "digits 0 = ''0''"
  by (subst digits.simps) (simp add: char_of_eq_iff)

lemma hd_digits_pos: "0 < n \<Longrightarrow> hd (digits n) \<noteq> CHR ''0''"
proof (induction n rule: digits.induct)
  case (1 n)
  show ?case
  proof (cases "n < 10")
    case True
    have "char_of (48 + n) = CHR ''0'' \<Longrightarrow> code (CHR ''0'') = 48 + n"
      using code_digit [OF True] by simp
    with True 1 show ?thesis by (subst digits.simps) (auto simp: code_def)
  next
    case False
    then show ?thesis using 1 by (subst digits.simps) simp
  qed
qed

lemma lex_digits_run:
  assumes "list_all ascii_digit ds" "ds \<noteq> []" "delim rest"
  shows "lex_digits (ds @ rest) = Some (ds, rest)"
proof -
  have "takeWhile ascii_digit rest = []" "dropWhile ascii_digit rest = rest"
    using assms(3) by (cases rest; simp add: delim_def)+
  with assms show ?thesis
    by (simp add: lex_digits_def list_all_iff takeWhile_append2 dropWhile_append2)
qed

lemma lex_unsigned_digits: "delim rest \<Longrightarrow> lex_unsigned (digits n @ rest) = Some (digits n, rest)"
proof -
  assume rest: "delim rest"
  have "lex_int (digits n @ rest) = Some (digits n, rest)"
    using lex_digits_run [OF digits_ascii digits_not_Nil rest, of n] hd_digits_pos [of n]
    by (cases "n = 0"; cases "digits n") (auto simp: lex_int_def digits_0)
  moreover have "optional p f rest = Some ([], rest)" if "\<And>c. p c \<Longrightarrow> c \<in> {CHR ''.'', CHR ''e'', CHR ''E''}" for p f
    using rest that by (cases rest) (auto simp: optional_def delim_def)
  ultimately show ?thesis by (simp add: lex_unsigned_def followed_def)
qed

lemma lex_number_itoa: "delim rest \<Longrightarrow> lex_number (itoa n @ rest) = Some (itoa n, rest)"
  using lex_unsigned_digits [of rest "nat n"] lex_unsigned_digits [of rest "nat (- n)"] hd_digits [of "nat n"]
  by (cases "digits (nat n)") (auto simp: lex_number_def itoa_def)

lemma reads_itoa: "reads (itoa n) (JNum (itoa n))"
proof -
  have hd: "hd (itoa n) = CHR ''-'' \<or> ascii_digit (hd (itoa n))" "itoa n \<noteq> []"
    using hd_digits by (auto simp: itoa_def)
  then obtain c v where n: "itoa n = c # v" by (cases "itoa n") auto
  have c: "c = CHR ''-'' \<or> ascii_digit c" using hd by (simp add: n)
  have lex: "lex_number (c # v @ rest) = Some (c # v, rest)" if "delim rest" for rest
    using lex_number_itoa [OF that, of n] by (simp add: n)
  have ne: "c \<noteq> Quote" "\<not> json_space c" "punctuation c = None"
    using c by (auto simp: json_space_def punctuation_def ascii_digit_def code_def)
  show ?thesis
    unfolding n using c ne lex by (intro reads_atom) (auto simp: lex_atom_def)
qed

section \<open>Arrays and objects\<close>

lemma lexes_sep_by:
  assumes "list_all2 lexes vs tss" "lexes (z # w) us" "z \<in> {CHR '']'', CHR ''}''}" "list_all json_space sp"
    and "list_all (\<lambda>v. v \<noteq> []) vs"
  shows "lexes (sep_by (CHR '','' # sp) vs @ z # w) (sep_by [Comma] tss @ us)"
  using assms(1,5)
proof (induction rule: list_all2_induct)
  case (Cons v vs ts tss)
  have z: "delim (z # w)" using assms(3) by auto
  have sp: "lexes (CHR '','' # sp @ x) (Comma # ts)" if "lexes x ts" for x ts
    using assms(4) that
    by (intro lexes_punctuation) (simp_all add: punctuation_def, induction sp, simp_all add: lexes_space)
  show ?case
  proof (cases "vs = []")
    case True
    then show ?thesis using Cons.hyps lexes_append [OF Cons.hyps(1) assms(2)] z by simp
  next
    case False
    moreover from this have "tss \<noteq> []" using Cons.hyps(2) by auto
    ultimately show ?thesis
      using lexes_append [OF Cons.hyps(1) sp [OF Cons.IH]] Cons.prems
      by (simp add: sep_by_Cons del: sep_by.simps)
  qed
qed (use assms(2) in simp)

lemma reads_not_Nil: "reads v j \<Longrightarrow> v \<noteq> []"
  by (cases j) (auto simp: reads_def lexes_def dest: spec [of _ "[]"])

lemma reads_array:
  assumes "list_all2 reads vs js" "list_all json_space sp"
  shows "reads (CHR ''['' # sep_by (CHR '','' # sp) vs @ '']'') (JArr js)"
proof -
  have "list_all2 lexes vs (map toks js)" "list_all (\<lambda>v. v \<noteq> []) vs"
    using assms(1) by (auto simp: list_all2_conv_all_nth list_all_length reads_not_Nil reads_def [symmetric])
  then show ?thesis
    unfolding reads_def toks.simps using assms(2)
    by (intro lexes_punctuation lexes_sep_by lexes_Nil) (simp_all add: punctuation_def lexes_punctuation lexes_Nil)
qed

lemma reads_object:
  assumes "list_all2 (\<lambda>(k, v) (k', j). reads k (JStr k') \<and> reads v j) ms js" "list_all json_space sp"
    and "list_all json_space sp'"
  shows "reads (CHR ''{'' # sep_by (CHR '','' # sp) (map (\<lambda>(k, v). k @ CHR '':'' # sp' @ v) ms) @ ''}'') (JObj js)"
proof -
  have "lexes (k @ CHR '':'' # sp' @ v) (Atom (JStr k') # Colon # toks j)" if "reads k (JStr k')" "reads v j" for k v k' j
  proof -
    have "lexes (sp' @ v) (toks j)"
      using assms(3) that(2) by (induction sp') (simp_all add: lexes_space reads_def)
    then have "lexes (CHR '':'' # sp' @ v) (Colon # toks j)"
      by (intro lexes_punctuation) (simp_all add: punctuation_def)
    from lexes_append [OF that(1) [unfolded reads_def] this] show ?thesis by simp
  qed
  then have "list_all2 lexes (map (\<lambda>(k, v). k @ CHR '':'' # sp' @ v) ms) (map member_toks js)"
    using assms(1) by (fastforce simp: list_all2_conv_all_nth split: prod.splits)
  then show ?thesis
    unfolding reads_def toks.simps using assms(2)
    by (intro lexes_punctuation lexes_sep_by lexes_Nil)
      (simp_all add: punctuation_def lexes_punctuation lexes_Nil list_all_iff split: prod.splits)
qed

section \<open>What \<open>json.Marshal\<close> writes is read back\<close>

text \<open>A text in which every byte that belongs to no rune is replaced.\<close>

function utf8_text :: "bytes \<Rightarrow> bytes" where
  "utf8_text [] = []"
| "utf8_text (c # s) =
     (if code c < 0x80 then c # utf8_text s
      else
        let k = utf8_len (c # s)
        in if k = 0 then replacement @ utf8_text s else take k (c # s) @ utf8_text (drop k (c # s)))"
  by pat_completeness auto
termination
  by (relation "measure length") (auto simp: diff_less)

lemma utf8_len_take:
  assumes "utf8_len s = k" "0 < k"
  shows "utf8_len (take k s @ x) = k"
proof -
  have two: "utf8_len (a # b # u) = 2" if "between 0xC2 0xDF a" "cont b" for a b u
    using that by (cases u rule: utf8_len.cases) auto
  have three: "utf8_len (a # b # c # u) = 3" if "utf8_len [a, b, c] = 3" for a b c u
    using that by (cases u) (auto split: if_splits)
  have four: "utf8_len (a # b # c # d # u) = 4" if "utf8_len [a, b, c, d] = 4" for a b c d u
    using that by (auto split: if_splits)
  show ?thesis
    using assms
  proof (cases s rule: utf8_len.cases)
    case (1 a b c d u)
    then show ?thesis using assms two [of a b] three [of a b c] four [of a b c d]
      by (auto split: if_splits simp: numeral_eq_Suc)
  next
    case (2 a b c)
    then show ?thesis using assms two [of a b] three [of a b c] by (auto split: if_splits simp: numeral_eq_Suc)
  next
    case (3 a b)
    then show ?thesis using assms two [of a b] by (auto split: if_splits simp: numeral_eq_Suc)
  qed simp_all
qed

lemma hex_value_digit: "n < 16 \<Longrightarrow> hex_value (hex_digit n) = Some n"
  by (simp add: hex_value_def hex_digit_def code_char_of ascii_digit_def between_def)

lemma hex_value_chars:
  "hex_value (CHR ''0'') = Some 0" "hex_value (CHR ''2'') = Some 2" "hex_value (CHR ''d'') = Some 13"
  "hex_value (CHR ''f'') = Some 15"
  by (simp_all add: hex_value_def ascii_digit_def between_def code_def)

lemma byte_consts:
  "char_of (226::nat) = CHR 0xE2" "char_of (128::nat) = CHR 0x80" "char_of (168::nat) = CHR 0xA8"
  "char_of (169::nat) = CHR 0xA9" "char_of (239::nat) = CHR 0xEF" "char_of (191::nat) = CHR 0xBF"
  "char_of (189::nat) = CHR 0xBD"
  by (simp_all add: char_of_eq_iff)

text \<open>An escaped rune that is no surrogate.\<close>

lemma unicode_escape_plain:
  assumes "hex4 s = Some r" "\<not> surrogate r"
  shows "unicode_escape s = Some (encode_rune r, 4)"
  using assms by (auto simp: unicode_escape_def surrogate_def split: option.splits)

lemma lex_escaped:
  assumes "hex4 (h @ x) = Some r" "length h = 4" "\<not> surrogate r"
  shows "lex_string (Backslash # CHR ''u'' # h @ x) = emit (encode_rune r) (lex_string x)"
  using unicode_escape_plain [OF assms(1,3)] assms(2) by (subst lex_string.simps) simp

lemma lex_escape_ascii:
  assumes "code c < 0x80"
  shows "lex_string (escape_ascii c @ x) = emit [c] (lex_string x)"
proof (cases "html_safe c \<or> c \<in> {Quote, Backslash, LF, CR, CHR 0x09}")
  case True
  then show ?thesis
    by (auto simp: escape_ascii_def html_safe_def simple_escape_def lex_string.simps(2) code_def)
next
  case False
  have "hex4 (''00'' @ [hex_digit (code c div 16), hex_digit (code c mod 16)] @ x) = Some (code c)"
    using assms by (simp add: hex_value_digit hex_value_chars)
  from lex_escaped [of "''00'' @ [hex_digit (code c div 16), hex_digit (code c mod 16)]" x "code c"] this assms False
  show ?thesis by (auto simp: escape_ascii_def surrogate_def encode_rune_def byte_def code_def)
qed

lemma lex_rune:
  assumes "utf8_len (c # s) = k" "0 < k" "\<not> code c < 0x80"
  shows "lex_string (take k (c # s) @ x) = emit (take k (c # s)) (lex_string x)"
proof -
  obtain k' where k: "k = Suc k'" using assms(2) by (cases k) auto
  have "Suc k' \<le> length (c # s)" using utf8_len_le [of "c # s"] assms(1) k by simp
  moreover have "utf8_len (c # take k' s @ x) = Suc k'" using utf8_len_take [OF assms(1,2), of x] by (simp add: k)
  moreover have "c \<noteq> Quote" "c \<noteq> Backslash" "\<not> code c < 0x20" using assms(3) by (auto simp: code_def)
  ultimately show ?thesis using assms(3) by (simp add: k lex_string.simps(2) Let_def)
qed

lemma lex_line_separator:
  assumes "line_separator r"
  shows "lex_string (Backslash # ''u202'' @ [hex_digit (code (last r) mod 16)] @ x) = emit r (lex_string x)"
proof -
  have "hex4 (''202'' @ [hex_digit (code (last r) mod 16)] @ x) = Some (0x2020 + code (last r) mod 16)"
    by (simp add: hex_value_digit hex_value_chars)
  from lex_escaped [OF this [unfolded append_assoc [symmetric]]] assms show ?thesis
    by (auto simp: line_separator_def code_def surrogate_def encode_rune_def byte_def byte_consts)
qed

lemma lex_json_chars: "lex_string (json_chars s @ Quote # rest) = Some (utf8_text s, rest)"
proof (induction s rule: json_chars.induct)
  case 1
  show ?case by (simp add: lex_string.simps)
next
  case (2 c s)
  let ?k = "utf8_len (c # s)"
  show ?case
  proof (cases "code c < 0x80")
    case True
    then show ?thesis using 2(1) by (simp add: lex_escape_ascii emit_def)
  next
    case high: False
    show ?thesis
    proof (cases "?k = 0")
      case True
      have "hex4 (''fffd'' @ x) = Some 0xFFFD" for x
        by (simp add: hex_value_chars)
      from lex_escaped [OF this] have "lex_string (Backslash # ''ufffd'' @ x) = emit replacement (lex_string x)" for x
        by (simp add: surrogate_def encode_rune_def byte_def replacement_def byte_consts)
      then show ?thesis using high True 2(2) by (simp add: emit_def)
    next
      case False
      then have IH: "lex_string (json_chars (drop ?k (c # s)) @ Quote # rest)
          = Some (utf8_text (drop ?k (c # s)), rest)"
        using 2(3) high by blast
      show ?thesis
        using False high lex_rune [of c s ?k] lex_line_separator [of "take ?k (c # s)"] IH
        by (simp add: Let_def emit_def)
    qed
  qed
qed

lemma reads_json_string: "reads (json_string s) (JStr (utf8_text s))"
  unfolding json_string_def by (rule reads_quoted) (rule lex_json_chars)

lemma reads_json_object:
  assumes "list_all2 (\<lambda>(k, v) (k', j). k' = utf8_text k \<and> reads v j) ms js"
  shows "reads (json_object ms) (JObj js)"
proof -
  have "json_members ms = sep_by (CHR '','' # []) (map (\<lambda>(k, v). k @ CHR '':'' # [] @ v) (map (\<lambda>(k, v). (json_string k, v)) ms))"
    by (induction ms rule: json_members.induct) (simp_all add: sep_by_Cons)
  moreover have "list_all2 (\<lambda>(k, v) (k', j). reads k (JStr k') \<and> reads v j) (map (\<lambda>(k, v). (json_string k, v)) ms) js"
    using assms by (fastforce simp: list_all2_conv_all_nth reads_json_string split: prod.splits)
  ultimately show ?thesis
    using reads_object [of "map (\<lambda>(k, v). (json_string k, v)) ms" js "[]" "[]"] by (simp only: json_object_def list.pred_inject simp_thms)
qed

section \<open>Decoded text is UTF-8\<close>

definition is_utf8 :: "string \<Rightarrow> bool" where
  "is_utf8 s = (utf8_text s = s)"

fun json_utf8 :: "json \<Rightarrow> bool" where
  "json_utf8 (JStr s) = is_utf8 s"
| "json_utf8 (JArr js) = list_all json_utf8 js"
| "json_utf8 (JObj ms) = list_all (\<lambda>(k, j). is_utf8 k \<and> json_utf8 j) ms"
| "json_utf8 j = True"

text \<open>A rune at the start of a text.\<close>

definition rune :: "bytes \<Rightarrow> bool" where
  "rune b = ((\<exists>c. b = [c] \<and> code c < 0x80) \<or> (b \<noteq> [] \<and> utf8_len b = length b))"

lemma utf8_text_rune: "rune b \<Longrightarrow> utf8_text (b @ x) = b @ utf8_text x"
proof -
  assume "rune b"
  then consider c where "b = [c]" "code c < 0x80" | "b \<noteq> []" "utf8_len b = length b" by (auto simp: rune_def)
  then show ?thesis
  proof cases
    case 2
    then obtain c t where b: "b = c # t" by (cases b) auto
    have len: "utf8_len (c # t @ x) = Suc (length t)"
      using utf8_len_take [of b "length b" x] 2 by (simp add: b)
    have "\<not> code c < 0x80"
      using utf8_high [of b c] 2 by (simp add: b)
    with len show ?thesis by (simp add: b)
  qed simp
qed

lemma rune_encode: "rune (encode_rune r)"
proof -
  have small: "code (byte k) = k" if "k < 256" for k
    using that by (simp add: byte_def code_char_of)
  have m: "r div 64 mod 64 < 64" "r mod 64 < 64" "r div 4096 mod 64 < 64" by simp_all
  consider "r < 0x80" | "0x80 \<le> r" "r < 0x800" | "0x800 \<le> r" "surrogate r \<or> 0x110000 \<le> r"
    | "0x800 \<le> r" "r < 0x10000" "\<not> surrogate r" | "0x10000 \<le> r" "r < 0x110000"
    by (cases "surrogate r"; cases "r < 0x110000"; cases "r < 0x800"; cases "r < 0x80"; cases "r < 0x10000") auto
  then show ?thesis
  proof cases
    case 3
    have "rune replacement"
      by (simp add: rune_def replacement_def cont_def between_def code_def)
    moreover from 3 have "encode_rune r = replacement" by (auto simp: encode_rune_def)
    ultimately show ?thesis by simp
  next
    case 1
    then show ?thesis by (simp add: encode_rune_def rune_def small)
  next
    case 2
    then have "r div 64 < 32" "2 \<le> r div 64" by auto
    then show ?thesis using 2 m by (simp add: encode_rune_def rune_def cont_def between_def small)
  next
    case 4
    have r: "r div 64 = 64 * (r div 4096) + r div 64 mod 64"
      using div_mult2_eq [of r 64 64] mult_div_mod_eq [of 64 "r div 64"] by simp
    have "r div 4096 < 16" "32 \<le> r div 64" "r div 64 < 864 \<or> 896 \<le> r div 64"
      using 4 by (auto simp: surrogate_def)
    then have "r div 4096 < 16" "r div 4096 = 0 \<Longrightarrow> 32 \<le> r div 64 mod 64" "r div 4096 = 13 \<Longrightarrow> r div 64 mod 64 < 32"
      using r m(1) by auto
    then show ?thesis
      using 4 m by (auto simp: encode_rune_def rune_def cont_def between_def small)
  next
    case 5
    have r: "r div 4096 = 64 * (r div 262144) + r div 4096 mod 64"
      using div_mult2_eq [of r 4096 64] mult_div_mod_eq [of 64 "r div 4096"] by simp
    have "r div 262144 < 5" "16 \<le> r div 4096" "r div 4096 < 272"
      using 5 by auto
    then have "r div 262144 < 5" "r div 262144 = 0 \<Longrightarrow> 16 \<le> r div 4096 mod 64" "r div 262144 = 4 \<Longrightarrow> r div 4096 mod 64 < 16"
      using r m(3) by auto
    then show ?thesis
      using 5 m by (auto simp: encode_rune_def rune_def cont_def between_def small surrogate_def)
  qed
qed

lemma rune_replacement: "rune replacement"
  using rune_encode [where r = 1114112] by (simp add: encode_rune_def)

lemma is_utf8_rune: "rune b \<Longrightarrow> is_utf8 x \<Longrightarrow> is_utf8 (b @ x)"
  by (simp add: is_utf8_def utf8_text_rune)

lemma rune_len: "0 < utf8_len s \<Longrightarrow> rune (take (utf8_len s) s)"
  using utf8_len_take [of s "utf8_len s" "[]"] utf8_len_le [of s] by (auto simp: rune_def)

lemma unicode_escape_rune: "unicode_escape s = Some (b, k) \<Longrightarrow> rune b"
  using rune_encode by (auto simp: unicode_escape_def split: option.splits if_splits)

lemma simple_escape_rune: "simple_escape e = Some b \<Longrightarrow> rune [b]"
  by (auto simp: simple_escape_def rune_def code_def split: if_splits)

lemma emitted:
  assumes "emit b (lex_string t) = Some (x, r)" "rune b" "length t \<le> n"
  shows "\<exists>t y b. lex_string t = Some (y, r) \<and> length t \<le> n \<and> rune b \<and> x = b @ y"
  using assms by (auto simp: emit_Some)

lemma lex_string_rune:
  assumes "lex_string (c # s) = Some (x, r)" "x \<noteq> []"
  shows "\<exists>t y b. lex_string t = Some (y, r) \<and> length t \<le> length s \<and> rune b \<and> x = b @ y"
proof (cases "c = Quote \<or> c = Backslash")
  case True
  then obtain e t where c: "c = Backslash" "s = e # t"
    using assms by (cases s) (auto simp: lex_string.simps)
  show ?thesis
  proof (cases "e = CHR ''u''")
    case True
    then obtain b k where "unicode_escape t = Some (b, k)" "emit b (lex_string (drop k t)) = Some (x, r)"
      using assms(1) c by (auto simp: lex_string.simps(2) split: option.splits)
    with c show ?thesis by (intro emitted unicode_escape_rune) auto
  next
    case False
    then obtain b where "simple_escape e = Some b" "emit [b] (lex_string t) = Some (x, r)"
      using assms(1) c by (auto simp: lex_string.simps(2) split: option.splits)
    with c show ?thesis using simple_escape_rune by (intro emitted) auto
  qed
next
  case False
  let ?k = "utf8_len (c # s)"
  consider "code c < 0x80" "emit [c] (lex_string s) = Some (x, r)"
    | "emit replacement (lex_string s) = Some (x, r)"
    | "0 < ?k" "emit (take ?k (c # s)) (lex_string (drop ?k (c # s))) = Some (x, r)"
    using assms(1) False by (auto simp: lex_string.simps(2) Let_def split: if_splits)
  then show ?thesis
  proof cases
    case 1
    then show ?thesis by (intro emitted) (auto simp: rune_def)
  next
    case 2
    then show ?thesis using rune_replacement by (intro emitted) auto
  next
    case 3
    then show ?thesis using rune_len by (intro emitted) auto
  qed
qed

lemma lex_string_utf8: "lex_string s = Some (x, r) \<Longrightarrow> is_utf8 x"
proof (induction s arbitrary: x rule: measure_induct_rule [of length])
  case (less s)
  show ?case
  proof (cases "x = []")
    case False
    obtain c u where s: "s = c # u" using less.prems by (cases s) (auto simp: lex_string.simps)
    from lex_string_rune [OF less.prems [unfolded s] False] obtain t y b where
      t: "lex_string t = Some (y, r)" "length t \<le> length u" "rune b" "x = b @ y" by blast
    then have "is_utf8 y" by (intro less.IH [of t]) (simp_all add: s)
    with t show ?thesis by (simp add: is_utf8_rune)
  qed (simp add: is_utf8_def)
qed

definition token_utf8 :: "token \<Rightarrow> bool" where
  "token_utf8 t = (case t of Atom j \<Rightarrow> json_utf8 j | _ \<Rightarrow> True)"

lemma lex_atom_utf8: "lex_atom c s = Some (j, r) \<Longrightarrow> json_utf8 j"
  using lex_string_utf8 by (auto simp: lex_atom_def lex_word_def split: if_splits)

lemma tokenize_utf8: "tokenize s = Some ts \<Longrightarrow> list_all token_utf8 ts"
proof (induction s arbitrary: ts rule: tokenize.induct)
  case (2 c s)
  have "punctuation c = Some t \<Longrightarrow> token_utf8 t" for t
    by (auto simp: punctuation_def token_utf8_def split: if_splits)
  with 2 show ?case
    by (auto simp: tokenize.simps(2) token_utf8_def dest: lex_atom_utf8 split: if_splits option.splits)
qed simp

fun expect_utf8 :: "expect \<Rightarrow> bool" where
  "expect_utf8 (WantKey ms) = json_utf8 (JObj ms)"
| "expect_utf8 (WantColon ms k) = (json_utf8 (JObj ms) \<and> is_utf8 k)"
| "expect_utf8 (Have j) = json_utf8 j"
| "expect_utf8 p = True"

fun frame_utf8 :: "frame \<Rightarrow> bool" where
  "frame_utf8 (InArr js) = json_utf8 (JArr js)"
| "frame_utf8 (InObj ms k) = (json_utf8 (JObj ms) \<and> is_utf8 k)"

lemma parse_step_utf8:
  assumes "parse_step (p, fs) t = Some (q, gs)" "expect_utf8 p" "list_all frame_utf8 fs" "token_utf8 t"
  shows "expect_utf8 q \<and> list_all frame_utf8 gs"
  using assms by (cases "((p, fs), t)" rule: parse_step.cases) (auto simp: token_utf8_def)

lemma parse_run_utf8:
  "parse_run (p, fs) ts = Some j \<Longrightarrow> expect_utf8 p \<Longrightarrow> list_all frame_utf8 fs \<Longrightarrow> list_all token_utf8 ts \<Longrightarrow> json_utf8 j"
proof (induction ts arbitrary: p fs)
  case (Cons t ts)
  then obtain q gs where q: "parse_step (p, fs) t = Some (q, gs)" "parse_run (q, gs) ts = Some j"
    by (auto split: option.splits)
  from parse_step_utf8 [OF q(1)] Cons.prems q(2) Cons.IH show ?case by auto
qed (auto split: expect.splits list.splits)

lemma parse_json_utf8: "parse_json s = Some j \<Longrightarrow> json_utf8 j"
  unfolding parse_json_def
  by (auto simp: bind_eq_Some_conv intro: parse_run_utf8 tokenize_utf8)

end
