(* ===== verification/Regexps.thy ===== *)
theory Regexps
  imports Numerals
begin

text \<open>
  Compiled regular expressions (package \<open>regexp\<close>), as far as \<open>pkg/core/input.go\<close> and
  \<open>pkg/core/output.go\<close> use them.  The matcher itself is a parameter: a compiled expression
  says where it matches in a text, group by group; everything the program calls on it is
  computed from these positions.
\<close>

section \<open>Expressions and matches\<close>

text \<open>The positions of one match: of the whole, then of each group that took part in it.\<close>

type_synonym match = "(nat \<times> nat) option list"

record regexp =
  reSource :: string
  subexpNames :: "string list" \<comment> \<open>the name of the whole match (empty) first\<close>
  locs :: "bytes \<Rightarrow> match list" \<comment> \<open>\<open>FindAllSubmatchIndex(text, -1)\<close>\<close>

text \<open>\<open>regexp.Compile\<close>: None is an error.\<close>

type_synonym engine = "string \<Rightarrow> regexp option"

definition slice :: "bytes \<Rightarrow> nat \<times> nat \<Rightarrow> bytes" where
  "slice s = (\<lambda>(a, b). take (b - a) (drop a s))"

text \<open>The positions of the matches are in order, inside the text, and have all the groups.\<close>

fun locs_from :: "nat \<Rightarrow> nat \<Rightarrow> nat \<Rightarrow> match list \<Rightarrow> bool" where
  "locs_from n i len [] = True"
| "locs_from n i len (m # ms) =
     (length m = n
      \<and> (case m of Some (a, b) # _ \<Rightarrow> i \<le> a \<and> a \<le> b \<and> b \<le> len \<and> locs_from n b len ms | _ \<Rightarrow> False))"

definition regexp_ok :: "regexp \<Rightarrow> bool" where
  "regexp_ok re = (\<forall>s. locs_from (length (subexpNames re)) 0 (length s) (locs re s))"

section \<open>Searching\<close>

text \<open>
  A submatch that did not take part is nil, and so is every slice of a nil text: \<open>Find\<close> of an
  empty match in a nil text cannot be told from no match.
\<close>

definition submatches :: "bytes \<Rightarrow> match \<Rightarrow> bytes option list" where
  "submatches s m = map (map_option (slice s)) m"

definition FindAllSubmatch :: "regexp \<Rightarrow> bytes \<Rightarrow> int \<Rightarrow> bytes option list list" where
  "FindAllSubmatch re s n =
     (let ms = map (submatches s) (locs re s) in if n < 0 then ms else take (nat n) ms)"

definition Find :: "regexp \<Rightarrow> bytes option \<Rightarrow> bytes option" where
  "Find re text =
     (case text of
        None \<Rightarrow> None
      | Some s \<Rightarrow> (case locs re s of (Some l # _) # _ \<Rightarrow> Some (slice s l) | _ \<Rightarrow> None))"

section \<open>Replacing\<close>

text \<open>
  The template of a replacement: \<open>$name\<close>, \<open>${name}\<close> and \<open>$$\<close> are expanded, a dollar sign that
  starts none of these stands for itself.  \<open>wide\<close> is the number of bytes of the letter or digit
  beyond ASCII at the start of a text, 0 if there is none.
\<close>

definition ascii_word :: "char \<Rightarrow> bool" where
  "ascii_word c = (97 \<le> code c \<and> code c \<le> 122 \<or> 65 \<le> code c \<and> code c \<le> 90
     \<or> ascii_digit c \<or> c = CHR ''_'')"

definition rune_len :: "(bytes \<Rightarrow> nat) \<Rightarrow> bytes \<Rightarrow> nat" where
  "rune_len wide s =
     (case s of
        [] \<Rightarrow> 0
      | c # _ \<Rightarrow> if code c < 128 then (if ascii_word c then 1 else 0) else min (wide s) (length s))"

function word_run :: "(bytes \<Rightarrow> nat) \<Rightarrow> bytes \<Rightarrow> nat" where
  "word_run wide s =
     (let k = rune_len wide s in if k = 0 then 0 else k + word_run wide (drop k s))"
  by pat_completeness auto
termination
  by (relation "measure (\<lambda>(_, s). length s)") (auto simp: rune_len_def split: list.splits)

declare word_run.simps [simp del]

text \<open>The number a group is called by; None where \<open>extract\<close> gives a name instead.\<close>

definition group_number :: "bytes \<Rightarrow> nat option" where
  "group_number name =
     (if list_all ascii_digit name \<and> (hd name \<noteq> CHR ''0'' \<or> length name = 1)
          \<and> decimal (butlast name) < 10 ^ 8
      then Some (decimal name) else None)"

text \<open>What follows a dollar sign: the name and what is left of the template.\<close>

definition extract_name :: "(bytes \<Rightarrow> nat) \<Rightarrow> bytes \<Rightarrow> (bytes \<times> bytes) option" where
  "extract_name wide t =
     (let brace = (t \<noteq> [] \<and> hd t = CHR ''{'');
          str = (if brace then tl t else t);
          i = word_run wide str;
          rest = drop i str
      in if i = 0 then None
         else if \<not> brace then Some (take i str, rest)
         else if rest = [] \<or> hd rest \<noteq> CHR ''}'' then None
         else Some (take i str, tl rest))"

definition group_text :: "bytes \<Rightarrow> match \<Rightarrow> nat \<Rightarrow> bytes" where
  "group_text s m k =
     (if k < length m then (case m ! k of Some l \<Rightarrow> slice s l | None \<Rightarrow> []) else [])"

definition named_group :: "regexp \<Rightarrow> bytes \<Rightarrow> match \<Rightarrow> bytes \<Rightarrow> bytes" where
  "named_group re s m name =
     (case filter (\<lambda>k. subexpNames re ! k = name \<and> k < length m \<and> m ! k \<noteq> None)
             [0..<length (subexpNames re)] of
        [] \<Rightarrow> [] | k # _ \<Rightarrow> group_text s m k)"

lemma word_run_le: "word_run wide s \<le> length s"
proof (induction wide s rule: word_run.induct)
  case (1 wide s)
  have "rune_len wide s \<le> length s" by (auto simp: rune_len_def split: list.splits)
  with 1 show ?case by (subst word_run.simps) (fastforce simp: Let_def)
qed

lemma word_run_Nil [simp]: "word_run wide [] = 0"
  by (subst word_run.simps) (simp add: rune_len_def)

lemma extract_name_shorter: "extract_name wide t = Some (n, r) \<Longrightarrow> length r < length t"
  by (cases t) (auto simp: extract_name_def Let_def split: if_splits)

lemma cut_shorter_sym: "(a, b, True) = cut c s \<Longrightarrow> length b < length s"
  using cut_rest_shorter [of c s a b] by simp

function expand :: "(bytes \<Rightarrow> nat) \<Rightarrow> regexp \<Rightarrow> bytes \<Rightarrow> bytes \<Rightarrow> match \<Rightarrow> bytes" where
  "expand wide re template s m =
     (case cut (CHR ''$'') template of
        (before, after, found) \<Rightarrow>
          if \<not> found then template
          else if after \<noteq> [] \<and> hd after = CHR ''$''
            then before @ CHR ''$'' # expand wide re (tl after) s m
          else case extract_name wide after of
            None \<Rightarrow> before @ CHR ''$'' # expand wide re after s m
          | Some (name, rest) \<Rightarrow>
              before
              @ (case group_number name of
                   Some k \<Rightarrow> group_text s m k | None \<Rightarrow> named_group re s m name)
              @ expand wide re rest s m)"
  by pat_completeness auto
termination
  by (relation "measure (\<lambda>(_, _, t, _, _). length t)")
    (auto dest!: cut_shorter_sym extract_name_shorter)

declare expand.simps [simp del]

fun splice_text :: "bytes \<Rightarrow> nat \<Rightarrow> match list \<Rightarrow> (match \<Rightarrow> bytes) \<Rightarrow> bytes" where
  "splice_text s pos [] f = drop pos s"
| "splice_text s pos (m # ms) f =
     (case m of
        Some (a, b) # _ \<Rightarrow> slice s (pos, a) @ f m @ splice_text s b ms f
      | _ \<Rightarrow> splice_text s pos ms f)"

definition ReplaceAll :: "(bytes \<Rightarrow> nat) \<Rightarrow> regexp \<Rightarrow> bytes \<Rightarrow> bytes \<Rightarrow> bytes" where
  "ReplaceAll wide re s template = splice_text s 0 (locs re s) (expand wide re template s)"

lemma expand_plain: "CHR ''$'' \<notin> set t \<Longrightarrow> expand wide re t s m = t"
  by (subst expand.simps) simp

section \<open>Literal patterns\<close>

text \<open>Where a pattern without operators matches: its occurrences, from left to right.\<close>

function lit_locs :: "bytes \<Rightarrow> nat \<Rightarrow> bytes \<Rightarrow> match list" where
  "lit_locs pat i s =
     (if pat \<noteq> [] \<and> take (length pat) s = pat
      then [Some (i, i + length pat)] # lit_locs pat (i + length pat) (drop (length pat) s)
      else case s of [] \<Rightarrow> [] | _ # s' \<Rightarrow> lit_locs pat (i + 1) s')"
  by pat_completeness auto
termination
proof (relation "measure (\<lambda>(_, _, s). length s)", goal_cases)
  case (2 pat i s)
  then show ?case by (cases s) auto
qed auto

function replace_lit :: "bytes \<Rightarrow> bytes \<Rightarrow> bytes \<Rightarrow> bytes" where
  "replace_lit pat val s =
     (if pat \<noteq> [] \<and> take (length pat) s = pat
      then val @ replace_lit pat val (drop (length pat) s)
      else case s of [] \<Rightarrow> [] | c # s' \<Rightarrow> c # replace_lit pat val s')"
  by pat_completeness auto
termination
proof (relation "measure (\<lambda>(_, _, s). length s)", goal_cases)
  case (2 pat val s)
  then show ?case by (cases s) auto
qed auto

declare lit_locs.simps [simp del] replace_lit.simps [simp del]

definition literal :: "string \<Rightarrow> bytes \<Rightarrow> regexp" where
  "literal src pat = \<lparr>reSource = src, subexpNames = [''''], locs = lit_locs pat 0\<rparr>"

lemma drop_length_append: "length a = i \<Longrightarrow> drop i (a @ b) = b"
  by simp

lemma splice_lit:
  "splice_text (pre @ mid @ s) (length pre) (lit_locs pat (length pre + length mid) s) (\<lambda>m. val)
    = mid @ replace_lit pat val s"
proof (induction pat val s arbitrary: pre mid rule: replace_lit.induct)
  case (1 pat val s)
  show ?case
  proof (cases "pat \<noteq> [] \<and> take (length pat) s = pat")
    case True
    define t where "t = drop (length pat) s"
    have s: "s = pat @ t" using True by (metis append_take_drop_id t_def)
    have "splice_text ((pre @ mid @ pat) @ [] @ t) (length (pre @ mid @ pat))
        (lit_locs pat (length (pre @ mid @ pat) + length []) t) (\<lambda>m. val) = [] @ replace_lit pat val t"
      unfolding t_def using 1(1) [OF True, of "pre @ mid @ pat" "[]"] by simp
    then show ?thesis
      using True by (subst lit_locs.simps, subst replace_lit.simps) (simp add: s slice_def add.assoc)
  next
    case no: False
    show ?thesis
    proof (cases s)
      case Nil
      with no show ?thesis by (auto simp: lit_locs.simps replace_lit.simps)
    next
      case (Cons c s')
      have "splice_text (pre @ (mid @ [c]) @ s') (length pre) (lit_locs pat (length pre + length (mid @ [c])) s')
          (\<lambda>m. val) = (mid @ [c]) @ replace_lit pat val s'"
        using 1(2) [OF no Cons] by blast
      with no Cons show ?thesis
        by (subst lit_locs.simps, subst replace_lit.simps) auto
    qed
  qed
qed

lemma ReplaceAll_literal:
  assumes "CHR ''$'' \<notin> set val"
  shows "ReplaceAll wide (literal src pat) s val = replace_lit pat val s"
proof -
  have "expand wide re val s = (\<lambda>m. val)" for re
    using expand_plain [OF assms] by (intro ext)
  then show ?thesis
    using splice_lit [of "[]" "[]" s pat val] by (simp add: ReplaceAll_def literal_def)
qed

text \<open>A text that holds the pattern once.\<close>

lemma replace_lit_skip:
  assumes "hd pat \<notin> set a" "pat \<noteq> []"
  shows "replace_lit pat val (a @ s) = a @ replace_lit pat val s"
  using assms(1)
proof (induction a)
  case (Cons c a)
  have "take (length pat) (c # a @ s) \<noteq> pat" using Cons.prems assms(2) by (cases pat) auto
  then show ?case using Cons by (subst replace_lit.simps) simp
qed simp

lemma replace_lit_hit: "pat \<noteq> [] \<Longrightarrow> replace_lit pat val (pat @ s) = val @ replace_lit pat val s"
  by (subst replace_lit.simps) simp

lemma replace_lit_once:
  assumes "hd pat \<notin> set a" "hd pat \<notin> set b" "pat \<noteq> []"
  shows "replace_lit pat val (a @ pat @ b) = a @ val @ b"
proof -
  have "replace_lit pat val [] = []" using assms(3) by (subst replace_lit.simps) simp
  then show ?thesis
    using replace_lit_skip [OF assms(1,3)] replace_lit_hit [OF assms(3)] replace_lit_skip [OF assms(2,3), of val "[]"]
    by simp
qed

end
