(* ===== verification/Str_Index.thy ===== *)
theory Str_Index
  imports Prelude
begin

text \<open>
  \<open>pkg/core/strindex.go\<close>: the table that gives every label, address and error message a
  16-bit number.  The state is the Go struct without its mutex (the operations here are the
  sequential ones); the disk is a map from file names to contents, with the permissions that
  decide whether opening a file panics.
\<close>

section \<open>State\<close>

record StrIndex =
  filename :: string
  index :: "string list"
  mapping :: "string \<Rightarrow> u16 option"
  fd :: bool
  readonly :: bool

record disk =
  files :: "string \<Rightarrow> bytes option"
  can_read :: "string \<Rightarrow> bool"
  can_write :: "string \<Rightarrow> bool"

section \<open>Operations\<close>

text \<open>
  The body of the scanner loop of \<open>Load\<close>.  The scanner refuses a line that does not fit
  its buffer of 64 KiB.
\<close>

definition max_token :: nat where "max_token = 65536"

definition load_line :: "StrIndex \<Rightarrow> string \<Rightarrow> StrIndex" where
  "load_line s text =
     (let idx = index s @ [text]
      in s\<lparr>index := idx, mapping := (mapping s)(text \<mapsto> of_nat (length idx - 1))\<rparr>)"

definition Load :: "disk \<Rightarrow> StrIndex \<Rightarrow> StrIndex go" where
  "Load d s =
     (case files d (filename s) of
        None \<Rightarrow> Inl (PanicMsg ''open'')
      | Some content \<Rightarrow>
          if \<not> can_read d (filename s) then Inl (PanicMsg ''open'')
          else if \<exists>l \<in> set (raw_lines content). max_token \<le> length l
            then Inl (PanicMsg ''token too long'')
          else Inr (foldl load_line s (map drop_cr (raw_lines content))))"

definition fresh_index :: "string \<Rightarrow> bool \<Rightarrow> StrIndex" where
  "fresh_index fname ro =
     \<lparr>filename = fname, index = [''''], mapping = [ '''' \<mapsto> 0], fd = False, readonly = ro\<rparr>"

definition NewStringIndex :: "disk \<Rightarrow> string \<Rightarrow> bool \<Rightarrow> StrIndex go" where
  "NewStringIndex d fname ro =
     (if fname \<noteq> '''' \<and> files d fname \<noteq> None
      then Load d (fresh_index fname ro)
      else Inr (fresh_index fname ro))"

definition Get :: "StrIndex \<Rightarrow> u16 \<Rightarrow> string go" where
  "Get s idx =
     (if length (index s) \<le> unat idx
      then Inl (PanicMsg ''String not found in index'')
      else Inr (index s ! unat idx))"

text \<open>
  \<open>appendFile\<close> opens the file on first use (creating it) and then appends the label and a
  line feed, flushed at once.
\<close>

type_synonym table = "disk \<times> StrIndex"

fun appendFile :: "table \<Rightarrow> string \<Rightarrow> table go" where
  "appendFile (d, s) label =
     (if filename s = '''' then Inr (d, s)
      else if \<not> fd s \<and> \<not> can_write d (filename s) then Inl (PanicMsg ''open for append'')
      else
        let old = (case files d (filename s) of None \<Rightarrow> [] | Some c \<Rightarrow> c)
        in Inr (d\<lparr>files := (files d)(filename s \<mapsto> old @ label @ [LF])\<rparr>, s\<lparr>fd := True\<rparr>))"

fun Idx :: "table \<Rightarrow> string \<Rightarrow> (table \<times> u16) go" where
  "Idx (d, s) label =
     (case mapping s label of
        Some idx \<Rightarrow> Inr ((d, s), idx)
      | None \<Rightarrow>
          if readonly s then Inl (PanicMsg ''attempt to change a readonly index'')
          else
            let s1 = s\<lparr>index := index s @ [label]\<rparr>;
                idx = of_nat (length (index s1) - 1);
                s2 = s1\<lparr>mapping := (mapping s1)(label \<mapsto> idx)\<rparr>
            in go_bind (appendFile (d, s2) label) (\<lambda>t. Inr (t, idx)))"

declare appendFile.simps [simp del] Idx.simps [simp del]

section \<open>Invariant\<close>

text \<open>
  The reverse index and the list agree.  The bound is what keeps the conversion
  \<open>uint16(len(s.index) - 1)\<close> exact; nothing in the code enforces it.
\<close>

definition idx_inv :: "StrIndex \<Rightarrow> bool" where
  "idx_inv s \<longleftrightarrow>
     index s \<noteq> [] \<and> length (index s) \<le> u16_values \<and>
     (\<forall>l i. mapping s l = Some i \<longrightarrow> unat i < length (index s) \<and> index s ! unat i = l) \<and>
     (\<forall>l \<in> set (index s). mapping s l \<noteq> None)"

definition room :: "StrIndex \<Rightarrow> nat" where
  "room s = u16_values - length (index s)"

definition can_append :: "table \<Rightarrow> bool" where
  "can_append t = (case t of (d, s) \<Rightarrow>
     \<not> readonly s \<and> (filename s = '''' \<or> fd s \<or> can_write d (filename s)))"

lemma idx_inv_fresh [simp]: "idx_inv (fresh_index fname ro)"
  by (auto simp: idx_inv_def fresh_index_def u16_values_def)

lemma idx_invD:
  assumes "idx_inv s"
  shows idx_inv_ne: "index s \<noteq> []" and idx_inv_len: "length (index s) \<le> u16_values"
    and idx_inv_mapping: "mapping s l = Some i \<Longrightarrow> unat i < length (index s) \<and> index s ! unat i = l"
    and idx_inv_index: "l \<in> set (index s) \<Longrightarrow> mapping s l \<noteq> None"
  using assms unfolding idx_inv_def by blast+

text \<open>Both \<open>Load\<close> and \<open>Idx\<close> extend the table by one entry; this is that step.\<close>

lemma idx_inv_extend:
  assumes "idx_inv s" "length (index s) < u16_values"
    and "index s' = index s @ [l]" "mapping s' = (mapping s)(l \<mapsto> of_nat (length (index s)))"
  shows "idx_inv s'"
  unfolding idx_inv_def
proof (intro conjI allI impI ballI)
  fix k i
  assume k: "mapping s' k = Some i"
  have new: "unat (of_nat (length (index s)) :: u16) = length (index s)"
    using assms(2) by (rule unat_of_nat_u16)
  show "unat i < length (index s')" "index s' ! unat i = k"
  proof (atomize(full), cases "k = l")
    case True
    with k new assms(3,4) show "unat i < length (index s') \<and> index s' ! unat i = k" by auto
  next
    case False
    with k assms(4) have "mapping s k = Some i" by simp
    from idx_inv_mapping [OF assms(1) this]
    show "unat i < length (index s') \<and> index s' ! unat i = k"
      by (simp add: assms(3))
  qed
next
  fix k
  assume "k \<in> set (index s')"
  then show "mapping s' k \<noteq> None"
    using idx_inv_index [OF assms(1), of k] assms(3,4) by auto
qed (use assms in simp_all)

lemma load_line_sel [simp]:
  "index (load_line s l) = index s @ [l]"
  "mapping (load_line s l) = (mapping s)(l \<mapsto> of_nat (length (index s)))"
  "filename (load_line s l) = filename s"
  "readonly (load_line s l) = readonly s"
  "fd (load_line s l) = fd s"
  by (simp_all add: load_line_def Let_def)

lemma foldl_load_line_sel [simp]:
  "index (foldl load_line s ls) = index s @ ls"
  "filename (foldl load_line s ls) = filename s"
  "readonly (foldl load_line s ls) = readonly s"
  "fd (foldl load_line s ls) = fd s"
  by (induction ls arbitrary: s) auto

lemma idx_inv_load:
  "idx_inv s \<Longrightarrow> length (index s) + length ls \<le> u16_values \<Longrightarrow> idx_inv (foldl load_line s ls)"
proof (induction ls arbitrary: s)
  case (Cons l ls)
  from Cons.prems have "idx_inv (load_line s l)"
    by - (rule idx_inv_extend [of s], auto)
  then have "idx_inv (foldl load_line (load_line s l) ls)"
    using Cons.prems(2) by (intro Cons.IH) auto
  then show ?case by simp
qed simp

lemma Get_Inr: "Get s i = Inr l \<longleftrightarrow> unat i < length (index s) \<and> index s ! unat i = l"
  by (auto simp: Get_def)

lemma appendFile_sel:
  assumes "appendFile (d, s) l = Inr (d', s')"
  shows "index s' = index s" "mapping s' = mapping s" "filename s' = filename s"
    "readonly s' = readonly s" "fd s' = (fd s \<or> filename s \<noteq> '''')"
    "can_write d' = can_write d" "can_read d' = can_read d"
    "files d' = (if filename s = '''' then files d else (files d)(filename s \<mapsto>
        (case files d (filename s) of None \<Rightarrow> [] | Some c \<Rightarrow> c) @ l @ [LF]))"
  using assms by (auto simp: appendFile.simps Let_def split: if_splits)

text \<open>What a call of \<open>Idx\<close> that returns has done: found the label, or added it.\<close>

lemma Idx_cases:
  assumes "Idx (d, s) l = Inr ((d', s'), i)"
  obtains (hit) "mapping s l = Some i" "d' = d" "s' = s"
    | (miss) s2 where "mapping s l = None" "\<not> readonly s" "i = of_nat (length (index s))"
        "index s2 = index s @ [l]" "mapping s2 = (mapping s)(l \<mapsto> of_nat (length (index s)))"
        "filename s2 = filename s" "readonly s2 = readonly s" "fd s2 = fd s"
        "appendFile (d, s2) l = Inr (d', s')"
proof (cases "mapping s l")
  case None
  let ?s2 = "s\<lparr>index := index s @ [l],
               mapping := (mapping s)(l \<mapsto> of_nat (length (index s)))\<rparr>"
  from None assms have "\<not> readonly s" "i = of_nat (length (index s))"
    "appendFile (d, ?s2) l = Inr (d', s')"
    by (auto simp: Idx.simps Let_def go_convs split: if_splits)
  with None show thesis by (intro miss [of ?s2]) simp_all
next
  case (Some j)
  with assms have "i = j" "d' = d" "s' = s" by (auto simp: Idx.simps)
  with Some show thesis by (intro hit) simp_all
qed

section \<open>The interface other components rely on\<close>

text \<open>
  A table that numbers strings: \<open>intern\<close> returns a number from which \<open>get\<close> gives the
  string back, and never changes what an earlier number stands for.
\<close>

fun intern_all :: "('s \<Rightarrow> string \<Rightarrow> ('s \<times> u16) go) \<Rightarrow> 's \<Rightarrow> string list \<Rightarrow> ('s \<times> u16 list) go" where
  "intern_all intern t [] = Inr (t, [])"
| "intern_all intern t (l # ls) =
     go_bind (intern t l) (\<lambda>(t', i).
     go_bind (intern_all intern t' ls) (\<lambda>(t'', is). Inr (t'', i # is)))"

locale string_table =
  fixes get :: "'s \<Rightarrow> u16 \<Rightarrow> string go"
    and intern :: "'s \<Rightarrow> string \<Rightarrow> ('s \<times> u16) go"
    and inv :: "'s \<Rightarrow> bool"
    and free :: "'s \<Rightarrow> nat"
  assumes intern_returns: "inv t \<Longrightarrow> 0 < free t \<Longrightarrow> \<exists>t' i. intern t l = Inr (t', i)"
    and intern_inv: "inv t \<Longrightarrow> 0 < free t \<Longrightarrow> intern t l = Inr (t', i) \<Longrightarrow> inv t'"
    and intern_get: "inv t \<Longrightarrow> 0 < free t \<Longrightarrow> intern t l = Inr (t', i) \<Longrightarrow> get t' i = Inr l"
    and intern_keeps:
      "inv t \<Longrightarrow> 0 < free t \<Longrightarrow> intern t l = Inr (t', i) \<Longrightarrow> get t j = Inr m \<Longrightarrow> get t' j = Inr m"
    and intern_free: "inv t \<Longrightarrow> intern t l = Inr (t', i) \<Longrightarrow> free t \<le> Suc (free t')"
begin

lemma intern_all_ok:
  assumes "inv t" "length ls \<le> free t"
  shows "\<exists>t' is. intern_all intern t ls = Inr (t', is) \<and> inv t'
           \<and> list_all2 (\<lambda>i l. get t' i = Inr l) is ls
           \<and> (\<forall>j m. get t j = Inr m \<longrightarrow> get t' j = Inr m)"
  using assms
proof (induction ls arbitrary: t)
  case Nil
  then show ?case by simp
next
  case (Cons l ls)
  then have free: "0 < free t" by simp
  from intern_returns [OF Cons.prems(1) free, of l] obtain t1 i
    where t1: "intern t l = Inr (t1, i)" by blast
  note inv1 = intern_inv [OF Cons.prems(1) free t1]
  have "length ls \<le> free t1"
    using intern_free [OF Cons.prems(1) t1] Cons.prems(2) by simp
  from Cons.IH [OF inv1 this] obtain t2 "is" where t2:
    "intern_all intern t1 ls = Inr (t2, is)" "inv t2"
    "list_all2 (\<lambda>i l. get t2 i = Inr l) is ls"
    "\<forall>j m. get t1 j = Inr m \<longrightarrow> get t2 j = Inr m"
    by blast
  moreover have "get t2 i = Inr l"
    using intern_get [OF Cons.prems(1) free t1] t2(4) by blast
  moreover have "get t j = Inr m \<Longrightarrow> get t2 j = Inr m" for j m
    using intern_keeps [OF Cons.prems(1) free t1, of j m] t2(4) by blast
  ultimately show ?case
    using t1 by (intro exI [of _ t2] exI [of _ "i # is"]) auto
qed

lemma intern_pair:
  assumes "inv t" "2 \<le> free t"
  obtains t1 i t2 j where "intern t k = Inr (t1, i)" "intern t1 l = Inr (t2, j)"
    "get t2 i = Inr k" "get t2 j = Inr l" "inv t2"
    "\<And>n m. get t n = Inr m \<Longrightarrow> get t2 n = Inr m"
proof -
  from intern_all_ok [OF assms(1), of "[k, l]"] assms(2) obtain t2 "is" where *:
    "intern_all intern t [k, l] = Inr (t2, is)" "inv t2"
    "list_all2 (\<lambda>i l. get t2 i = Inr l) is [k, l]"
    "\<forall>j m. get t j = Inr m \<longrightarrow> get t2 j = Inr m"
    by auto
  then show thesis
    by (auto simp: go_convs list_all2_Cons2 intro: that)
qed

end

section \<open>\<open>StrIndex\<close> provides the interface\<close>

definition table_inv :: "table \<Rightarrow> bool" where
  "table_inv t \<longleftrightarrow> idx_inv (snd t) \<and> can_append t"

lemma Idx_Inr_inv:
  assumes "idx_inv s" "0 < room s" "Idx (d, s) l = Inr ((d', s'), i)"
  shows "idx_inv s'"
  using assms(3)
proof (cases rule: Idx_cases)
  case (miss s2)
  from assms(2) have "length (index s) < u16_values" by (simp add: room_def)
  then show ?thesis
    using assms(1) miss appendFile_sel [OF miss(9)] by (intro idx_inv_extend [of s s' l]) auto
qed (use assms in simp)

lemma Idx_Inr_get:
  assumes "idx_inv s" "0 < room s" "Idx (d, s) l = Inr ((d', s'), i)"
  shows "Get s' i = Inr l"
  using assms(3)
proof (cases rule: Idx_cases)
  case hit
  then show ?thesis using idx_inv_mapping [OF assms(1)] by (auto simp: Get_Inr)
next
  case (miss s2)
  from assms(2) have "length (index s) < u16_values" by (simp add: room_def)
  with miss appendFile_sel [OF miss(9)] show ?thesis
    by (auto simp: Get_Inr unat_of_nat_u16)
qed

lemma Idx_Inr_keeps:
  assumes "Idx (d, s) l = Inr ((d', s'), i)" "Get s j = Inr m"
  shows "Get s' j = Inr m"
  using assms(1)
proof (cases rule: Idx_cases)
  case (miss s2)
  with assms(2) appendFile_sel [OF miss(9)] show ?thesis by (auto simp: Get_Inr)
qed (use assms in simp)

lemma Idx_Inr_sel:
  assumes "Idx (d, s) l = Inr ((d', s'), i)"
  shows "filename s' = filename s" "readonly s' = readonly s"
    "can_write d' = can_write d" "can_read d' = can_read d" "fd s \<Longrightarrow> fd s'"
    "room s \<le> Suc (room s')" "can_append (d, s) \<Longrightarrow> can_append (d', s')"
    "mapping s' l = Some i"
proof -
  from assms have *: "filename s' = filename s \<and> readonly s' = readonly s
      \<and> can_write d' = can_write d \<and> can_read d' = can_read d \<and> (fd s \<longrightarrow> fd s')
      \<and> length (index s') \<le> Suc (length (index s)) \<and> mapping s' l = Some i"
  proof (cases rule: Idx_cases)
    case (miss s2)
    note a = appendFile_sel [OF miss(9)]
    show ?thesis by (simp add: a miss)
  qed simp
  then show "filename s' = filename s" "readonly s' = readonly s"
    "can_write d' = can_write d" "can_read d' = can_read d" "fd s \<Longrightarrow> fd s'"
    "room s \<le> Suc (room s')" "mapping s' l = Some i"
    by (auto simp: room_def)
  from * show "can_append (d, s) \<Longrightarrow> can_append (d', s')"
    by (auto simp: can_append_def)
qed

lemma Idx_returns:
  assumes "can_append (d, s)"
  shows "\<exists>t i. Idx (d, s) l = Inr (t, i)"
  using assms by (cases "mapping s l") (auto simp: can_append_def Let_def Idx.simps appendFile.simps)

interpretation strtab: string_table
  "\<lambda>t. Get (snd t)" Idx table_inv "\<lambda>t. room (snd t)"
proof
  fix t l
  assume "table_inv t" "0 < room (snd t)"
  then show "\<exists>t' i. Idx t l = Inr (t', i)"
    using Idx_returns [of "fst t" "snd t" l] by (auto simp: table_inv_def)
next
  fix t l t' i j m
  assume *: "table_inv t" "0 < room (snd t)" "Idx t l = Inr (t', i)"
  obtain d s d' s' where [simp]: "t = (d, s)" "t' = (d', s')"
    by (cases t; cases t') auto
  from * have i: "idx_inv s" "0 < room s" "Idx (d, s) l = Inr ((d', s'), i)" "can_append (d, s)"
    by (simp_all add: table_inv_def)
  show "table_inv t'"
    using Idx_Inr_inv [OF i(1-3)] Idx_Inr_sel(7) [OF i(3,4)] by (simp add: table_inv_def)
  show "Get (snd t') i = Inr l"
    using Idx_Inr_get [OF i(1-3)] by simp
  show "Get (snd t) j = Inr m \<Longrightarrow> Get (snd t') j = Inr m"
    using Idx_Inr_keeps [OF i(3)] by simp
next
  fix t l t' i
  assume "Idx t l = Inr (t', i)"
  then show "room (snd t) \<le> Suc (room (snd t'))"
    using Idx_Inr_sel(6) [of "fst t" "snd t" l "fst t'" "snd t'" i] by simp
qed

section \<open>The file and the table\<close>

text \<open>
  A label survives a round trip through the file when it is one line for the scanner.
\<close>

definition line_safe :: "string \<Rightarrow> bool" where
  "line_safe l \<longleftrightarrow> LF \<notin> set l \<and> (l = [] \<or> last l \<noteq> CR) \<and> length l < max_token"

definition content :: "disk \<Rightarrow> string \<Rightarrow> bytes" where
  "content d f = (case files d f of None \<Rightarrow> [] | Some c \<Rightarrow> c)"

definition on_disk :: "table \<Rightarrow> bool" where
  "on_disk t = (case t of (d, s) \<Rightarrow>
     filename s \<noteq> '''' \<and> can_read d (filename s) \<and>
     index s = '''' # tl (index s) \<and> (\<forall>l \<in> set (tl (index s)). line_safe l) \<and>
     content d (filename s) = unlines (tl (index s)))"

lemma line_safe_lines:
  assumes "\<forall>l \<in> set ls. line_safe l"
  shows "raw_lines (unlines ls) = ls" "map drop_cr ls = ls" "\<forall>l \<in> set ls. length l < max_token"
proof -
  show "raw_lines (unlines ls) = ls"
    using assms by (intro raw_lines_unlines) (auto simp: line_safe_def)
  show "map drop_cr ls = ls"
    using assms by (intro map_idI) (auto simp: line_safe_def drop_cr_id)
  show "\<forall>l \<in> set ls. length l < max_token"
    using assms by (auto simp: line_safe_def)
qed

lemma load_unlines:
  assumes "files d f = Some (unlines ls)" "f \<noteq> ''''" "can_read d f" "\<forall>l \<in> set ls. line_safe l"
  shows "NewStringIndex d f ro = Inr (foldl load_line (fresh_index f ro) ls)"
  using assms line_safe_lines [OF assms(4)]
  by (force simp: NewStringIndex_def Load_def fresh_index_def not_le [symmetric])

lemma on_disk_reload:
  assumes "on_disk (d, s)"
  shows "\<exists>r. NewStringIndex d (filename s) ro = Inr r \<and> index r = index s"
proof (cases "files d (filename s)")
  case None
  with assms have "tl (index s) = []"
    by (cases "tl (index s)") (auto simp: on_disk_def content_def)
  with assms None show ?thesis
    by (auto simp: on_disk_def NewStringIndex_def fresh_index_def)
next
  case (Some c)
  with assms have "files d (filename s) = Some (unlines (tl (index s)))"
    by (simp add: on_disk_def content_def)
  from load_unlines [OF this, of ro] assms show ?thesis
    by (auto simp: on_disk_def fresh_index_def)
qed

lemma on_disk_Idx:
  assumes "on_disk (d, s)" "line_safe l" "Idx (d, s) l = Inr ((d', s'), i)"
  shows "on_disk (d', s')"
  using assms(3)
proof (cases rule: Idx_cases)
  case (miss s2)
  note sel = appendFile_sel [OF miss(9)]
  have "index s = '''' # tl (index s)" using assms(1) by (simp add: on_disk_def)
  then have "tl (index s') = tl (index s) @ [l]" "index s' = '''' # tl (index s')"
    using sel(1) miss(4) by (metis append_Cons list.sel(3))+
  with assms(1,2) sel miss show ?thesis
    by (auto simp: on_disk_def content_def)
qed (use assms in simp)

lemma on_disk_intern_all:
  assumes "on_disk t" "\<forall>l \<in> set ls. line_safe l" "intern_all Idx t ls = Inr (t', is)"
  shows "on_disk t'"
  using assms
proof (induction ls arbitrary: t "is")
  case (Cons l ls)
  then obtain t1 i js where "Idx t l = Inr (t1, i)" "intern_all Idx t1 ls = Inr (t', js)"
    by (auto simp: go_convs)
  moreover have "on_disk t1"
    using on_disk_Idx [of "fst t" "snd t" l "fst t1" "snd t1" i] Cons.prems calculation by simp
  ultimately show ?case using Cons.IH [of t1 js] Cons.prems(2) by simp
qed simp

lemma intern_all_filename:
  "intern_all Idx t ls = Inr (t', is) \<Longrightarrow> filename (snd t') = filename (snd t)"
proof (induction ls arbitrary: t "is")
  case (Cons l ls)
  then obtain t1 i js where t1: "Idx t l = Inr (t1, i)" "intern_all Idx t1 ls = Inr (t', js)"
    by (auto simp: go_convs)
  moreover have "filename (snd t1) = filename (snd t)"
    using Idx_Inr_sel(1) [of "fst t" "snd t" l "fst t1" "snd t1" i] t1 by simp
  ultimately show ?case using Cons.IH [of t1 js] by simp
qed simp

text \<open>The effect of numbering a new label, on the table and on the file.\<close>

lemma Idx_miss:
  assumes "Idx (d, s) l = Inr ((d', s'), i)" "mapping s l = None" "filename s \<noteq> ''''"
  shows "i = of_nat (length (index s))" "index s' = index s @ [l]"
    "mapping s' = (mapping s)(l \<mapsto> i)"
    "files d' (filename s) = Some (content d (filename s) @ l @ [LF])"
    "can_read d' = can_read d" "filename s' = filename s"
proof -
  from assms(1) have "i = of_nat (length (index s)) \<and> index s' = index s @ [l]
    \<and> mapping s' = (mapping s)(l \<mapsto> i)
    \<and> files d' (filename s) = Some (content d (filename s) @ l @ [LF])
    \<and> can_read d' = can_read d \<and> filename s' = filename s"
  proof (cases rule: Idx_cases)
    case (miss s2)
    then show ?thesis
      using appendFile_sel [OF miss(9)] assms(3) by (simp add: content_def)
  qed (use assms in simp)
  then show "i = of_nat (length (index s))" "index s' = index s @ [l]"
    "mapping s' = (mapping s)(l \<mapsto> i)"
    "files d' (filename s) = Some (content d (filename s) @ l @ [LF])"
    "can_read d' = can_read d" "filename s' = filename s"
    by simp_all
qed

section \<open>Properties\<close>

text \<open>C15: A number returned by \<open>Idx\<close> stands for its label: \<open>Get\<close> gives the label back, every
  number handed out before still stands for the same string, and asking for the same label
  again returns the same number and changes neither the table nor the file.\<close>

theorem idx_resolves:
  assumes "idx_inv s" "length (index s) < 65536" "Idx (d, s) l = Inr ((d', s'), i)"
  shows "idx_inv s' \<and> Get s' i = Inr l \<and> (\<forall>j m. Get s j = Inr m \<longrightarrow> Get s' j = Inr m)
         \<and> Idx (d', s') l = Inr ((d', s'), i)"
proof -
  have "0 < room s" using assms(2) by (simp add: room_def u16_values_def)
  note r = assms(1) this assms(3)
  show ?thesis
    using Idx_Inr_inv [OF r] Idx_Inr_get [OF r] Idx_Inr_keeps [OF assms(3)]
      Idx_Inr_sel(8) [OF assms(3)] by (simp add: Idx.simps)
qed

definition no_disk :: disk where
  "no_disk = \<lparr>files = (\<lambda>_. None), can_read = (\<lambda>_. True), can_write = (\<lambda>_. True)\<rparr>"

theorem idx_resolves_witness:
  "\<exists>d' s'. Idx (no_disk, fresh_index ''o.istr'' False) ''/a'' = Inr ((d', s'), 1)
     \<and> Get s' 1 = Inr ''/a''"
proof -
  let ?s = "fresh_index ''o.istr'' False"
  have "\<exists>d' s'. Idx (no_disk, ?s) ''/a'' = Inr ((d', s'), 1)"
    by (simp add: fresh_index_def no_disk_def Let_def Idx.simps appendFile.simps)
  then obtain d' s' where *: "Idx (no_disk, ?s) ''/a'' = Inr ((d', s'), 1)" by blast
  have "length (index ?s) < 65536" by (simp add: fresh_index_def)
  from idx_resolves [OF idx_inv_fresh this *] * show ?thesis by blast
qed

text \<open>C16: The strings file is a faithful record of the table.  Starting from a missing or empty
  file, number any list of at most 65535 labels that are single lines; then all of the calls
  return, and a reader that loads the file afterwards resolves every returned number to its
  label.\<close>

theorem strings_file_roundtrip:
  assumes "f \<noteq> ''''" "files d f = None" "can_read d f" "can_write d f"
    and "length ls \<le> 65535" "\<forall>l \<in> set ls. line_safe l"
  shows "\<exists>s d' s' is r. NewStringIndex d f False = Inr s
           \<and> intern_all Idx (d, s) ls = Inr ((d', s'), is)
           \<and> NewStringIndex d' f True = Inr r
           \<and> list_all2 (\<lambda>i l. Get r i = Inr l) is ls"
proof -
  let ?s = "fresh_index f False"
  have new: "NewStringIndex d f False = Inr ?s"
    using assms(2) by (simp add: NewStringIndex_def)
  have t: "table_inv (d, ?s)"
    using assms(4) by (simp add: table_inv_def can_append_def fresh_index_def [of f False])
      (simp add: fresh_index_def idx_inv_def u16_values_def)
  have "length ls \<le> room (snd (d, ?s))"
    using assms(5) by (simp add: room_def fresh_index_def u16_values_def)
  from strtab.intern_all_ok [OF t this] obtain d' s' "is" where
    all: "intern_all Idx (d, ?s) ls = Inr ((d', s'), is)"
    and get: "list_all2 (\<lambda>i l. Get s' i = Inr l) is ls"
    by (auto simp: split_paired_Ex)
  have "on_disk (d, ?s)"
    using assms(1-3) by (simp add: on_disk_def content_def fresh_index_def)
  from on_disk_intern_all [OF this assms(6) all] have "on_disk (d', s')" .
  moreover have "filename s' = f"
    using intern_all_filename [OF all] by (simp add: fresh_index_def)
  ultimately obtain r where r: "NewStringIndex d' f True = Inr r" "index r = index s'"
    using on_disk_reload [of d' s' True] by auto
  have "list_all2 (\<lambda>i l. Get r i = Inr l) is ls"
    using get by (simp add: Get_Inr r(2))
  with new all r(1) show ?thesis by blast
qed

theorem strings_file_roundtrip_witness:
  "\<exists>s d' s' is r. NewStringIndex no_disk ''o.istr'' False = Inr s
     \<and> intern_all Idx (no_disk, s) [''/a'', ''/b'', ''/a''] = Inr ((d', s'), is)
     \<and> NewStringIndex d' ''o.istr'' True = Inr r
     \<and> list_all2 (\<lambda>i l. Get r i = Inr l) is [''/a'', ''/b'', ''/a'']"
  by (rule strings_file_roundtrip) (simp_all add: no_disk_def line_safe_def max_token_def)

text \<open>When \<open>Idx\<close> panics and when \<open>Get\<close> does: \<open>Idx\<close> exactly for an unknown label of a
  read-only table, or of one whose file can't be opened for appending; \<open>Get\<close> exactly for a
  number past the end of the table.\<close>

theorem idx_get_errors:
  "((\<exists>p. Idx (d, s) l = Inl p) \<longleftrightarrow> mapping s l = None
      \<and> (readonly s \<or> filename s \<noteq> '''' \<and> \<not> fd s \<and> \<not> can_write d (filename s)))
   \<and> ((\<exists>p. Get s i = Inl p) \<longleftrightarrow> length (index s) \<le> unat i)"
  by (auto simp: Let_def Get_def Idx.simps appendFile.simps split: option.splits)

text \<open>The 65537th entry does not fit a \<open>uint16\<close>: in a table of 65536 entries, \<open>Idx\<close> gives a
  new label the number 0, the number reserved for "no string", and \<open>Get\<close> does not give the
  label back but the table's first entry.\<close>

theorem idx_wraps_when_full:
  assumes "length (index s) = 65536" "mapping s l = None" "can_append (d, s)"
  shows "\<exists>t. Idx (d, s) l = Inr (t, 0) \<and> Get (snd t) 0 = Inr (index s ! 0)"
proof -
  from Idx_returns [OF assms(3), of l] obtain d' s' i where
    idx: "Idx (d, s) l = Inr ((d', s'), i)" by (auto simp: split_paired_Ex)
  then show ?thesis
  proof (cases rule: Idx_cases)
    case (miss s2)
    have "(of_nat 65536 :: u16) = 0" by simp
    with miss(3) assms(1) have "i = 0" by simp
    moreover have "Get s' 0 = Inr (index s ! 0)"
      using appendFile_sel(1) [OF miss(9)] miss(4) assms(1) by (simp add: Get_Inr)
    ultimately show ?thesis using idx by auto
  qed (use assms in simp)
qed

theorem idx_wraps_when_full_witness:
  "\<exists>t. Idx (no_disk, (fresh_index '''' False)\<lparr>index := replicate 65536 ''x''\<rparr>) ''/lost'' = Inr (t, 0)
     \<and> Get (snd t) 0 = Inr (replicate 65536 ''x'' ! 0)"
  using idx_wraps_when_full [of "(fresh_index '''' False)\<lparr>index := replicate 65536 ''x''\<rparr>" "''/lost''" no_disk]
  by (simp add: fresh_index_def can_append_def)

text \<open>A strings file whose last line lacks its line feed is corrupted by the first new label:
  the label is glued to that line, so that the number \<open>Idx\<close> returned is past the end of
  the table a reader loads from the file.\<close>

theorem unterminated_file_glues:
  assumes "f \<noteq> ''''" "can_read d f" "files d f = Some (unlines ls @ part)" "part \<noteq> []"
    and "\<forall>l \<in> set ls. line_safe l" "line_safe part" "line_safe (part @ l)"
    and "length ls + 2 < 65536"
    and "NewStringIndex d f False = Inr s" "mapping s l = None"
    and "Idx (d, s) l = Inr ((d', s'), i)"
  shows "\<exists>r. NewStringIndex d' f True = Inr r \<and> index r = '''' # ls @ [part @ l]
           \<and> (\<exists>p. Get r i = Inl p)"
proof -
  have part: "LF \<notin> set part" "length part < max_token" "drop_cr part = part"
    using assms(6) by (auto simp: line_safe_def drop_cr_id)
  have "raw_lines (unlines ls @ part) = ls @ [part]"
  proof -
    have "LF \<notin> set part \<Longrightarrow> part \<noteq> [] \<Longrightarrow> raw_lines part = [part]"
      by (rule raw_lines_last)
    moreover have "raw_lines (unlines ls @ part) = ls @ raw_lines part"
      using assms(5) by (induction ls) (auto simp: raw_lines_line line_safe_def)
    ultimately show ?thesis using part assms(4) by simp
  qed
  then have "s = foldl load_line (fresh_index f False) (ls @ [part])"
    using assms(1-3,5,9) part line_safe_lines [OF assms(5)]
    by (force simp: NewStringIndex_def Load_def fresh_index_def map_idI split: if_splits)
  then have s: "index s = '''' # ls @ [part]" "filename s = f"
    by (simp_all add: fresh_index_def)
  from s assms(1) have "filename s \<noteq> ''''" by simp
  note miss = Idx_miss [OF assms(11,10) this]
  have "files d' f = Some (unlines (ls @ [part @ l]))"
    using miss(4) s assms(1,3) by (simp add: content_def)
  moreover have "\<forall>k \<in> set (ls @ [part @ l]). line_safe k"
    using assms(5,7) by auto
  moreover have "can_read d' f"
    using miss(5) assms(2) by simp
  ultimately have "NewStringIndex d' f True
      = Inr (foldl load_line (fresh_index f True) (ls @ [part @ l]))"
    using assms(1) by (intro load_unlines) auto
  moreover have "unat i = length ls + 2"
    using miss(1) s assms(8) unat_of_nat_u16 [of "length ls + 2"] by (simp add: u16_values_def)
  ultimately show ?thesis
    by (auto simp: fresh_index_def Get_def)
qed

theorem unterminated_file_glues_witness:
  "\<exists>d' s' i r. Idx (no_disk\<lparr>files := [''i'' \<mapsto> ''/a'']\<rparr>,
        foldl load_line (fresh_index ''i'' False) [''/a'']) ''/b'' = Inr ((d', s'), i)
     \<and> NewStringIndex d' ''i'' True = Inr r \<and> index r = ['''', ''/a/b''] \<and> (\<exists>p. Get r i = Inl p)"
proof -
  let ?d = "no_disk\<lparr>files := [''i'' \<mapsto> ''/a'']\<rparr>"
  let ?s = "foldl load_line (fresh_index ''i'' False) [''/a'']"
  have new: "NewStringIndex ?d ''i'' False = Inr ?s"
    by (simp add: NewStringIndex_def Load_def no_disk_def fresh_index_def drop_cr_def max_token_def)
  have known: "mapping ?s ''/b'' = None" by (simp add: fresh_index_def)
  have "\<exists>d' s' i. Idx (?d, ?s) ''/b'' = Inr ((d', s'), i)"
    by (simp add: fresh_index_def no_disk_def Let_def Idx.simps appendFile.simps)
  then obtain d' s' i where idx: "Idx (?d, ?s) ''/b'' = Inr ((d', s'), i)" by blast
  have "\<exists>r. NewStringIndex d' ''i'' True = Inr r \<and> index r = '''' # [] @ [''/a'' @ ''/b'']
      \<and> (\<exists>p. Get r i = Inl p)"
    using new known idx
    by (rule unterminated_file_glues [rotated 8])
      (simp_all add: no_disk_def line_safe_def max_token_def)
  with idx show ?thesis by auto
qed

text \<open>A label that spans two lines shifts the strings file against the numbers: a reader of
  the file resolves the label's number to its first line, and the number of the label that
  comes next to the second line of the first.\<close>

theorem multiline_label_shifts_file:
  assumes "on_disk (d, s)" "line_safe a" "line_safe b" "line_safe m" "length (index s) + 3 < 65536"
    and "mapping s (a @ LF # b) = None" "mapping s m = None" "m \<noteq> a @ LF # b"
    and "intern_all Idx (d, s) [a @ LF # b, m] = Inr ((d', s'), [i, j])"
  shows "Get s' i = Inr (a @ LF # b) \<and> Get s' j = Inr m
    \<and> (\<exists>r. NewStringIndex d' (filename s) True = Inr r \<and> Get r i = Inr a \<and> Get r j = Inr b)"
proof -
  let ?l = "a @ LF # b"
  from assms(9) obtain d1 s1 where step: "Idx (d, s) ?l = Inr ((d1, s1), i)"
    "Idx (d1, s1) m = Inr ((d', s'), j)"
    by (auto simp: go_convs split_paired_Ex)
  from assms(1) have f: "filename s \<noteq> ''''" by (simp add: on_disk_def)
  note m1 = Idx_miss [OF step(1) assms(6) f]
  have "mapping s1 m = None" "filename s1 \<noteq> ''''"
    using m1 assms(7,8) f by auto
  note m2 = Idx_miss [OF step(2) this]
  let ?ls = "tl (index s) @ [a, b, m]"
  have "content d (filename s) = unlines (tl (index s))" "can_read d (filename s)"
    using assms(1) by (simp_all add: on_disk_def)
  then have "files d' (filename s) = Some (unlines ?ls)" "can_read d' (filename s)"
    using m1 m2 by (simp_all add: content_def)
  moreover have "\<forall>k \<in> set ?ls. line_safe k"
    using assms(1-4) by (auto simp: on_disk_def)
  ultimately have new: "NewStringIndex d' (filename s) True
      = Inr (foldl load_line (fresh_index (filename s) True) ?ls)"
    using f by (intro load_unlines) auto

  have "unat i = length (index s)"
    unfolding m1(1) using assms(5) by (subst unat_of_nat_u16) (simp_all add: u16_values_def)
  moreover have "unat j = Suc (length (index s))"
    unfolding m2(1) m1(2) using assms(5)
    by (subst unat_of_nat_u16) (simp_all add: u16_values_def)
  moreover have "index s' = index s @ [?l, m]"
    using m1(2) m2(2) by simp
  moreover have "index (foldl load_line (fresh_index (filename s) True) ?ls) = index s @ [a, b, m]"
    using assms(1) by (cases "index s") (auto simp: on_disk_def fresh_index_def)
  ultimately show ?thesis
    using new by (simp add: Get_def nth_append)
qed

theorem multiline_label_shifts_file_witness:
  "\<exists>d' s' i j r. intern_all Idx (no_disk, fresh_index ''o'' False) [''x'' @ LF # ''y'', ''z'']
       = Inr ((d', s'), [i, j])
     \<and> Get s' j = Inr ''z'' \<and> NewStringIndex d' ''o'' True = Inr r \<and> Get r j = Inr ''y''"
proof -
  let ?s = "fresh_index ''o'' False"
  have "\<exists>d' s' i j. intern_all Idx (no_disk, ?s) [''x'' @ LF # ''y'', ''z''] = Inr ((d', s'), [i, j])"
    by (simp add: fresh_index_def no_disk_def Let_def Idx.simps appendFile.simps)
  then obtain d' s' i j where
    run: "intern_all Idx (no_disk, ?s) [''x'' @ LF # ''y'', ''z''] = Inr ((d', s'), [i, j])"
    by blast
  have "on_disk (no_disk, ?s)"
    by (simp add: on_disk_def no_disk_def fresh_index_def content_def)
  from multiline_label_shifts_file [OF this _ _ _ _ _ _ _ run]
  have "Get s' j = Inr ''z'' \<and> (\<exists>r. NewStringIndex d' ''o'' True = Inr r \<and> Get r j = Inr ''y'')"
    by (auto simp: line_safe_def max_token_def fresh_index_def)
  with run show ?thesis by blast
qed

end
