(* ===== verification/Payload_Item.thy ===== *)
theory Payload_Item
  imports Regexps Str_Index
begin

text \<open>
  The payload item of \<open>pkg/core/input.go\<close>: its strings, given inline or by number, the
  replacement of \<open>${name}\<close> placeholders by values, and the decoding of the extractors and
  assertions that the strings file holds as text.
\<close>

section \<open>Data\<close>

text \<open>
  Pointers that may be nil are options: the expression of an extractor, the strings index.  A nil
  pointer to an extractor or an assertion is one without an expression, which it cannot be told
  from: both panic when they are used.  A nil map reads as an empty one and cannot be assigned to.
\<close>

record ExtractRegex =
  Re :: "regexp option"
  GroupNo :: nat
  MatchNo :: int

record AssertItem =
  AssertRe :: "regexp option"
  Invert :: bool

record PayloadItem =
  LabelIdx :: u16
  Label :: string
  AddressIdx :: u16
  Address :: string
  PayloadLen :: int
  Payload :: bytes
  ReplacesIdx :: "u16 list"
  Replaces :: "string list"
  RegexOutIdx :: "u16 list"
  RegexOut :: "string \<Rightarrow> ExtractRegex option"
  RegexOutNil :: bool
  AssertsIdx :: "u16 list"
  Asserts :: "AssertItem list"
  itemIndex :: "StrIndex option"

text \<open>The item a record is decoded into.\<close>

definition new_item :: "StrIndex option \<Rightarrow> PayloadItem" where
  "new_item si = \<lparr>LabelIdx = 0, Label = '''', AddressIdx = 0, Address = '''', PayloadLen = 0, Payload = [],
     ReplacesIdx = [], Replaces = [], RegexOutIdx = [], RegexOut = Map.empty, RegexOutNil = False, AssertsIdx = [], Asserts = [],
     itemIndex = si\<rparr>"

type_synonym ValMap = "string \<Rightarrow> bytes option"

text \<open>\<open>i.StrIndex.Get(idx)\<close> on a pointer.\<close>

definition get_string :: "StrIndex option \<Rightarrow> u16 \<Rightarrow> string go" where
  "get_string p idx = (case p of None \<Rightarrow> Inl NilDeref | Some s \<Rightarrow> Get s idx)"

section \<open>Strings and values\<close>

definition ResolveStrings :: "PayloadItem \<Rightarrow> PayloadItem go" where
  "ResolveStrings i =
     go_bind
       (if Address i = '''' \<and> 0 < AddressIdx i
        then go_bind (get_string (itemIndex i) (AddressIdx i)) (\<lambda>s. Inr (i\<lparr>Address := s, AddressIdx := 0\<rparr>))
        else Inr i) (\<lambda>i.
     if Label i = '''' \<and> 0 < LabelIdx i
     then go_bind (get_string (itemIndex i) (LabelIdx i)) (\<lambda>s. Inr (i\<lparr>Label := s, LabelIdx := 0\<rparr>))
     else Inr i)"

text \<open>
  The package keeps every compiled expression in one map, \<open>regexCache\<close>: under the name of the
  placeholder in \<open>ReplaceValues\<close>, under the text of the expression in the decoders.
\<close>

type_synonym cache = "string \<Rightarrow> regexp option"

record regexp_pkg =
  compile :: engine
  wide :: "bytes \<Rightarrow> nat"

definition placeholder :: "string \<Rightarrow> bytes" where
  "placeholder name = ''${'' @ name @ ''}''"

definition placeholder_re :: "string \<Rightarrow> string" where
  "placeholder_re name = ''(?m:'' @ [CHR 0x5C] @ ''$'' @ [CHR 0x5C] @ ''{'' @ name @ ''})''"

definition value_of :: "ValMap \<Rightarrow> string \<Rightarrow> bytes" where
  "value_of vals name = (case vals name of Some v \<Rightarrow> v | None \<Rightarrow> ''NO_VALUE'')"

fun replace_one :: "regexp_pkg \<Rightarrow> ValMap \<Rightarrow> cache \<times> PayloadItem \<Rightarrow> string \<Rightarrow> (cache \<times> PayloadItem) go" where
  "replace_one rx vals (c, i) name =
     go_bind (ResolveStrings i) (\<lambda>i.
       let val = value_of vals name
       in go_bind
         (case c name of
            Some r \<Rightarrow> Inr (c, r)
          | None \<Rightarrow> (case compile rx (placeholder_re name) of
              Some r \<Rightarrow> Inr (c(name \<mapsto> r), r)
            | None \<Rightarrow> Inl (PanicMsg ''regexp: Compile''))) (\<lambda>(c, re).
       Inr (c, i\<lparr>Payload := ReplaceAll (wide rx) re (Payload i) val,
                 Label := ReplaceAll (wide rx) re (Label i) val,
                 Address := ReplaceAll (wide rx) re (Address i) val\<rparr>)))"

definition ReplaceValues ::
  "regexp_pkg \<Rightarrow> ValMap \<Rightarrow> cache \<Rightarrow> PayloadItem \<Rightarrow> (cache \<times> PayloadItem) go" where
  "ReplaceValues rx vals c i = go_fold (replace_one rx vals) (c, i) (Replaces i)"

section \<open>Decoding\<close>

definition decodeReplaces :: "PayloadItem \<Rightarrow> PayloadItem go" where
  "decodeReplaces i =
     go_bind (go_fold (\<lambda>i idx. go_bind (get_string (itemIndex i) idx)
         (\<lambda>s. Inr (i\<lparr>Replaces := Replaces i @ [s]\<rparr>))) i (ReplacesIdx i))
       (\<lambda>i. Inr (i\<lparr>ReplacesIdx := []\<rparr>))"

text \<open>The expression for a text: from the cache, or compiled and kept there.\<close>

definition cached_re :: "regexp_pkg \<Rightarrow> cache \<Rightarrow> string \<Rightarrow> (cache \<times> regexp) option" where
  "cached_re rx c sre =
     (case c sre of
        Some r \<Rightarrow> Some (c, r)
      | None \<Rightarrow> map_option (\<lambda>r. (c(sre \<mapsto> r), r)) (compile rx sre))"

text \<open>
  A decoder panics, or returns an error (Inl, with the cache as it is then), or the item.  An
  error of an earlier element ends the loop.
\<close>

type_synonym decoded = "cache + (cache \<times> PayloadItem)"

definition decode_one ::
  "(string \<Rightarrow> string) \<Rightarrow> (string \<Rightarrow> regexp \<Rightarrow> PayloadItem \<Rightarrow> PayloadItem go)
   \<Rightarrow> regexp_pkg \<Rightarrow> decoded \<Rightarrow> u16 \<Rightarrow> decoded go" where
  "decode_one pattern add rx d idx =
     (case d of
        Inl c \<Rightarrow> Inr (Inl c)
      | Inr (c, i) \<Rightarrow>
          go_bind (get_string (itemIndex i) idx) (\<lambda>s.
            case cached_re rx c (pattern s) of
              None \<Rightarrow> Inr (Inl c)
            | Some (c', re) \<Rightarrow> go_bind (add s re i) (\<lambda>i. Inr (Inr (c', i)))))"

definition assert_pattern :: "string \<Rightarrow> string" where
  "assert_pattern s = (case cut (CHR '' '') s of (flag, sre, _) \<Rightarrow> sre)"

definition add_assert :: "string \<Rightarrow> regexp \<Rightarrow> PayloadItem \<Rightarrow> PayloadItem" where
  "add_assert s re i =
     (case cut (CHR '' '') s of (flag, sre, _) \<Rightarrow>
        i\<lparr>Asserts := Asserts i @ [\<lparr>AssertRe = Some re, Invert = flag \<noteq> ''0''\<rparr>]\<rparr>)"

definition decodeAsserts :: "regexp_pkg \<Rightarrow> cache \<times> PayloadItem \<Rightarrow> decoded go" where
  "decodeAsserts rx = (\<lambda>(c, i).
     go_bind (go_fold (decode_one assert_pattern (\<lambda>s re i. Inr (add_assert s re i)) rx) (Inr (c, i)) (AssertsIdx i))
       (\<lambda>d. Inr (map_sum id (map_prod id (\<lambda>i. i\<lparr>AssertsIdx := []\<rparr>)) d)))"

definition extract_parts :: "string \<Rightarrow> string \<times> string \<times> string \<times> string" where
  "extract_parts s =
     (case cut (CHR '' '') s of (name, s, _) \<Rightarrow>
      case cut (CHR '' '') s of (match, s, _) \<Rightarrow>
      case cut (CHR '' '') s of (grp, sre, _) \<Rightarrow> (name, match, grp, sre))"

definition extract_pattern :: "string \<Rightarrow> string" where
  "extract_pattern s = (case extract_parts s of (_, _, _, sre) \<Rightarrow> sre)"

text \<open>The group number is an \<open>uint\<close>: a negative one wraps around.\<close>

definition add_extract :: "string \<Rightarrow> regexp \<Rightarrow> PayloadItem \<Rightarrow> PayloadItem" where
  "add_extract s re i =
     (case extract_parts s of (name, match, grp, sre) \<Rightarrow>
        i\<lparr>RegexOut := (RegexOut i)(name \<mapsto>
            \<lparr>Re = Some re, GroupNo = nat (fst (Atoi grp) mod 2 ^ 64), MatchNo = fst (Atoi match)\<rparr>)\<rparr>)"

text \<open>The assignment to the map.\<close>

definition put_extract :: "string \<Rightarrow> regexp \<Rightarrow> PayloadItem \<Rightarrow> PayloadItem go" where
  "put_extract s re i =
     (if RegexOutNil i then Inl (PanicMsg ''assignment to entry in nil map'') else Inr (add_extract s re i))"

definition decodeExtracts :: "regexp_pkg \<Rightarrow> cache \<times> PayloadItem \<Rightarrow> decoded go" where
  "decodeExtracts rx = (\<lambda>(c, i).
     go_bind (go_fold (decode_one extract_pattern put_extract rx) (Inr (c, i)) (RegexOutIdx i))
       (\<lambda>d. Inr (map_sum id (map_prod id (\<lambda>i. i\<lparr>RegexOutIdx := []\<rparr>)) d)))"

section \<open>Replacing by plain values\<close>

text \<open>
  What is relied on of the engine: a placeholder's expression matches the placeholder, and the
  cache holds nothing else under its name.
\<close>

definition literal_engine :: "regexp_pkg \<Rightarrow> string \<Rightarrow> bool" where
  "literal_engine rx name =
     (compile rx (placeholder_re name) = Some (literal (placeholder_re name) (placeholder name)))"

definition cache_fits :: "cache \<Rightarrow> string \<Rightarrow> bool" where
  "cache_fits c name =
     (c name = None \<or> c name = Some (literal (placeholder_re name) (placeholder name)))"

lemma ResolveStrings_done:
  "LabelIdx i = 0 \<Longrightarrow> AddressIdx i = 0 \<Longrightarrow> ResolveStrings i = Inr i"
  by (simp add: ResolveStrings_def)

lemma ResolveStrings_fields:
  assumes "ResolveStrings i = Inr j"
  shows "Payload j = Payload i" "Replaces j = Replaces i" "itemIndex j = itemIndex i"
  using assms by (auto simp: ResolveStrings_def go_convs split: if_splits)

text \<open>The reference: one literal replacement after the other, in all three texts.\<close>

fun replaced :: "ValMap \<Rightarrow> string list \<Rightarrow> bytes \<Rightarrow> bytes" where
  "replaced vals [] s = s"
| "replaced vals (n # ns) s = replaced vals ns (replace_lit (placeholder n) (value_of vals n) s)"

definition plain_name :: "regexp_pkg \<Rightarrow> ValMap \<Rightarrow> cache \<Rightarrow> string \<Rightarrow> bool" where
  "plain_name rx vals c n =
     (literal_engine rx n \<and> cache_fits c n \<and> CHR ''$'' \<notin> set (value_of vals n))"

lemma replace_one_plain:
  assumes "ResolveStrings i = Inr j" "plain_name rx vals c n"
  shows "\<exists>c'. replace_one rx vals (c, i) n
      = Inr (c', j\<lparr>Payload := replace_lit (placeholder n) (value_of vals n) (Payload j),
                   Label := replace_lit (placeholder n) (value_of vals n) (Label j),
                   Address := replace_lit (placeholder n) (value_of vals n) (Address j)\<rparr>)
    \<and> (\<forall>m. cache_fits c m \<longrightarrow> cache_fits c' m)"
proof -
  let ?lit = "literal (placeholder_re n) (placeholder n)"
  have rep: "ReplaceAll (wide rx) ?lit s (value_of vals n) = replace_lit (placeholder n) (value_of vals n) s" for s
    using assms(2) by (simp add: plain_name_def ReplaceAll_literal)
  show ?thesis
  proof (cases "c n")
    case None
    then show ?thesis
      using assms by (auto simp: plain_name_def literal_engine_def cache_fits_def rep Let_def)
  next
    case (Some r)
    then show ?thesis
      using assms by (auto simp: plain_name_def cache_fits_def rep Let_def)
  qed
qed

lemma replace_values_plain:
  assumes "ResolveStrings i = Inr j" "LabelIdx j = 0" "AddressIdx j = 0"
    and "list_all (plain_name rx vals c) ns" "ns \<noteq> []"
  shows "\<exists>c'. go_fold (replace_one rx vals) (c, i) ns
      = Inr (c', j\<lparr>Payload := replaced vals ns (Payload j),
                   Label := replaced vals ns (Label j),
                   Address := replaced vals ns (Address j)\<rparr>)"
  using assms
proof (induction ns arbitrary: c i j)
  case (Cons n ns)
  let ?j = "j\<lparr>Payload := replace_lit (placeholder n) (value_of vals n) (Payload j),
    Label := replace_lit (placeholder n) (value_of vals n) (Label j),
    Address := replace_lit (placeholder n) (value_of vals n) (Address j)\<rparr>"
  obtain c' where c': "replace_one rx vals (c, i) n = Inr (c', ?j)"
      "\<forall>m. cache_fits c m \<longrightarrow> cache_fits c' m"
    using replace_one_plain [OF Cons.prems(1), of rx vals c n] Cons.prems(4) by auto
  show ?case
  proof (cases "ns = []")
    case True
    then show ?thesis by (simp add: c' del: replace_one.simps)
  next
    case False
    have "ResolveStrings ?j = Inr ?j"
      using Cons.prems(2,3) by (intro ResolveStrings_done) simp_all
    moreover have "list_all (plain_name rx vals c') ns"
      using Cons.prems(4) c'(2) by (auto simp: plain_name_def list_all_iff)
    ultimately show ?thesis
      using Cons.IH [of ?j ?j c'] Cons.prems(2,3) False by (simp add: c' del: replace_one.simps)
  qed
qed simp

section \<open>Reading what the generator writes\<close>

text \<open>
  The lines of the strings file for an extractor and an assertion, as \<open>_get_metadata_indexed\<close>
  in \<open>taurus/encarno/__init__.py\<close> prints them.
\<close>

definition extract_line :: "string \<Rightarrow> int \<Rightarrow> int \<Rightarrow> string \<Rightarrow> string" where
  "extract_line name match group_no sre = name @ '' '' @ itoa match @ '' '' @ itoa group_no @ '' '' @ sre"

definition assert_line :: "bool \<Rightarrow> string \<Rightarrow> string" where
  "assert_line invert sre = (if invert then ''1'' else ''0'') @ '' '' @ sre"

lemma extract_parts_line:
  "CHR '' '' \<notin> set name \<Longrightarrow> extract_parts (extract_line name m g sre) = (name, itoa m, itoa g, sre)"
  by (simp add: extract_parts_def extract_line_def itoa_free)

lemma assert_parts_line:
  "cut (CHR '' '') (assert_line invert sre) = (if invert then ''1'' else ''0'', sre, True)"
  by (auto simp: assert_line_def cut_found [of "CHR '' ''" "[x]" for x, simplified])

text \<open>A cache that only knows expressions under their own text.\<close>

definition cache_sound :: "regexp_pkg \<Rightarrow> cache \<Rightarrow> bool" where
  "cache_sound rx c = (\<forall>p r. c p = Some r \<longrightarrow> compile rx p = Some r)"

lemma cached_re_sound:
  assumes "cache_sound rx c" "compile rx sre = Some re"
  shows "\<exists>c'. cached_re rx c sre = Some (c', re) \<and> cache_sound rx c'"
proof (cases "c sre")
  case None
  then show ?thesis using assms by (auto simp: cached_re_def cache_sound_def)
next
  case (Some r)
  then show ?thesis using assms by (auto simp: cached_re_def cache_sound_def)
qed

lemma decode_fold:
  assumes "list_all2 (\<lambda>idx s. get_string si idx = Inr s \<and> compile rx (pattern s) \<noteq> None) idxs lines"
    and "cache_sound rx c" "itemIndex i = si" "ok i"
    and "\<And>s re i. ok i \<Longrightarrow> put s re i = Inr (add s re i) \<and> ok (add s re i) \<and> itemIndex (add s re i) = itemIndex i"
  shows "\<exists>c'. cache_sound rx c' \<and> go_fold (decode_one pattern put rx) (Inr (c, i)) idxs
    = Inr (Inr (c', foldl (\<lambda>i s. add s (the (compile rx (pattern s))) i) i lines))"
  using assms(1-4)
proof (induction arbitrary: c i rule: list_all2_induct)
  case (Cons idx idxs s lines)
  then obtain re where re: "compile rx (pattern s) = Some re" by auto
  from cached_re_sound [OF Cons.prems(1) re] obtain c' where
    c': "cached_re rx c (pattern s) = Some (c', re)" "cache_sound rx c'" by auto
  from assms(5) [OF Cons.prems(3)] Cons.prems(2) have
    put: "put s re i = Inr (add s re i)" "itemIndex (add s re i) = si" "ok (add s re i)" by auto
  from Cons.IH [OF c'(2) put(2,3)] show ?case
    using Cons.hyps(1) Cons.prems(2) by (simp add: decode_one_def c' re put(1))
qed simp

definition spec_extract :: "regexp_pkg \<Rightarrow> string \<times> int \<times> int \<times> string \<Rightarrow> ExtractRegex" where
  "spec_extract rx = (\<lambda>(name, m, g, sre). \<lparr>Re = compile rx sre, GroupNo = nat g, MatchNo = m\<rparr>)"

definition spec_assert :: "regexp_pkg \<Rightarrow> bool \<times> string \<Rightarrow> AssertItem" where
  "spec_assert rx = (\<lambda>(invert, sre). \<lparr>AssertRe = compile rx sre, Invert = invert\<rparr>)"

lemma foldl_add_extract:
  assumes "list_all (\<lambda>(name, m, g, sre). CHR '' '' \<notin> set name \<and> fits64 m \<and> 0 \<le> g \<and> g < 2 ^ 63
      \<and> compile rx sre \<noteq> None) specs"
  shows "foldl (\<lambda>i s. add_extract s (the (compile rx (extract_pattern s))) i) i
      (map (\<lambda>(name, m, g, sre). extract_line name m g sre) specs)
    = i\<lparr>RegexOut := foldl (\<lambda>f sp. f(fst sp \<mapsto> spec_extract rx sp)) (RegexOut i) specs\<rparr>"
  using assms
proof (induction specs arbitrary: i)
  case (Cons sp specs)
  obtain name m g sre where sp: "sp = (name, m, g, sre)" by (cases sp)
  with Cons.prems have "CHR '' '' \<notin> set name" "fits64 m" "0 \<le> g" "g < 2 ^ 63" "compile rx sre \<noteq> None"
    by auto
  moreover from this have "fits64 g" "nat (g mod 2 ^ 64) = nat g"
    by (simp_all add: fits64_def)
  ultimately have "add_extract (extract_line name m g sre) (the (compile rx sre)) i
      = i\<lparr>RegexOut := (RegexOut i)(name \<mapsto> spec_extract rx sp)\<rparr>"
    by (auto simp: add_extract_def extract_parts_line Atoi_itoa spec_extract_def sp)
  moreover have "extract_pattern (extract_line name m g sre) = sre"
    using \<open>CHR '' '' \<notin> set name\<close> by (simp add: extract_pattern_def extract_parts_line)
  ultimately show ?case
    using Cons.IH [of "i\<lparr>RegexOut := (RegexOut i)(name \<mapsto> spec_extract rx sp)\<rparr>"] Cons.prems
    by (simp add: sp)
qed simp

lemma foldl_add_assert:
  assumes "list_all (\<lambda>(invert, sre). compile rx sre \<noteq> None) specs"
  shows "foldl (\<lambda>i s. add_assert s (the (compile rx (assert_pattern s))) i) i
      (map (\<lambda>(invert, sre). assert_line invert sre) specs)
    = i\<lparr>Asserts := Asserts i @ map (spec_assert rx) specs\<rparr>"
  using assms
proof (induction specs arbitrary: i)
  case (Cons sp specs)
  obtain v sre where sp: "sp = (v, sre)" by (cases sp)
  have "add_assert (assert_line v sre) (the (compile rx sre)) i
      = i\<lparr>Asserts := Asserts i @ [spec_assert rx sp]\<rparr>"
    using Cons.prems by (auto simp: add_assert_def assert_parts_line spec_assert_def sp)
  moreover have "assert_pattern (assert_line v sre) = sre"
    by (simp add: assert_pattern_def assert_parts_line)
  ultimately show ?case
    using Cons.IH [of "i\<lparr>Asserts := Asserts i @ [spec_assert rx sp]\<rparr>"] Cons.prems
    by (simp add: sp)
qed simp

lemma put_extract_ok:
  "\<not> RegexOutNil i \<Longrightarrow> put_extract s re i = Inr (add_extract s re i)
    \<and> \<not> RegexOutNil (add_extract s re i) \<and> itemIndex (add_extract s re i) = itemIndex i"
  by (auto simp: put_extract_def add_extract_def split: prod.splits)

lemma add_assert_ok:
  "True \<Longrightarrow> Inr (add_assert s re i) = Inr (add_assert s re i) \<and> True \<and> itemIndex (add_assert s re i) = itemIndex i"
  by (auto simp: add_assert_def split: prod.splits)

lemma decode_lines:
  assumes "list_all2 (\<lambda>idx sp. get_string (itemIndex i) idx = Inr (line sp)) idxs specs"
    and "list_all (\<lambda>sp. compile rx (pattern (line sp)) \<noteq> None) specs"
  shows "list_all2 (\<lambda>idx s. get_string (itemIndex i) idx = Inr s \<and> compile rx (pattern s) \<noteq> None)
    idxs (map line specs)"
  using assms by (auto simp: list_all2_conv_all_nth list_all_length)

lemma decode_extract_lines:
  assumes "cache_sound rx c" "\<not> RegexOutNil i"
    and "list_all2 (\<lambda>idx (name, m, g, sre). get_string (itemIndex i) idx = Inr (extract_line name m g sre))
      (RegexOutIdx i) es"
    and "list_all (\<lambda>(name, m, g, sre). CHR '' '' \<notin> set name \<and> fits64 m \<and> 0 \<le> g \<and> g < 2 ^ 63
      \<and> compile rx sre \<noteq> None) es"
  shows "\<exists>c'. cache_sound rx c' \<and> decodeExtracts rx (c, i) = Inr (Inr (c', i\<lparr>RegexOutIdx := [],
        RegexOut := foldl (\<lambda>f sp. f(fst sp \<mapsto> spec_extract rx sp)) (RegexOut i) es\<rparr>))"
proof -
  let ?el = "\<lambda>(name, m, g, sre). extract_line name m g sre"
  have ce: "list_all (\<lambda>sp. compile rx (extract_pattern (?el sp)) \<noteq> None) es"
    using assms(4) by (auto simp: list_all_iff extract_pattern_def extract_parts_line)
  have ge: "list_all2 (\<lambda>idx sp. get_string (itemIndex i) idx = Inr (?el sp)) (RegexOutIdx i) es"
    using assms(3) by (rule list_all2_mono) auto
  obtain c' where "cache_sound rx c'" "go_fold (decode_one extract_pattern put_extract rx) (Inr (c, i)) (RegexOutIdx i)
      = Inr (Inr (c', foldl (\<lambda>i s. add_extract s (the (compile rx (extract_pattern s))) i) i (map ?el es)))"
    using decode_fold [where put = put_extract and add = add_extract,
        OF decode_lines [OF ge ce] assms(1) refl assms(2) put_extract_ok] by auto
  then show ?thesis by (auto simp: decodeExtracts_def foldl_add_extract [OF assms(4)])
qed

lemma decode_assert_lines:
  assumes "cache_sound rx c"
    and "list_all2 (\<lambda>idx (v, sre). get_string (itemIndex i) idx = Inr (assert_line v sre)) (AssertsIdx i) as"
    and "list_all (\<lambda>(v, sre). compile rx sre \<noteq> None) as"
  shows "\<exists>c'. cache_sound rx c' \<and> decodeAsserts rx (c, i) = Inr (Inr (c', i\<lparr>AssertsIdx := [],
        Asserts := Asserts i @ map (spec_assert rx) as\<rparr>))"
proof -
  let ?al = "\<lambda>(v, sre). assert_line v sre"
  have ca: "list_all (\<lambda>sp. compile rx (assert_pattern (?al sp)) \<noteq> None) as"
    using assms(3) by (auto simp: list_all_iff assert_pattern_def assert_parts_line)
  have ga: "list_all2 (\<lambda>idx sp. get_string (itemIndex i) idx = Inr (?al sp)) (AssertsIdx i) as"
    using assms(2) by (rule list_all2_mono) auto
  obtain c' where "cache_sound rx c'"
      "go_fold (decode_one assert_pattern (\<lambda>s re i. Inr (add_assert s re i)) rx) (Inr (c, i)) (AssertsIdx i)
      = Inr (Inr (c', foldl (\<lambda>i s. add_assert s (the (compile rx (assert_pattern s))) i) i (map ?al as)))"
    using decode_fold [where ok = "\<lambda>_. True" and put = "\<lambda>s re i. Inr (add_assert s re i)" and add = add_assert,
        OF decode_lines [OF ga ca] assms(1) refl TrueI add_assert_ok] by auto
  then show ?thesis by (auto simp: decodeAsserts_def foldl_add_assert [OF assms(3)])
qed

lemma decodeReplaces_ok:
  assumes "list_all2 (\<lambda>idx s. get_string (itemIndex i) idx = Inr s) (ReplacesIdx i) ss"
  shows "decodeReplaces i = Inr (i\<lparr>Replaces := Replaces i @ ss, ReplacesIdx := []\<rparr>)"
proof -
  have "go_fold (\<lambda>i idx. go_bind (get_string (itemIndex i) idx) (\<lambda>s. Inr (i\<lparr>Replaces := Replaces i @ [s]\<rparr>))) k idxs
      = Inr (k\<lparr>Replaces := Replaces k @ ss\<rparr>)"
    if "list_all2 (\<lambda>idx s. get_string si idx = Inr s) idxs ss" "itemIndex k = si" for k idxs ss si
    using that by (induction arbitrary: k rule: list_all2_induct) simp_all
  from this [OF assms refl] show ?thesis by (simp add: decodeReplaces_def)
qed

section \<open>Properties\<close>

text \<open>
  An engine for the examples: the expressions of the given placeholders match them, every other
  expression matches its own text.
\<close>

definition literal_pkg :: "string list \<Rightarrow> regexp_pkg" where
  "literal_pkg names =
     \<lparr>compile = (\<lambda>p. case filter (\<lambda>n. placeholder_re n = p) names of
         n # _ \<Rightarrow> Some (literal p (placeholder n)) | [] \<Rightarrow> Some (literal p p)),
      wide = (\<lambda>_. 0)\<rparr>"

lemma placeholder_re_eq: "placeholder_re m = placeholder_re n \<longleftrightarrow> m = n"
  by (simp add: placeholder_re_def)

lemma literal_pkg_engine: "n \<in> set names \<Longrightarrow> literal_engine (literal_pkg names) n"
  by (induction names) (auto simp: literal_engine_def literal_pkg_def placeholder_re_eq)

definition example_strings :: StrIndex where
  "example_strings = (fresh_index ''f'' True)
     \<lparr>index := ['''', ''etag -1 1 ETag'', ''1 Error'', ''0 var'', ''http://h'']\<rparr>"

definition example_item :: PayloadItem where
  "example_item = (new_item (Some example_strings))
     \<lparr>RegexOutIdx := [1], AssertsIdx := [2, 3], AddressIdx := 4,
      Payload := ''${noval} ${var} text ${var2}'', Replaces := [''var'', ''noval'']\<rparr>"

text \<open>
  An item of the input generator comes back as it was meant: its extractor lines
  ``name match group expression'' and its assertion lines ``invert expression'' decode to
  exactly the extractors and assertions they were printed from, in order, with the expressions
  compiled, and the lists of numbers are emptied.
\<close>

theorem decode_generated_lines:
  assumes "cache_sound rx c" "\<not> RegexOutNil i"
    and "list_all2 (\<lambda>idx (name, m, g, sre). get_string (itemIndex i) idx = Inr (extract_line name m g sre))
      (RegexOutIdx i) es"
    and "list_all (\<lambda>(name, m, g, sre). CHR '' '' \<notin> set name \<and> fits64 m \<and> 0 \<le> g \<and> g < 2 ^ 63
      \<and> compile rx sre \<noteq> None) es"
    and "list_all2 (\<lambda>idx (v, sre). get_string (itemIndex i) idx = Inr (assert_line v sre)) (AssertsIdx i) as"
    and "list_all (\<lambda>(v, sre). compile rx sre \<noteq> None) as"
  shows "\<exists>c1 c2. decodeExtracts rx (c, i) = Inr (Inr (c1, i\<lparr>RegexOutIdx := [],
        RegexOut := foldl (\<lambda>f sp. f(fst sp \<mapsto> spec_extract rx sp)) (RegexOut i) es\<rparr>))
    \<and> decodeAsserts rx (c, i) = Inr (Inr (c2, i\<lparr>AssertsIdx := [],
        Asserts := Asserts i @ map (spec_assert rx) as\<rparr>))"
  using decode_extract_lines [OF assms(1-4)] decode_assert_lines [OF assms(1,5,6)] by blast

theorem decode_generated_lines_witness:
  "\<exists>c1 c2. decodeExtracts (literal_pkg []) (Map.empty, example_item) = Inr (Inr (c1, example_item\<lparr>RegexOutIdx := [],
        RegexOut := [''etag'' \<mapsto> \<lparr>Re = Some (literal ''ETag'' ''ETag''), GroupNo = 1, MatchNo = -1\<rparr>]\<rparr>))
    \<and> decodeAsserts (literal_pkg []) (Map.empty, example_item) = Inr (Inr (c2, example_item\<lparr>AssertsIdx := [],
        Asserts := [\<lparr>AssertRe = Some (literal ''Error'' ''Error''), Invert = True\<rparr>,
                    \<lparr>AssertRe = Some (literal ''var'' ''var''), Invert = False\<rparr>]\<rparr>))"
proof -
  have idx: "RegexOutIdx example_item = [1]" "AssertsIdx example_item = [2, 3]"
    "RegexOut example_item = Map.empty" "\<not> RegexOutNil example_item" "Asserts example_item = []"
    by (simp_all add: example_item_def new_item_def)
  have str: "get_string (itemIndex example_item) 1 = Inr (extract_line ''etag'' (-1) 1 ''ETag'')"
    "get_string (itemIndex example_item) 2 = Inr (assert_line True ''Error'')"
    "get_string (itemIndex example_item) 3 = Inr (assert_line False ''var'')"
    by code_simp+
  have rx: "compile (literal_pkg []) p = Some (literal p p)" for p
    by (simp add: literal_pkg_def)
  show ?thesis
    using decode_generated_lines [of "literal_pkg []" Map.empty example_item
        "[(''etag'', -1, 1, ''ETag'')]" "[(True, ''Error''), (False, ''var'')]"]
    by (simp add: cache_sound_def idx str rx fits64_def spec_extract_def spec_assert_def)
qed

text \<open>
  With values that hold no dollar sign, \<open>ReplaceValues\<close> puts the value of each name (or
  ``NO_VALUE'') for every \<open>${name}\<close> in payload, label and address, literally and nowhere else.
\<close>

theorem replace_values_literal:
  assumes "ResolveStrings i = Inr j" "LabelIdx j = 0" "AddressIdx j = 0" "Replaces i \<noteq> []"
    and "list_all (plain_name rx vals c) (Replaces i)"
  shows "\<exists>c'. ReplaceValues rx vals c i
      = Inr (c', j\<lparr>Payload := replaced vals (Replaces i) (Payload i),
                   Label := replaced vals (Replaces i) (Label j),
                   Address := replaced vals (Replaces i) (Address j)\<rparr>)"
  using replace_values_plain [OF assms(1-3,5,4)] ResolveStrings_fields(1) [OF assms(1)]
  by (simp add: ReplaceValues_def)

theorem replace_values_literal_witness:
  "\<exists>c' j. ReplaceValues (literal_pkg [''var'', ''noval'']) [''var'' \<mapsto> ''val'', ''var2'' \<mapsto> ''val2''] Map.empty
      example_item = Inr (c', j)
    \<and> Payload j = ''NO_VALUE val text ${var2}'' \<and> Address j = ''http://h''"
proof -
  let ?vals = "[''var'' \<mapsto> ''val'', ''var2'' \<mapsto> ''val2'']"
  let ?rx = "literal_pkg [''var'', ''noval'']"
  let ?j = "example_item\<lparr>Address := ''http://h'', AddressIdx := 0\<rparr>"
  have res: "ResolveStrings example_item = Inr ?j"
    by (simp add: ResolveStrings_def example_item_def new_item_def get_string_def Get_def example_strings_def)
  have pl: "list_all (plain_name ?rx ?vals Map.empty) (Replaces example_item)"
    using literal_pkg_engine [of _ "[''var'', ''noval'']"]
    by (simp add: example_item_def plain_name_def cache_fits_def value_of_def)
  have idx: "LabelIdx ?j = 0" "AddressIdx ?j = 0" "Replaces example_item = [''var'', ''noval'']"
    "Address ?j = ''http://h''" "Payload example_item = ''${noval} ${var} text ${var2}''"
    by (simp_all add: example_item_def new_item_def)
  have "replaced ?vals [''var'', ''noval''] ''${noval} ${var} text ${var2}'' = ''NO_VALUE val text ${var2}''"
    "replaced ?vals [''var'', ''noval''] ''http://h'' = ''http://h''"
    by code_simp+
  with replace_values_literal [OF res idx(1,2) _ pl] show ?thesis by (auto simp: idx)
qed

text \<open>
  A value that holds a dollar sign is not put in as it is: it is expanded as a template, so
  a dollar sign and the word after it vanish from the request.
\<close>

theorem dollar_value_mangled:
  assumes "literal_engine rx n" "cache_fits c n" "vals n = Some (pre @ CHR ''$'' # w)"
    and "CHR ''$'' \<notin> set pre" "w \<noteq> []" "list_all ascii_word w" "\<not> ascii_digit (hd w)"
    and "Replaces i = [n]" "Payload i = placeholder n" "LabelIdx i = 0" "AddressIdx i = 0"
  shows "\<exists>c' i'. ReplaceValues rx vals c i = Inr (c', i') \<and> Payload i' = pre"
proof -
  let ?lit = "literal (placeholder_re n) (placeholder n)"
  have run: "word_run wd u = length u" if "list_all ascii_word u" for wd u
    using that
  proof (induction u)
    case (Cons a u)
    then have "code a < 128" by (auto simp: ascii_word_def ascii_digit_def code_def)
    with Cons show ?case by (subst word_run.simps) (simp add: rune_len_def)
  qed simp
  have "hd w \<noteq> CHR ''{''" "hd w \<noteq> CHR ''$''"
    using assms(5,6) by (cases w; auto simp: ascii_word_def ascii_digit_def code_def)+
  then have "expand wd ?lit (pre @ CHR ''$'' # w) s m = pre" for wd s m
    using assms(4-7) run [OF assms(6)]
    by (subst expand.simps)
      (cases w; simp add: extract_name_def group_number_def named_group_def literal_def expand_plain)
  moreover have "locs ?lit (placeholder n) = [[Some (0, length (placeholder n))]]"
    by (simp add: literal_def placeholder_def lit_locs.simps [of _ _ "[]"]
        lit_locs.simps [of "CHR ''$'' # CHR ''{'' # n @ ''}''" 0])
  ultimately have "ReplaceAll wd ?lit (placeholder n) (pre @ CHR ''$'' # w) = pre" for wd
    by (simp add: ReplaceAll_def slice_def)
  moreover have "ResolveStrings i = Inr i" using assms(10,11) by (rule ResolveStrings_done)
  ultimately show ?thesis
    using assms by (cases "c n") (auto simp: ReplaceValues_def literal_engine_def cache_fits_def
        value_of_def Let_def)
qed

theorem dollar_value_mangled_witness:
  "\<exists>c' i'. ReplaceValues (literal_pkg [''pw'']) [''pw'' \<mapsto> ''pa$word''] Map.empty
      ((new_item None)\<lparr>Replaces := [''pw''], Payload := ''${pw}''\<rparr>) = Inr (c', i') \<and> Payload i' = ''pa''"
proof (rule dollar_value_mangled)
  show "literal_engine (literal_pkg [''pw'']) ''pw''" by (simp add: literal_pkg_engine)
  show "[''pw'' \<mapsto> ''pa$word''] ''pw'' = Some (''pa'' @ CHR ''$'' # ''word'')" by simp
  show "list_all ascii_word ''word''" "\<not> ascii_digit (hd ''word'')" by code_simp+
qed (simp_all add: cache_fits_def new_item_def placeholder_def)

text \<open>
  The map of compiled expressions is shared by placeholders and assertions: once a value
  \<open>n\<close> has been replaced, an assertion with the expression \<open>n\<close> is checked with the expression of
  the placeholder \<open>${n}\<close> instead of its own.
\<close>

theorem cache_confuses_assertion:
  assumes "literal_engine rx n" "c n = None" "ResolveStrings i = Inr j" "Replaces i = [n]"
    and "AssertsIdx k = [idx]" "get_string (itemIndex k) idx = Inr (assert_line invert n)"
  shows "\<exists>c' i' c'' k'. ReplaceValues rx vals c i = Inr (c', i')
    \<and> decodeAsserts rx (c', k) = Inr (Inr (c'', k'))
    \<and> Asserts k' = Asserts k
        @ [\<lparr>AssertRe = Some (literal (placeholder_re n) (placeholder n)), Invert = invert\<rparr>]"
  using assms
  by (auto simp: ReplaceValues_def literal_engine_def Let_def decodeAsserts_def decode_one_def cached_re_def
      assert_pattern_def add_assert_def assert_parts_line)

theorem cache_confuses_assertion_witness:
  "\<exists>c' i' c'' k'. ReplaceValues (literal_pkg [''var'']) Map.empty Map.empty (example_item\<lparr>Replaces := [''var'']\<rparr>)
      = Inr (c', i')
    \<and> decodeAsserts (literal_pkg [''var'']) (c', example_item\<lparr>AssertsIdx := [3]\<rparr>) = Inr (Inr (c'', k'))
    \<and> Asserts k' = [\<lparr>AssertRe = Some (literal (placeholder_re ''var'') ''${var}''), Invert = False\<rparr>]"
proof -
  let ?i = "example_item\<lparr>Replaces := [''var'']\<rparr>" and ?k = "example_item\<lparr>AssertsIdx := [3]\<rparr>"
  have res: "ResolveStrings ?i = Inr (?i\<lparr>Address := ''http://h'', AddressIdx := 0\<rparr>)"
    by (simp add: ResolveStrings_def example_item_def new_item_def get_string_def Get_def example_strings_def)
  have str: "get_string (itemIndex ?k) 3 = Inr (assert_line False ''var'')"
    by code_simp
  have "Asserts ?k = []" by (simp add: example_item_def new_item_def)
  with cache_confuses_assertion [where rx = "literal_pkg [''var'']" and n = "''var''" and c = Map.empty,
      OF _ _ res _ _ str]
  show ?thesis by (simp add: literal_pkg_engine placeholder_def)
qed

end
