(* ===== verification/Output_Items.thy ===== *)
theory Output_Items
  imports Binary_Codec Json_Decode Payload_Item
begin

text \<open>
  The result items of \<open>pkg/core/output.go\<close>: what a request is reported with, the extraction of
  values and the assertions on the response, and the binary and JSON forms of an item.
\<close>

section \<open>The item\<close>

text \<open>
  An error is its message; a response that is nil is None.  The pointer to the strings index,
  shared by all items, is passed to the operations that follow it.
\<close>

record OutputItem =
  StartTS :: u32
  Status :: u16
  Error :: "string option"
  ErrorStr :: string
  ErrorStrIdx :: u16
  Concurrency :: u32
  Elapsed :: duration
  ConnectTime :: duration
  SentTime :: duration
  FirstByteTime :: duration
  ReadTime :: duration
  WorkerNo :: u32
  OutLabel :: string
  OutLabelIdx :: u16
  SentBytesCount :: u64
  RespBytesCount :: u64
  ReqBytes :: bytes
  RespBytes :: "bytes option"

definition EndWithError :: "string \<Rightarrow> OutputItem \<Rightarrow> OutputItem" where
  "EndWithError err i = i\<lparr>Status := 999, Error := Some err\<rparr>"

section \<open>Extracting values\<close>

definition index_go :: "'a list \<Rightarrow> nat \<Rightarrow> 'a go" where
  "index_go xs k = (if k < length xs then Inr (xs ! k) else Inl IndexOutOfRange)"

text \<open>
  One turn of the loop over the extractors; \<open>intn n\<close> is what \<open>rand.Intn(n)\<close> gives.  A group that
  did not take part in the match gives the empty value.
\<close>

definition extract_value :: "(nat \<Rightarrow> nat) \<Rightarrow> bytes option \<Rightarrow> ExtractRegex \<Rightarrow> bytes go" where
  "extract_value intn resp e =
     (case Re e of
        None \<Rightarrow> Inl NilDeref
      | Some re \<Rightarrow>
          let limit = (if MatchNo e < 0 then MatchNo e else MatchNo e + 1);
              all = FindAllSubmatch re (case resp of Some b \<Rightarrow> b | None \<Rightarrow> []) limit
          in if all = [] then Inr ''NOT_FOUND''
             else go_bind
               (if 0 \<le> MatchNo e then index_go all (nat (MatchNo e)) else index_go all (intn (length all)))
               (\<lambda>m. go_bind (index_go m (GroupNo e)) (\<lambda>g.
                  Inr (case g of Some v \<Rightarrow> v | None \<Rightarrow> []))))"

text \<open>The extractors are a Go map: they come in any order, each name once.\<close>

definition ExtractValues ::
  "(string \<Rightarrow> nat \<Rightarrow> nat) \<Rightarrow> bytes option \<Rightarrow> (string \<times> ExtractRegex) list \<Rightarrow> ValMap \<Rightarrow> ValMap go" where
  "ExtractValues intn resp extractors vals =
     go_fold (\<lambda>m (name, e). go_bind (extract_value (intn name) resp e) (\<lambda>v. Inr (m(name \<mapsto> v)))) vals extractors"

section \<open>Assertions\<close>

text \<open>
  \<open>strings.TrimSpace\<close>: the encodings of the white space characters of Unicode are cut off at
  both ends.
\<close>

definition space_codes :: "bytes list" where
  "space_codes =
     [[CHR 0x09], [CHR 0x0A], [CHR 0x0B], [CHR 0x0C], [CHR 0x0D], [CHR '' ''],
      [CHR 0xC2, CHR 0x85], [CHR 0xC2, CHR 0xA0], [CHR 0xE1, CHR 0x9A, CHR 0x80]]
     @ map (\<lambda>k. [CHR 0xE2, CHR 0x80, char_of k]) [0x80..<0x8B]
     @ [[CHR 0xE2, CHR 0x80, CHR 0xA8], [CHR 0xE2, CHR 0x80, CHR 0xA9], [CHR 0xE2, CHR 0x80, CHR 0xAF],
        [CHR 0xE2, CHR 0x81, CHR 0x9F], [CHR 0xE3, CHR 0x80, CHR 0x80]]"

function trim_left :: "bytes list \<Rightarrow> bytes \<Rightarrow> bytes" where
  "trim_left codes s =
     (case filter (\<lambda>p. p \<noteq> [] \<and> take (length p) s = p) codes of
        [] \<Rightarrow> s | p # _ \<Rightarrow> if s = [] then s else trim_left codes (drop (length p) s))"
  by pat_completeness auto
termination
proof (relation "measure (\<lambda>(_, s). length s)", goal_cases)
  case (2 codes s p ps)
  then have "p \<noteq> []" by (auto simp: filter_eq_Cons_iff)
  with 2 show ?case by (cases s; cases p) auto
qed simp

declare trim_left.simps [simp del]

definition TrimSpace :: "bytes \<Rightarrow> bytes" where
  "TrimSpace s = rev (trim_left (map rev space_codes) (rev (trim_left space_codes s)))"

text \<open>An assertion whose expression is nil fails on the nil pointer.\<close>

definition assert_problem :: "bytes option \<Rightarrow> AssertItem \<Rightarrow> bytes go" where
  "assert_problem resp a =
     (case AssertRe a of
        None \<Rightarrow> Inl NilDeref
      | Some re \<Rightarrow>
          let missing = (Find re resp = None)
          in Inr (if missing \<noteq> Invert a
                  then LF # ''Assert failed on '' @ (if Invert a then ''inverted '' else '''')
                       @ ''regexp: '' @ reSource re
                  else ''''))"

definition Assert :: "AssertItem list \<Rightarrow> OutputItem \<Rightarrow> OutputItem go" where
  "Assert asserts i =
     go_bind (go_fold (\<lambda>ps a. go_bind (assert_problem (RespBytes i) a) (\<lambda>p. Inr (ps @ p)))
         (case Error i of Some e \<Rightarrow> e | None \<Rightarrow> '''') asserts)
       (\<lambda>problems. Inr (if problems \<noteq> '''' then i\<lparr>Error := Some (TrimSpace problems)\<rparr> else i))"

section \<open>The binary form\<close>

text \<open>\<open>Duration.Seconds\<close>: whole seconds and the rest; the division truncates.\<close>

definition trunc_div :: "int \<Rightarrow> int \<Rightarrow> int" where
  "trunc_div a b = (if a < 0 then - (- a div b) else a div b)"

definition Seconds :: "duration \<Rightarrow> f64" where
  "Seconds d =
     (let sec = trunc_div d Second; nsec = d - sec * Second
      in f64_of_int sec + f64_of_int nsec / f64_of_int Second)"

definition WriteBinary :: "OutputItem \<Rightarrow> bytes" where
  "WriteBinary i =
     put_u32 (StartTS i) @ put_u16 (Status i) @ put_u16 (ErrorStrIdx i) @ put_u32 (Concurrency i)
     @ put_f64 (Seconds (Elapsed i)) @ put_f64 (Seconds (ConnectTime i)) @ put_f64 (Seconds (SentTime i))
     @ put_f64 (Seconds (FirstByteTime i)) @ put_f64 (Seconds (ReadTime i))
     @ put_u32 (WorkerNo i) @ put_u16 (OutLabelIdx i)
     @ put_u64 (SentBytesCount i) @ put_u64 (RespBytesCount i)"

section \<open>The JSON form\<close>

definition StringFriendly :: "StrIndex option \<Rightarrow> OutputItem \<Rightarrow> OutputItem go" where
  "StringFriendly si i =
     (let i = (case Error i of Some e \<Rightarrow> i\<lparr>ErrorStr := e\<rparr> | None \<Rightarrow> i)
      in if OutLabel i = '''' \<and> 0 < OutLabelIdx i
         then go_bind (get_string si (OutLabelIdx i)) (\<lambda>s. Inr (i\<lparr>OutLabel := s\<rparr>))
         else Inr i)"

definition item_json :: "OutputItem \<Rightarrow> bytes" where
  "item_json i = json_object
     [(''StartTS'', digits (unat (StartTS i))), (''Status'', digits (unat (Status i))),
      (''ErrorStr'', json_string (ErrorStr i)), (''Concurrency'', digits (unat (Concurrency i))),
      (''Elapsed'', itoa (Elapsed i)), (''ConnectTime'', itoa (ConnectTime i)),
      (''SentTime'', itoa (SentTime i)), (''FirstByteTime'', itoa (FirstByteTime i)),
      (''ReadTime'', itoa (ReadTime i)), (''Worker'', digits (unat (WorkerNo i))),
      (''Label'', json_string (OutLabel i)), (''SentBytesCount'', digits (unat (SentBytesCount i))),
      (''RespBytesCount'', digits (unat (RespBytesCount i)))]"

section \<open>Facts about seconds\<close>

lemma canonical_ops:
  "canonical (f64_of_int n)"
  "canonical x \<Longrightarrow> canonical y \<Longrightarrow> canonical (x + y)"
  "canonical x \<Longrightarrow> canonical y \<Longrightarrow> canonical (x / y)"
proof -
  have z: "canonical (fzero s)" "canonical FNaN" "canonical (FInf s)" for s
    by (simp_all add: canonical_def fzero_def)
  have m: "canonical (FFin s m e) \<Longrightarrow> 0 \<le> m" for s m e by (simp add: canonical_def)
  show "canonical (f64_of_int n)" by (simp add: f64_of_int_def canonical_fround)
  show "canonical x \<Longrightarrow> canonical y \<Longrightarrow> canonical (x + y)"
    by (cases x; cases y) (auto simp: f64_ops Let_def z intro!: canonical_fround)
  show "canonical x \<Longrightarrow> canonical y \<Longrightarrow> canonical (x / y)"
    by (cases x; cases y) (auto simp: f64_ops z dest!: m intro!: canonical_fround)
qed

lemma canonical_Seconds: "canonical (Seconds d)"
  by (simp add: Seconds_def Let_def canonical_ops)

text \<open>A quotient of integers and its value.\<close>

lemma div_int_fval:
  assumes "0 \<le> a" "a < 2 ^ 53" "0 < b" "b < 2 ^ 53"
  shows "finite_f64 (f64_of_int a / f64_of_int b)"
    "fval (f64_of_int a / f64_of_int b) = rnd (real_of_int a / real_of_int b)"
proof -
  from f64_of_int_nonneg [OF assms(1,2)] obtain m e where
    a: "f64_of_int a = FFin False m e" "0 \<le> m" "fval (FFin False m e) = real_of_int a" by metis
  from f64_of_int_nonneg [of b] assms(3,4) obtain n f where
    b: "f64_of_int b = FFin False n f" "0 < n" "fval (FFin False n f) = real_of_int b"
    by (metis less_imp_le)
  from f64_div_fval [OF a(1) b(1) a(2) b(2)] obtain p q where
    q: "f64_of_int a / f64_of_int b = fround False p q" "0 \<le> p" "0 < q"
      "real_of_int p / real_of_int q = real_of_int a / real_of_int b"
    by (auto simp: a b)
  have "real_of_int a / real_of_int b \<le> real_of_int a / 1"
    using assms by (intro divide_left_mono) auto
  also have "\<dots> < real_of_int (2 ^ 53)" using assms(2) by (simp only: div_by_1 of_int_less_iff)
  also have "\<dots> = 2 powi 53" by (simp add: power_int_def)
  also have "\<dots> < 2 powi 1023" by (simp add: power_int_strict_increasing)
  finally show fin: "finite_f64 (f64_of_int a / f64_of_int b)"
    unfolding q(1) using q by (intro fround_finite) auto
  show "fval (f64_of_int a / f64_of_int b) = rnd (real_of_int a / real_of_int b)"
    using fval_fround [OF q(2,3), of False] fin q by simp
qed

lemma rnd_le_rel:
  assumes "x = 0 \<or> 2 powi (-1022) \<le> x"
  shows "\<bar>rnd x - x\<bar> \<le> x / 2 ^ 53"
  using assms rnd_rel [of x] by (auto simp: rnd_def)

lemma tiny_le: "(2::real) powi (-1022) \<le> 1 / 2 ^ 31"
proof -
  have "(2::real) powi (-1022) \<le> 2 powi (-31)" by (intro powi_mono2) simp
  also have "(2::real) powi (-31) = 1 / 2 ^ 31" by (simp add: power_int_minus)
  finally show ?thesis .
qed

lemma seconds_error:
  assumes "0 \<le> d" "d < 2 ^ 22 * Second"
  shows "\<bar>fval (Seconds d) - real_of_int d / 10 ^ 9\<bar> \<le> 1 / 2 ^ 31 + 1 / 2 ^ 53"
proof -
  define s n where "s = d div Second" and "n = d mod Second"
  have n: "0 \<le> n" "n < Second" and s: "0 \<le> s" "s < 2 ^ 22" and d: "d = s * Second + n"
    using assms by (auto simp: s_def n_def pos_imp_zdiv_nonneg_iff)
  have "trunc_div d Second = s" using assms(1) by (simp add: trunc_div_def s_def)
  moreover have "d - s * Second = n" by (simp add: s_def n_def minus_div_mult_eq_mod)
  ultimately have eq: "Seconds d = f64_of_int s + f64_of_int n / f64_of_int Second"
    by (simp only: Seconds_def Let_def)
  let ?x = "real_of_int n / real_of_int Second"
  let ?q = "f64_of_int n / f64_of_int Second"
  have q: "finite_f64 ?q" "fval ?q = rnd ?x"
    using div_int_fval [of n Second] n by simp_all
  have x01: "0 \<le> ?x" "?x \<le> 1" using n by simp_all
  have xlow: "?x = 0 \<or> 1 / 2 ^ 30 \<le> ?x"
  proof (cases "n = 0")
    case False
    then have "1 / real_of_int Second \<le> ?x" using n by (intro divide_right_mono) auto
    moreover have "(1::real) / 2 ^ 30 \<le> 1 / real_of_int Second" by simp
    ultimately show ?thesis by linarith
  qed simp
  have p31: "(1::real) / 2 ^ 31 \<le> 1 / 2 ^ 30" "(1::real) / 2 ^ 53 \<le> 1 / 2 ^ 31" "(1::real) / 2 ^ 30 = 2 * (1 / 2 ^ 31)"
    by simp_all
  have "?x = 0 \<or> 2 powi (-1022) \<le> ?x" using xlow tiny_le p31 by linarith
  from rnd_le_rel [OF this] have e1: "\<bar>rnd ?x - ?x\<bar> \<le> 1 / 2 ^ 53"
    using x01 by (simp add: field_simps)
  have r: "0 \<le> rnd ?x" "rnd ?x \<le> 1"
    using rnd_nonneg rnd_mono [OF x01(2)] rnd_exact [of 1 0] by simp_all
  have sf: "finite_f64 (f64_of_int s)" "fval (f64_of_int s) = real_of_int s"
    using f64_of_int_exact(2,3) [of s] s by simp_all
  let ?y = "real_of_int s + rnd ?x"
  have "1 / 2 ^ 31 \<le> ?y \<or> ?y = 0"
  proof (cases "s = 0")
    case True
    show ?thesis
    proof (cases "?x = 0")
      case False
      then have "1 / 2 ^ 30 \<le> ?x" using xlow by blast
      then have "1 / 2 ^ 30 - 1 / 2 ^ 53 \<le> rnd ?x" using e1 by linarith
      then show ?thesis using True p31 by simp
    qed (simp add: True rnd_def)
  next
    case False
    then have "1 \<le> real_of_int s" using s by simp
    then show ?thesis using r by simp
  qed
  then have ge: "?y = 0 \<or> 2 powi (-1022) \<le> ?y" using tiny_le by linarith
  have y: "0 \<le> ?y" "?y \<le> 2 ^ 22"
  proof -
    have "s \<le> 2 ^ 22 - 1" using s by simp
    then have "real_of_int s \<le> real_of_int (2 ^ 22 - 1)" by (simp only: of_int_le_iff)
    then show "0 \<le> ?y" "?y \<le> 2 ^ 22" using r s by simp_all
  qed
  have "(2::real) ^ 22 = 2 powi 22" by (simp add: power_int_def)
  also have "\<dots> < 2 powi 1023" by (simp add: power_int_strict_increasing)
  finally have "\<bar>fval (f64_of_int s) + fval ?q\<bar> < 2 powi 1023"
    using y unfolding sf q by linarith
  from f64_add_fval [OF sf(1) q(1) f64_add_finite [OF sf(1) q(1) this]] y(1)
  have "fval (Seconds d) = rnd ?y"
    by (simp add: eq sf q)
  moreover have "\<bar>rnd ?y - ?y\<bar> \<le> 1 / 2 ^ 31"
  proof -
    have "?y / 2 ^ 53 \<le> 2 ^ 22 / 2 ^ 53" using y(2) by (rule divide_right_mono) simp
    then show ?thesis using rnd_le_rel [OF ge] by simp
  qed
  moreover have "real_of_int d / 10 ^ 9 = real_of_int s + ?x"
    by (simp add: d field_simps)
  ultimately show ?thesis using e1 by linarith
qed

section \<open>The record and its reader\<close>

text \<open>
  A record as \<open>KPIReaderBinary\<close> unpacks it: \<open>struct.unpack_from("<L HH L 5d LH QQ")\<close>.
\<close>

record Sample =
  tstmp :: u32
  rcd :: u16
  err_idx :: u16
  concur :: u32
  rtm :: f64
  cnn :: f64
  sent :: f64
  ltc :: f64
  recv :: f64
  wrk :: u32
  lbl_idx :: u16
  sbytes :: u64
  rbytes :: u64

definition chunk_len :: nat where "chunk_len = 74"

definition field :: "bytes \<Rightarrow> nat \<Rightarrow> nat \<Rightarrow> bytes" where
  "field bs a n = take n (drop a bs)"

definition unpack_sample :: "bytes \<Rightarrow> Sample" where
  "unpack_sample bs =
     \<lparr>tstmp = get_word (field bs 0 4), rcd = get_word (field bs 4 2), err_idx = get_word (field bs 6 2),
      concur = get_word (field bs 8 4), rtm = get_f64 (field bs 12 8), cnn = get_f64 (field bs 20 8),
      sent = get_f64 (field bs 28 8), ltc = get_f64 (field bs 36 8), recv = get_f64 (field bs 44 8),
      wrk = get_word (field bs 52 4), lbl_idx = get_word (field bs 56 2),
      sbytes = get_word (field bs 58 8), rbytes = get_word (field bs 66 8)\<rparr>"

definition pack_sample :: "Sample \<Rightarrow> bytes" where
  "pack_sample s =
     put_u32 (tstmp s) @ put_u16 (rcd s) @ put_u16 (err_idx s) @ put_u32 (concur s)
     @ put_f64 (rtm s) @ put_f64 (cnn s) @ put_f64 (sent s) @ put_f64 (ltc s) @ put_f64 (recv s)
     @ put_u32 (wrk s) @ put_u16 (lbl_idx s) @ put_u64 (sbytes s) @ put_u64 (rbytes s)"

definition sample_ok :: "Sample \<Rightarrow> bool" where
  "sample_ok s = list_all canonical [rtm s, cnn s, sent s, ltc s, recv s]"

lemma put_lengths [simp]:
  "length (put_u16 a) = 2" "length (put_u32 b) = 4" "length (put_u64 c) = 8" "length (put_f64 d) = 8"
  by (simp_all add: u16.length_enc u32.length_enc u64.length_enc double.length_enc)

lemma field_first: "length x = n \<Longrightarrow> field (x @ rest) 0 n = x"
  by (simp add: field_def)

lemma field_later: "length x \<le> a \<Longrightarrow> field (x @ rest) a n = field rest (a - length x) n"
  by (simp add: field_def)

interpretation sample: codec pack_sample unpack_sample chunk_len sample_ok
proof
  fix s :: Sample
  assume "sample_ok s"
  then show "unpack_sample (pack_sample s) = s"
    by (cases s)
      (simp add: unpack_sample_def pack_sample_def sample_ok_def field_first field_later field_def
        u16.dec_enc u32.dec_enc u64.dec_enc double.dec_enc)
qed (simp_all add: chunk_len_def pack_sample_def)

definition sample_of :: "OutputItem \<Rightarrow> Sample" where
  "sample_of i =
     \<lparr>tstmp = StartTS i, rcd = Status i, err_idx = ErrorStrIdx i, concur = Concurrency i,
      rtm = Seconds (Elapsed i), cnn = Seconds (ConnectTime i), sent = Seconds (SentTime i),
      ltc = Seconds (FirstByteTime i), recv = Seconds (ReadTime i), wrk = WorkerNo i,
      lbl_idx = OutLabelIdx i, sbytes = SentBytesCount i, rbytes = RespBytesCount i\<rparr>"

lemma WriteBinary_pack: "WriteBinary i = pack_sample (sample_of i)"
  by (simp add: WriteBinary_def pack_sample_def sample_of_def)

lemma sample_of_ok: "sample_ok (sample_of i)"
  by (simp add: sample_ok_def sample_of_def canonical_Seconds)

section \<open>Trimming keeps what is between\<close>

lemma trim_left_stops:
  "\<forall>p \<in> set codes. c \<notin> set p \<Longrightarrow> \<exists>us'. trim_left codes (us @ c # vs) = us' @ c # vs"
proof (induction codes "us @ c # vs" arbitrary: us rule: trim_left.induct)
  case (1 codes us)
  show ?case
  proof (cases "filter (\<lambda>p. p \<noteq> [] \<and> take (length p) (us @ c # vs) = p) codes")
    case Nil
    then show ?thesis by (subst trim_left.simps) auto
  next
    case (Cons p ps)
    then have "p \<in> set (filter (\<lambda>p. p \<noteq> [] \<and> take (length p) (us @ c # vs) = p) codes)" by simp
    then have p: "p \<in> set codes" "p \<noteq> []" "take (length p) (us @ c # vs) = p" by auto
    have "length p \<le> length us"
    proof (rule ccontr)
      assume "\<not> length p \<le> length us"
      then have "length p - length us = Suc (length p - length us - 1)" by simp
      then obtain k where "length p - length us = Suc k" by blast
      then have "c \<in> set (take (length p) (us @ c # vs))" by simp
      then have "c \<in> set p" unfolding p(3) .
      then show False using p(1) "1.prems" by blast
    qed
    then have "drop (length p) (us @ c # vs) = drop (length p) us @ c # vs" by simp
    from "1.hyps" [OF Cons _ this] "1.prems" obtain us' where
      "trim_left codes (drop (length p) us @ c # vs) = us' @ c # vs" by auto
    then show ?thesis
      using Cons \<open>length p \<le> length us\<close> by (subst trim_left.simps) simp
  qed
qed

lemma space_codes_letter: "\<forall>p \<in> set space_codes. CHR ''A'' \<notin> set p"
  by code_simp

lemma TrimSpace_between:
  "\<exists>us ws. TrimSpace (xs @ CHR ''A'' # ys @ CHR ''A'' # zs) = us @ CHR ''A'' # ys @ CHR ''A'' # ws"
proof -
  obtain us where us: "trim_left space_codes (xs @ CHR ''A'' # (ys @ CHR ''A'' # zs))
      = us @ CHR ''A'' # ys @ CHR ''A'' # zs"
    using trim_left_stops [OF space_codes_letter] by blast
  have "\<forall>p \<in> set (map rev space_codes). CHR ''A'' \<notin> set p" using space_codes_letter by simp
  from trim_left_stops [OF this, of "rev zs" "rev ys @ CHR ''A'' # rev us"] obtain ws where
    "trim_left (map rev space_codes) (rev zs @ CHR ''A'' # rev ys @ CHR ''A'' # rev us)
      = ws @ CHR ''A'' # rev ys @ CHR ''A'' # rev us" by blast
  then have "TrimSpace (xs @ CHR ''A'' # ys @ CHR ''A'' # zs) = us @ CHR ''A'' # ys @ CHR ''A'' # rev ws"
    by (simp add: TrimSpace_def us)
  then show ?thesis by blast
qed

section \<open>Outcomes of the assertions\<close>

definition holds :: "bytes option \<Rightarrow> AssertItem \<Rightarrow> bool" where
  "holds resp a = ((Find (the (AssertRe a)) resp \<noteq> None) \<noteq> Invert a)"

definition assert_message :: "AssertItem \<Rightarrow> bytes" where
  "assert_message a =
     LF # ''Assert failed on '' @ (if Invert a then ''inverted '' else '''') @ ''regexp: ''
       @ reSource (the (AssertRe a))"

lemma assert_problem_eq:
  "AssertRe a \<noteq> None \<Longrightarrow>
     assert_problem resp a = Inr (if holds resp a then '''' else assert_message a)"
  by (auto simp: assert_problem_def holds_def assert_message_def Let_def)

lemma assert_fold:
  "list_all (\<lambda>a. AssertRe a \<noteq> None) asserts \<Longrightarrow>
     go_fold (\<lambda>ps a. go_bind (assert_problem resp a) (\<lambda>p. Inr (ps @ p))) ps asserts
     = Inr (ps @ concat (map assert_message (filter (\<lambda>a. \<not> holds resp a) asserts)))"
  by (induction asserts arbitrary: ps) (auto simp: assert_problem_eq)

lemma Assert_eq:
  assumes "list_all (\<lambda>a. AssertRe a \<noteq> None) asserts" "Error i = None"
  shows "Assert asserts i =
    (let failed = filter (\<lambda>a. \<not> holds (RespBytes i) a) asserts
     in Inr (if failed = [] then i
             else i\<lparr>Error := Some (TrimSpace (concat (map assert_message failed)))\<rparr>))"
proof -
  let ?failed = "filter (\<lambda>a. \<not> holds (RespBytes i) a) asserts"
  have "concat (map assert_message ?failed) = [] \<longleftrightarrow> ?failed = []"
    by (cases ?failed) (simp_all add: assert_message_def)
  then show ?thesis
    using assms by (simp add: Assert_def assert_fold Let_def)
qed

text \<open>An item for the examples: a response, and nothing else yet.\<close>

definition example_result :: "bytes \<Rightarrow> OutputItem" where
  "example_result resp =
     \<lparr>StartTS = 7, Status = 200, Error = None, ErrorStr = '''', ErrorStrIdx = 0, Concurrency = 1,
      Elapsed = 1500000000, ConnectTime = 0, SentTime = 0, FirstByteTime = 0, ReadTime = 0, WorkerNo = 1,
      OutLabel = ''newlabel'', OutLabelIdx = 0, SentBytesCount = 0, RespBytesCount = 8, ReqBytes = [],
      RespBytes = Some resp\<rparr>"

definition example_asserts :: "AssertItem list" where
  "example_asserts =
     [\<lparr>AssertRe = Some (literal ''123'' ''123''), Invert = False\<rparr>,
      \<lparr>AssertRe = Some (literal ''notpresent'' ''notpresent''), Invert = False\<rparr>,
      \<lparr>AssertRe = Some (literal ''notpresent'' ''notpresent''), Invert = True\<rparr>,
      \<lparr>AssertRe = Some (literal ''123'' ''123''), Invert = True\<rparr>]"

lemma locs_from_lit: "i + length s \<le> len \<Longrightarrow> locs_from 1 i len (lit_locs pat i s)"
proof (induction pat i s arbitrary: rule: lit_locs.induct)
  case (1 pat i s)
  have mono: "j \<le> i \<Longrightarrow> locs_from 1 i len ms \<Longrightarrow> locs_from 1 j len ms" for i j ms
    by (cases ms) (auto split: list.splits option.splits)
  show ?case
  proof (cases "pat \<noteq> [] \<and> take (length pat) s = pat")
    case True
    then have "length pat \<le> length s" by (metis length_take min.absorb_iff2 min.commute)
    with True 1 show ?thesis by (subst lit_locs.simps) simp
  next
    case False
    show ?thesis
    proof (cases s)
      case (Cons c s')
      with False 1 have "locs_from 1 (i + 1) len (lit_locs pat (i + 1) s')" by auto
      then have "locs_from 1 i len (lit_locs pat (i + 1) s')" by (rule mono [rotated]) simp
      with False Cons show ?thesis by (subst lit_locs.simps) auto
    qed (use False in \<open>auto simp: lit_locs.simps\<close>)
  qed
qed

lemma literal_ok: "regexp_ok (literal src pat)"
  using locs_from_lit [of 0 s "length s" pat for s] by (simp add: regexp_ok_def literal_def)

lemma assert_message_start: "\<exists>t. \<forall>a. assert_message a = LF # CHR ''A'' # t a"
  unfolding assert_message_def by (intro exI allI) (simp only: append.simps)

lemma two_failures_decompose:
  "\<exists>xs ys zs. concat (map assert_message (a # b # fs)) = xs @ CHR ''A'' # ys @ CHR ''A'' # zs \<and> LF \<in> set ys"
proof -
  obtain t where msg: "\<forall>a. assert_message a = LF # CHR ''A'' # t a"
    using assert_message_start by blast
  show ?thesis
    by (intro exI [of _ "[LF]"] exI [of _ "t a @ [LF]"] exI [of _ "t b @ concat (map assert_message fs)"])
      (simp add: msg)
qed

lemma item_json_printable: "list_all printable (item_json i)"
  unfolding item_json_def
  by (rule json_object_printable) (simp add: itoa_printable json_string_printable)

text \<open>The line read as JSON; bytes that are no UTF-8 are replaced.\<close>

definition item_object :: "OutputItem \<Rightarrow> json" where
  "item_object i = JObj
     [(''StartTS'', JNum (digits (unat (StartTS i)))), (''Status'', JNum (digits (unat (Status i)))),
      (''ErrorStr'', JStr (utf8_text (ErrorStr i))), (''Concurrency'', JNum (digits (unat (Concurrency i)))),
      (''Elapsed'', JNum (itoa (Elapsed i))), (''ConnectTime'', JNum (itoa (ConnectTime i))),
      (''SentTime'', JNum (itoa (SentTime i))), (''FirstByteTime'', JNum (itoa (FirstByteTime i))),
      (''ReadTime'', JNum (itoa (ReadTime i))), (''Worker'', JNum (digits (unat (WorkerNo i)))),
      (''Label'', JStr (utf8_text (OutLabel i))), (''SentBytesCount'', JNum (digits (unat (SentBytesCount i)))),
      (''RespBytesCount'', JNum (digits (unat (RespBytesCount i))))]"

lemma utf8_text_ascii: "list_all (\<lambda>c. code c < 128) s \<Longrightarrow> utf8_text s = s"
  by (induction s) simp_all

lemma item_keys:
  "utf8_text ''StartTS'' = ''StartTS''" "utf8_text ''Status'' = ''Status''" "utf8_text ''ErrorStr'' = ''ErrorStr''"
  "utf8_text ''Concurrency'' = ''Concurrency''" "utf8_text ''Elapsed'' = ''Elapsed''" "utf8_text ''ConnectTime'' = ''ConnectTime''"
  "utf8_text ''SentTime'' = ''SentTime''" "utf8_text ''FirstByteTime'' = ''FirstByteTime''" "utf8_text ''ReadTime'' = ''ReadTime''"
  "utf8_text ''Worker'' = ''Worker''" "utf8_text ''Label'' = ''Label''" "utf8_text ''SentBytesCount'' = ''SentBytesCount''"
  "utf8_text ''RespBytesCount'' = ''RespBytesCount''"
  by (rule utf8_text_ascii, simp add: code_def)+

lemma reads_digits: "reads (digits n) (JNum (digits n))"
  using reads_itoa [of "int n"] by (simp add: itoa_def)

lemma parse_item_json: "parse_json (item_json i) = Some (item_object i)"
  unfolding item_json_def item_object_def
  by (intro parse_reads reads_json_object)
    (simp only: list.rel_inject list_all2_Nil prod.case item_keys reads_digits reads_json_string reads_itoa simp_thms)

section \<open>Properties\<close>

text \<open>
  A result is written to the binary file as a record of 74 bytes from which the reader gets
  back the values of the item: times as their seconds, counters, status and string numbers
  exactly.
\<close>

theorem binary_record_roundtrip:
  "length (WriteBinary i) = 74 \<and> unpack_sample (WriteBinary i) = sample_of i"
  using sample.length_enc [of "sample_of i"] sample.dec_enc [OF sample_of_ok]
  by (simp add: WriteBinary_pack chunk_len_def)

text \<open>
  The seconds of a duration below 48 days are so close that the nanoseconds can be read off
  them: the error is less than half a nanosecond.
\<close>

theorem seconds_accuracy:
  assumes "0 \<le> d" "d < 2 ^ 22 * Second"
  shows "\<bar>fval (Seconds d) * 10 ^ 9 - real_of_int d\<bar> < 1 / 2"
proof -
  have "\<bar>fval (Seconds d) * 10 ^ 9 - real_of_int d\<bar> = \<bar>fval (Seconds d) - real_of_int d / 10 ^ 9\<bar> * 10 ^ 9"
  proof -
    have "fval (Seconds d) * 10 ^ 9 - real_of_int d = (fval (Seconds d) - real_of_int d / 10 ^ 9) * 10 ^ 9"
      by simp
    then show ?thesis by (simp only: abs_mult) simp
  qed
  also have "\<dots> \<le> (1 / 2 ^ 31 + 1 / 2 ^ 53) * 10 ^ 9"
    by (intro mult_right_mono seconds_error assms) simp
  also have "\<dots> < 1 / 2" by simp
  finally show ?thesis .
qed

theorem seconds_accuracy_witness:
  "\<bar>fval (Seconds 1500000001) * 10 ^ 9 - real_of_int 1500000001\<bar> < 1 / 2"
  by (rule seconds_accuracy) simp_all

text \<open>
  C32: what an extractor with a fixed match number gives: NOT_FOUND when the expression does not
  match at all, the group of that match when it is there, and a panic, which ends the process,
  when the response has some matches but fewer than asked for, or the expression fewer groups.
\<close>

theorem extract_value_outcome:
  assumes "Re e = Some re" "regexp_ok re" "0 \<le> MatchNo e"
  shows "extract_value intn (Some b) e =
    (let ms = locs re b; k = nat (MatchNo e)
     in if ms = [] then Inr ''NOT_FOUND''
        else if length ms \<le> k \<or> length (subexpNames re) \<le> GroupNo e then Inl IndexOutOfRange
        else Inr (case ms ! k ! GroupNo e of Some l \<Rightarrow> slice b l | None \<Rightarrow> []))"
proof -
  let ?k = "nat (MatchNo e)"
  have len: "length m = length (subexpNames re)" if "m \<in> set (locs re b)" for m
  proof -
    have "locs_from (length (subexpNames re)) i n ms \<Longrightarrow> m \<in> set ms \<Longrightarrow> length m = length (subexpNames re)"
      for i n ms
      by (induction "length (subexpNames re)" i n ms rule: locs_from.induct)
        (auto split: list.splits option.splits)
    then show ?thesis using assms(2) that by (auto simp: regexp_ok_def)
  qed
  have take: "?k < length (take (nat (MatchNo e + 1)) ms) \<longleftrightarrow> ?k < length ms"
    "?k < length ms \<Longrightarrow> take (nat (MatchNo e + 1)) ms ! ?k = ms ! ?k" for ms :: "bytes option list list"
    using assms(3) by auto
  have "take (nat (MatchNo e + 1)) ms = [] \<longleftrightarrow> ms = []" for ms :: "bytes option list list"
    using assms(3) by auto
  then show ?thesis
    using assms(1,3) len [of "locs re b ! ?k"]
    by (auto simp: extract_value_def FindAllSubmatch_def Let_def index_go_def take submatches_def not_le
        split: option.splits)
qed

theorem extract_value_outcome_witness:
  "extract_value id (Some ''test 123'') \<lparr>Re = Some (literal ''1'' ''1''), GroupNo = 0, MatchNo = 1\<rparr>
     = Inl IndexOutOfRange"
proof -
  have "locs (literal ''1'' ''1'') ''test 123'' = [[Some (5, 6)]]" by code_simp
  then show ?thesis
    using extract_value_outcome [of "\<lparr>Re = Some (literal ''1'' ''1''), GroupNo = 0, MatchNo = 1\<rparr>", OF _ literal_ok]
    by simp
qed

text \<open>
  A response passes its assertions exactly when every one holds (the expression is found, or
  not found for an inverted one): the item then has no error, and gets one otherwise; nothing
  else of the item changes.
\<close>

theorem assert_passes:
  assumes "list_all (\<lambda>a. AssertRe a \<noteq> None) asserts" "Error i = None"
  shows "\<exists>e. Assert asserts i = Inr (i\<lparr>Error := e\<rparr>) \<and> (e = None \<longleftrightarrow> list_all (holds (RespBytes i)) asserts)"
  using assms by (auto simp: Assert_eq Let_def list_all_iff filter_empty_conv)

theorem assert_passes_witness:
  "\<exists>e. Assert (take 1 example_asserts) (example_result ''test 123'') = Inr ((example_result ''test 123'')\<lparr>Error := e\<rparr>)
     \<and> e = None"
proof -
  have "list_all (\<lambda>a. AssertRe a \<noteq> None) (take 1 example_asserts)" "Error (example_result ''test 123'') = None"
    "list_all (holds (RespBytes (example_result ''test 123''))) (take 1 example_asserts)"
    by code_simp+
  with assert_passes show ?thesis by blast
qed

text \<open>
  An item that fails two assertions gets an error message of several lines, which is what
  the strings file cannot hold.
\<close>

theorem two_failures_multiline:
  assumes "list_all (\<lambda>a. AssertRe a \<noteq> None) asserts" "Error i = None"
    and "filter (\<lambda>a. \<not> holds (RespBytes i) a) asserts = a # b # fs"
  shows "\<exists>e. Assert asserts i = Inr (i\<lparr>Error := Some e\<rparr>) \<and> LF \<in> set e"
proof -
  obtain xs ys zs where d: "concat (map assert_message (a # b # fs)) = xs @ CHR ''A'' # ys @ CHR ''A'' # zs"
      "LF \<in> set ys"
    using two_failures_decompose by blast
  then have "LF \<in> set (TrimSpace (concat (map assert_message (a # b # fs))))"
    using TrimSpace_between [of xs ys zs] by auto
  then show ?thesis
    using Assert_eq [OF assms(1,2)] by (simp only: assms(3) Let_def) auto
qed

theorem two_failures_multiline_witness:
  "\<exists>e. Assert example_asserts (example_result ''test 123'') = Inr ((example_result ''test 123'')\<lparr>Error := Some e\<rparr>)
     \<and> LF \<in> set e"
proof (rule two_failures_multiline)
  show "list_all (\<lambda>a. AssertRe a \<noteq> None) example_asserts" by code_simp
  show "Error (example_result ''test 123'') = None" by (simp add: example_result_def)
  have "map (\<lambda>a. holds (RespBytes (example_result ''test 123'')) a) example_asserts = [True, False, True, False]"
    by code_simp
  then show "filter (\<lambda>a. \<not> holds (RespBytes (example_result ''test 123'')) a) example_asserts
      = example_asserts ! 1 # example_asserts ! 3 # []"
    by (simp add: example_asserts_def)
qed

text \<open>
  The JSON of an item is a single line of printable characters, whatever its label and
  error message hold, so every line of the LDJSON file is one item.
\<close>

theorem item_json_one_line:
  "list_all printable (item_json i) \<and> LF \<notin> set (item_json i) \<and> CR \<notin> set (item_json i)"
  using item_json_printable printable_no_line by blast

end
