(* ===== verification/Output_Sinks.thy ===== *)
theory Output_Sinks
  imports Output_Items
begin

text \<open>
  The outputs of \<open>pkg/core/output.go\<close>: the buffered files of the LDJSON, binary and trace
  outputs, and \<open>Output\<close>, which hands every result to each of them in turn and shares one
  strings index between them.
\<close>

section \<open>A buffered file\<close>

text \<open>\<open>bufio.Writer\<close> with its default size; the file takes every write.\<close>

record bufw =
  written :: bytes
  pending :: bytes

definition buf_cap :: nat where "buf_cap = 4096"

definition new_bufw :: bufw where "new_bufw = \<lparr>written = [], pending = []\<rparr>"

definition Flush :: "bufw \<Rightarrow> bufw" where
  "Flush w = \<lparr>written = written w @ pending w, pending = []\<rparr>"

function bw_write :: "bufw \<Rightarrow> bytes \<Rightarrow> bufw" where
  "bw_write w p =
     (if buf_cap - length (pending w) < length p
      then
        if pending w = [] then \<lparr>written = written w @ p, pending = []\<rparr>
        else
          let n = buf_cap - length (pending w)
          in bw_write (Flush (w\<lparr>pending := pending w @ take n p\<rparr>)) (drop n p)
      else w\<lparr>pending := pending w @ p\<rparr>)"
  by pat_completeness auto
termination
  by (relation "measure (\<lambda>(w, p). if pending w = [] then 0 else Suc 0)") (auto simp: Flush_def)

declare bw_write.simps [simp del]

definition on_file :: "bufw \<Rightarrow> bytes" where
  "on_file w = written w @ pending w"

lemma on_file_write [simp]: "on_file (bw_write w p) = on_file w @ p"
proof (induction w p rule: bw_write.induct)
  case (1 w p)
  then show ?case by (subst bw_write.simps) (auto simp: on_file_def Flush_def Let_def)
qed

lemma on_file_flush [simp]: "on_file (Flush w) = on_file w" "written (Flush w) = on_file w"
  by (simp_all add: on_file_def Flush_def)

lemma bw_write_pending:
  "length (pending w) \<le> buf_cap \<Longrightarrow> length (pending (bw_write w p)) \<le> buf_cap"
proof (induction w p rule: bw_write.induct)
  case (1 w p)
  then show ?case by (subst bw_write.simps) (auto simp: Flush_def Let_def)
qed

lemma on_file_new [simp]: "on_file new_bufw = []"
  by (simp add: on_file_def new_bufw_def)

section \<open>The strings index by pointer\<close>

definition idx_ptr :: "table option \<Rightarrow> string \<Rightarrow> (table option \<times> u16) go" where
  "idx_ptr p l =
     (case p of None \<Rightarrow> Inl NilDeref | Some t \<Rightarrow> go_bind (Idx t l) (\<lambda>(t', i). Inr (Some t', i)))"

definition ptr_inv :: "table option \<Rightarrow> bool" where
  "ptr_inv p = (case p of None \<Rightarrow> False | Some t \<Rightarrow> table_inv t)"

definition ptr_room :: "table option \<Rightarrow> nat" where
  "ptr_room p = (case p of None \<Rightarrow> 0 | Some t \<Rightarrow> room (snd t))"

definition ptr_get :: "table option \<Rightarrow> u16 \<Rightarrow> string go" where
  "ptr_get p = get_string (map_option snd p)"

interpretation strptr: string_table ptr_get idx_ptr ptr_inv ptr_room
proof
  fix p l
  assume "ptr_inv p" "0 < ptr_room p"
  then obtain t where [simp]: "p = Some t" and t: "table_inv t" "0 < room (snd t)"
    by (auto simp: ptr_inv_def ptr_room_def split: option.splits)
  from strtab.intern_returns [OF t, of l] show "\<exists>p' i. idx_ptr p l = Inr (p', i)"
    by (auto simp: idx_ptr_def)
next
  fix p l p' i j m
  assume *: "ptr_inv p" "0 < ptr_room p" "idx_ptr p l = Inr (p', i)"
  then obtain t t' where [simp]: "p = Some t" "p' = Some t'" and
    t: "table_inv t" "0 < room (snd t)" "Idx t l = Inr (t', i)"
    by (auto simp: ptr_inv_def ptr_room_def idx_ptr_def go_convs split: option.splits)
  show "ptr_inv p'" using strtab.intern_inv [OF t] by (simp add: ptr_inv_def)
  show "ptr_get p' i = Inr l"
    using strtab.intern_get [OF t] by (simp add: ptr_get_def get_string_def)
  show "ptr_get p j = Inr m \<Longrightarrow> ptr_get p' j = Inr m"
    using strtab.intern_keeps [OF t] by (simp add: ptr_get_def get_string_def)
next
  fix p l p' i
  assume "ptr_inv p" "idx_ptr p l = Inr (p', i)"
  then show "ptr_room p \<le> Suc (ptr_room p')"
    using strtab.intern_free by (auto simp: ptr_inv_def ptr_room_def idx_ptr_def go_convs split: option.splits)
qed

section \<open>The outputs\<close>

text \<open>What \<open>BinaryOut.Push\<close> does first: number the error and the label.\<close>

definition number_strings ::
  "('s \<Rightarrow> string \<Rightarrow> ('s \<times> u16) go) \<Rightarrow> 's \<Rightarrow> OutputItem \<Rightarrow> ('s \<times> OutputItem) go" where
  "number_strings intern t i =
     go_bind
       (case Error i of
          Some e \<Rightarrow> if ErrorStrIdx i = 0 then go_bind (intern t e) (\<lambda>(t, k). Inr (t, i\<lparr>ErrorStrIdx := k\<rparr>))
                    else Inr (t, i)
        | None \<Rightarrow> Inr (t, i)) (\<lambda>(t, i).
     if OutLabel i \<noteq> '''' \<and> OutLabelIdx i = 0
     then go_bind (intern t (OutLabel i)) (\<lambda>(t, k). Inr (t, i\<lparr>OutLabelIdx := k\<rparr>))
     else Inr (t, i))"

record BinaryOut =
  bwriter :: bufw
  lastTS :: u32

definition push_binary ::
  "table option \<Rightarrow> OutputItem \<Rightarrow> BinaryOut \<Rightarrow> (table option \<times> OutputItem \<times> BinaryOut) go" where
  "push_binary p i b =
     go_bind (number_strings idx_ptr p i) (\<lambda>(p, i).
       let w = bw_write (bwriter b) (WriteBinary i)
       in Inr (p, i, if lastTS b < StartTS i then \<lparr>bwriter = Flush w, lastTS = StartTS i\<rparr>
                     else b\<lparr>bwriter := w\<rparr>))"

definition push_ldjson :: "table option \<Rightarrow> OutputItem \<Rightarrow> bufw \<Rightarrow> (OutputItem \<times> bufw) go" where
  "push_ldjson p i w =
     go_bind (StringFriendly (map_option snd p) i) (\<lambda>i.
       Inr (i, bw_write w (item_json i @ [CR, LF])))"

text \<open>The trace: JSON, request and response, for items from a status level on.\<close>

definition push_reqresp :: "table option \<Rightarrow> OutputItem \<Rightarrow> u16 \<Rightarrow> bufw \<Rightarrow> (OutputItem \<times> bufw) go" where
  "push_reqresp p i level w =
     (if level \<le> Status i
      then go_bind (StringFriendly (map_option snd p) i) (\<lambda>i.
        Inr (i, foldl bw_write w
          [item_json i @ [CR, LF], ReqBytes i, [CR, LF], (case RespBytes i of Some b \<Rightarrow> b | None \<Rightarrow> []), [CR, LF]]))
      else Inr (i, w))"

datatype SingleOut = LDJSONOut bufw | BinaryFile BinaryOut | ReqRespOut u16 bufw

fun push_out ::
  "table option \<Rightarrow> OutputItem \<Rightarrow> SingleOut \<Rightarrow> (table option \<times> OutputItem \<times> SingleOut) go" where
  "push_out p i (LDJSONOut w) = go_bind (push_ldjson p i w) (\<lambda>(i, w). Inr (p, i, LDJSONOut w))"
| "push_out p i (BinaryFile b) = go_bind (push_binary p i b) (\<lambda>(p, i, b). Inr (p, i, BinaryFile b))"
| "push_out p i (ReqRespOut l w) = go_bind (push_reqresp p i l w) (\<lambda>(i, w). Inr (p, i, ReqRespOut l w))"

fun close_out :: "SingleOut \<Rightarrow> SingleOut" where
  "close_out (LDJSONOut w) = LDJSONOut (Flush w)"
| "close_out (BinaryFile b) = BinaryFile (b\<lparr>bwriter := Flush (bwriter b)\<rparr>)"
| "close_out (ReqRespOut l w) = ReqRespOut l (Flush w)"

section \<open>\<open>Output\<close>\<close>

record Output =
  Outs :: "SingleOut list"
  strIndex :: "table option"

record OutputConf =
  LDJSONFile :: string
  ReqRespFile :: string
  ReqRespFileLevel :: u16
  BinaryFileName :: string
  StringsFile :: string

definition NewOutput :: "disk \<Rightarrow> OutputConf \<Rightarrow> Output go" where
  "NewOutput d conf =
     go_bind
       (if StringsFile conf \<noteq> '''' then map_sum id Some (NewStringIndex d (StringsFile conf) False)
        else Inr None) (\<lambda>si.
     let create = (\<lambda>name out outs. if name = '''' then Inr outs
           else if can_write d name then Inr (outs @ [out]) else Inl (PanicMsg ''open''))
     in go_bind (create (LDJSONFile conf) (LDJSONOut new_bufw) []) (\<lambda>outs.
        go_bind (create (BinaryFileName conf) (BinaryFile \<lparr>bwriter = new_bufw, lastTS = 0\<rparr>) outs) (\<lambda>outs.
        go_bind (create (ReqRespFile conf) (ReqRespOut (ReqRespFileLevel conf) new_bufw) outs) (\<lambda>outs.
        Inr \<lparr>Outs = outs, strIndex = map_option (\<lambda>s. (d, s)) si\<rparr>))))"

text \<open>
  One turn of \<open>background\<close>: the item, which the outputs fill in as it passes, goes to each of
  them.
\<close>

fun push_all ::
  "table option \<Rightarrow> OutputItem \<Rightarrow> SingleOut list \<Rightarrow> (table option \<times> OutputItem \<times> SingleOut list) go" where
  "push_all p i [] = Inr (p, i, [])"
| "push_all p i (b # os) =
     go_bind (push_out p i b) (\<lambda>(p, i, b').
     go_bind (push_all p i os) (\<lambda>(p, i, os'). Inr (p, i, b' # os')))"

definition background :: "Output \<Rightarrow> OutputItem \<Rightarrow> Output go" where
  "background out i =
     go_bind (push_all (strIndex out) i (Outs out)) (\<lambda>(p, _, os). Inr \<lparr>Outs = os, strIndex = p\<rparr>)"

definition Close :: "Output \<Rightarrow> Output" where
  "Close out = out\<lparr>Outs := map close_out (Outs out)\<rparr>"

section \<open>Numbered strings resolve\<close>

definition numbered :: "('s \<Rightarrow> u16 \<Rightarrow> string go) \<Rightarrow> 's \<Rightarrow> OutputItem \<Rightarrow> OutputItem \<Rightarrow> bool" where
  "numbered get t i i' =
     (i' = i\<lparr>ErrorStrIdx := ErrorStrIdx i', OutLabelIdx := OutLabelIdx i'\<rparr>
      \<and> (case Error i of
           Some e \<Rightarrow> if ErrorStrIdx i = 0 then get t (ErrorStrIdx i') = Inr e else ErrorStrIdx i' = ErrorStrIdx i
         | None \<Rightarrow> ErrorStrIdx i' = ErrorStrIdx i)
      \<and> (if OutLabel i \<noteq> '''' \<and> OutLabelIdx i = 0 then get t (OutLabelIdx i') = Inr (OutLabel i)
         else OutLabelIdx i' = OutLabelIdx i))"

lemma numbered_mono:
  "numbered get t i i' \<Longrightarrow> \<forall>j m. get t j = Inr m \<longrightarrow> get t' j = Inr m \<Longrightarrow> numbered get t' i i'"
  by (auto simp: numbered_def split: option.splits if_splits)

context string_table begin

lemma intern_ok:
  assumes "inv t" "0 < free t"
  obtains t' k where "intern t l = Inr (t', k)" "inv t'" "free t \<le> Suc (free t')" "get t' k = Inr l"
    "\<forall>j m. get t j = Inr m \<longrightarrow> get t' j = Inr m"
  using intern_returns [OF assms, of l] intern_inv [OF assms, of l] intern_free [OF assms(1), of l]
    intern_get [OF assms, of l] intern_keeps [OF assms, of l]
  by metis

lemma number_strings_ok:
  assumes "inv t" "2 \<le> free t"
  shows "\<exists>t' i'. number_strings intern t i = Inr (t', i') \<and> inv t' \<and> free t \<le> free t' + 2
    \<and> numbered get t' i i' \<and> (\<forall>j m. get t j = Inr m \<longrightarrow> get t' j = Inr m)"
proof -
  have "\<exists>t1 i1. (case Error i of
          Some e \<Rightarrow> if ErrorStrIdx i = 0 then go_bind (intern t e) (\<lambda>(t, k). Inr (t, i\<lparr>ErrorStrIdx := k\<rparr>))
                    else Inr (t, i)
        | None \<Rightarrow> Inr (t, i)) = Inr (t1, i1) \<and> inv t1 \<and> free t \<le> Suc (free t1)
      \<and> i1 = i\<lparr>ErrorStrIdx := ErrorStrIdx i1\<rparr>
      \<and> (case Error i of
           Some e \<Rightarrow> if ErrorStrIdx i = 0 then get t1 (ErrorStrIdx i1) = Inr e else ErrorStrIdx i1 = ErrorStrIdx i
         | None \<Rightarrow> ErrorStrIdx i1 = ErrorStrIdx i)
      \<and> (\<forall>j m. get t j = Inr m \<longrightarrow> get t1 j = Inr m)"
  proof (cases "Error i \<noteq> None \<and> ErrorStrIdx i = 0")
    case True
    then obtain e where e: "Error i = Some e" by auto
    obtain t1 k where "intern t e = Inr (t1, k)" "inv t1" "free t \<le> Suc (free t1)" "get t1 k = Inr e"
      "\<forall>j m. get t j = Inr m \<longrightarrow> get t1 j = Inr m"
      using intern_ok [OF assms(1), of e] assms(2) by auto
    then show ?thesis using True e by auto
  next
    case False
    then show ?thesis using assms(1) by (cases i) (auto split: option.splits)
  qed
  then obtain t1 i1 where
    1: "(case Error i of
          Some e \<Rightarrow> if ErrorStrIdx i = 0 then go_bind (intern t e) (\<lambda>(t, k). Inr (t, i\<lparr>ErrorStrIdx := k\<rparr>))
                    else Inr (t, i)
        | None \<Rightarrow> Inr (t, i)) = Inr (t1, i1)" "inv t1" "free t \<le> Suc (free t1)"
      "i1 = i\<lparr>ErrorStrIdx := ErrorStrIdx i1\<rparr>"
      "case Error i of
           Some e \<Rightarrow> if ErrorStrIdx i = 0 then get t1 (ErrorStrIdx i1) = Inr e else ErrorStrIdx i1 = ErrorStrIdx i
         | None \<Rightarrow> ErrorStrIdx i1 = ErrorStrIdx i"
      "\<forall>j m. get t j = Inr m \<longrightarrow> get t1 j = Inr m"
    by blast
  have sel: "OutLabel i1 = OutLabel i" "OutLabelIdx i1 = OutLabelIdx i"
    by (subst 1(4), simp)+
  show ?thesis
  proof (cases "OutLabel i \<noteq> '''' \<and> OutLabelIdx i = 0")
    case True
    have "0 < free t1" using 1(3) assms(2) by linarith
    from intern_ok [OF 1(2) this, of "OutLabel i"] obtain t2 k where
      2: "intern t1 (OutLabel i) = Inr (t2, k)" "inv t2" "free t1 \<le> Suc (free t2)" "get t2 k = Inr (OutLabel i)"
        "\<forall>j m. get t1 j = Inr m \<longrightarrow> get t2 j = Inr m" by metis
    have "number_strings intern t i = Inr (t2, i1\<lparr>OutLabelIdx := k\<rparr>)"
      using True by (simp add: number_strings_def 1(1) sel 2(1))
    moreover have "numbered get t2 i (i1\<lparr>OutLabelIdx := k\<rparr>)"
      using True 1(4,5) 2(4,5) by (cases i; cases i1) (auto simp: numbered_def split: option.splits if_splits)
    ultimately show ?thesis using 1(3,6) 2(2,3,5) by auto
  next
    case False
    then have "number_strings intern t i = Inr (t1, i1)"
      by (auto simp: number_strings_def 1(1) sel)
    moreover have "numbered get t1 i i1"
      using False 1(4,5) by (cases i; cases i1) (auto simp: numbered_def split: option.splits if_splits)
    ultimately show ?thesis using 1(2,3,6) by auto
  qed
qed

end

section \<open>A whole run of the output\<close>

text \<open>The results in the order they are received, and then \<open>Close\<close>.\<close>

definition run_output :: "Output \<Rightarrow> OutputItem list \<Rightarrow> Output go" where
  "run_output out items = map_sum id Close (go_fold background out items)"

definition binary_output :: "table option \<Rightarrow> BinaryOut \<Rightarrow> Output" where
  "binary_output p b = \<lparr>Outs = [BinaryFile b], strIndex = p\<rparr>"

lemma background_binary:
  "background (binary_output p b) i
    = go_bind (push_binary p i b) (\<lambda>(p, _, b). Inr (binary_output p b))"
  by (simp add: background_def binary_output_def go_bind_def split: sum.splits prod.splits)

lemma binary_run:
  assumes "ptr_inv p" "2 * length items \<le> ptr_room p"
  shows "\<exists>p' b' items'. go_fold background (binary_output p b) items = Inr (binary_output p' b')
    \<and> on_file (bwriter b') = on_file (bwriter b) @ concat (map WriteBinary items')
    \<and> list_all2 (numbered ptr_get p') items items'
    \<and> (\<forall>j m. ptr_get p j = Inr m \<longrightarrow> ptr_get p' j = Inr m)"
  using assms
proof (induction items arbitrary: p b)
  case (Cons i items)
  obtain p1 i' where 1: "number_strings idx_ptr p i = Inr (p1, i')" "ptr_inv p1" "ptr_room p \<le> ptr_room p1 + 2"
      "numbered ptr_get p1 i i'" "\<forall>j m. ptr_get p j = Inr m \<longrightarrow> ptr_get p1 j = Inr m"
    using strptr.number_strings_ok [OF Cons.prems(1), of i] Cons.prems(2) by auto
  define w where "w = bw_write (bwriter b) (WriteBinary i')"
  define b1 where "b1 = (if lastTS b < StartTS i' then \<lparr>bwriter = Flush w, lastTS = StartTS i'\<rparr> else b\<lparr>bwriter := w\<rparr>)"
  have push: "push_binary p i b = Inr (p1, i', b1)"
    by (simp add: push_binary_def 1(1) Let_def w_def b1_def)
  have onf: "on_file (bwriter b1) = on_file (bwriter b) @ WriteBinary i'"
    by (simp add: b1_def w_def)
  have "2 * length items \<le> ptr_room p1" using 1(3) Cons.prems(2) by simp
  from Cons.IH [OF 1(2) this, of b1] obtain p' b' items' where
    2: "go_fold background (binary_output p1 b1) items = Inr (binary_output p' b')"
      "on_file (bwriter b') = on_file (bwriter b1) @ concat (map WriteBinary items')"
      "list_all2 (numbered ptr_get p') items items'"
      "\<forall>j m. ptr_get p1 j = Inr m \<longrightarrow> ptr_get p' j = Inr m"
    by blast
  have "numbered ptr_get p' i i'" by (rule numbered_mono [OF 1(4) 2(4)])
  with 1(5) 2 show ?case
    by (intro exI [of _ p'] exI [of _ b'] exI [of _ "i' # items'"])
      (simp add: background_binary push onf)
qed auto

lemma go_fold_ldjson:
  assumes "\<forall>i \<in> set items. OutLabel i \<noteq> '''' \<or> OutLabelIdx i = 0"
  shows "\<exists>w' items'. go_fold background \<lparr>Outs = [LDJSONOut w], strIndex = p\<rparr> items
      = Inr \<lparr>Outs = [LDJSONOut w'], strIndex = p\<rparr>
    \<and> on_file w' = on_file w @ unlines (map (\<lambda>i. item_json i @ [CR]) items')
    \<and> list_all2 (\<lambda>i i'. i' = i\<lparr>ErrorStr := (case Error i of Some e \<Rightarrow> e | None \<Rightarrow> ErrorStr i)\<rparr>) items items'"
  using assms
proof (induction items arbitrary: w)
  case (Cons i items)
  define i' where "i' = i\<lparr>ErrorStr := (case Error i of Some e \<Rightarrow> e | None \<Rightarrow> ErrorStr i)\<rparr>"
  have "StringFriendly s i = Inr i'" for s
    using Cons.prems by (cases i) (auto simp: StringFriendly_def i'_def Let_def split: option.splits)
  then have step: "background \<lparr>Outs = [LDJSONOut w], strIndex = p\<rparr> i
      = Inr \<lparr>Outs = [LDJSONOut (bw_write w (item_json i' @ [CR, LF]))], strIndex = p\<rparr>"
    by (simp add: background_def push_ldjson_def)
  obtain w' items' where *: "go_fold background \<lparr>Outs = [LDJSONOut (bw_write w (item_json i' @ [CR, LF]))],
      strIndex = p\<rparr> items = Inr \<lparr>Outs = [LDJSONOut w'], strIndex = p\<rparr>"
    "on_file w' = on_file (bw_write w (item_json i' @ [CR, LF])) @ unlines (map (\<lambda>i. item_json i @ [CR]) items')"
    "list_all2 (\<lambda>i i'. i' = i\<lparr>ErrorStr := (case Error i of Some e \<Rightarrow> e | None \<Rightarrow> ErrorStr i)\<rparr>) items items'"
    using Cons.IH [of "bw_write w (item_json i' @ [CR, LF])"] Cons.prems by auto
  then show ?case
    by (intro exI [of _ w'] exI [of _ "i' # items'"]) (simp add: step i'_def)
qed auto

section \<open>Numbers keep their meaning\<close>

definition keeps_numbers :: "table option \<Rightarrow> table option \<Rightarrow> bool" where
  "keeps_numbers p p' = (\<forall>j m. ptr_get p j = Inr m \<longrightarrow> ptr_get p' j = Inr m)"

lemma keeps_numbers_refl: "keeps_numbers p p"
  by (simp add: keeps_numbers_def)

lemma keeps_numbers_trans: "keeps_numbers p q \<Longrightarrow> keeps_numbers q r \<Longrightarrow> keeps_numbers p r"
  by (simp add: keeps_numbers_def)

lemma idx_ptr_keeps: "idx_ptr p l = Inr (p', i) \<Longrightarrow> keeps_numbers p p'"
proof -
  assume "idx_ptr p l = Inr (p', i)"
  then obtain d s d' s' where p: "p = Some (d, s)" "p' = Some (d', s')" "Idx (d, s) l = Inr ((d', s'), i)"
    by (auto simp: idx_ptr_def go_convs split: option.splits)
  have "prefix (index s) (index s')"
    using p(3) by (cases rule: Idx_cases) (auto dest: appendFile_sel(1))
  then show ?thesis
    by (auto simp: keeps_numbers_def p(1,2) ptr_get_def get_string_def Get_Inr prefix_def nth_append)
qed

lemma number_strings_keeps: "number_strings idx_ptr p i = Inr (p', i') \<Longrightarrow> keeps_numbers p p'"
  by (auto simp: number_strings_def go_convs split: option.splits if_splits
      intro: idx_ptr_keeps keeps_numbers_refl keeps_numbers_trans)

lemma push_out_keeps: "push_out p i b = Inr (p', i', b') \<Longrightarrow> keeps_numbers p p'"
  by (cases b) (auto simp: push_binary_def Let_def go_convs intro: number_strings_keeps keeps_numbers_refl)

lemma push_all_keeps: "push_all p i os = Inr (p', i', os') \<Longrightarrow> keeps_numbers p p'"
proof (induction os arbitrary: p i os')
  case (Cons b os)
  then show ?case
    by (auto simp: go_convs) (blast intro: push_out_keeps keeps_numbers_trans)
qed (simp add: keeps_numbers_refl)

lemma background_keeps: "background out i = Inr out' \<Longrightarrow> keeps_numbers (strIndex out) (strIndex out')"
  by (auto simp: background_def go_convs intro: push_all_keeps)

lemma fold_background_keeps:
  "go_fold background out items = Inr out' \<Longrightarrow> keeps_numbers (strIndex out) (strIndex out')"
proof (induction items arbitrary: out)
  case (Cons i items)
  then obtain out1 where "background out i = Inr out1" "go_fold background out1 items = Inr out'"
    by (auto simp: go_convs)
  with Cons.IH [of out1] show ?case
    using background_keeps keeps_numbers_trans by blast
qed (simp add: keeps_numbers_refl)

lemma run_output_keeps: "run_output out items = Inr out' \<Longrightarrow> keeps_numbers (strIndex out) (strIndex out')"
  using fold_background_keeps [of out items]
  by (cases "go_fold background out items") (auto simp: run_output_def Close_def)

section \<open>Properties\<close>

text \<open>
  Every result handed to the binary output can be read back: after \<open>Close\<close> the file is the
  records of the items in order, a reader gets them however it cuts the file, and the numbers
  of error and label that were given resolve, in the strings index as it is then, to the error
  and the label of their item.
\<close>

theorem binary_output_readable:
  assumes "ptr_inv p" "2 * length items \<le> ptr_room p"
  shows "\<exists>p' b' items'. run_output (binary_output p \<lparr>bwriter = new_bufw, lastTS = 0\<rparr>) items = Inr (binary_output p' b')
    \<and> written (bwriter b') = concat (map WriteBinary items')
    \<and> list_all2 (numbered ptr_get p') items items'
    \<and> read_passes unpack_sample chunk_len [] [written (bwriter b')] = (map sample_of items', [])"
proof -
  obtain p' b' items' where *: "go_fold background (binary_output p \<lparr>bwriter = new_bufw, lastTS = 0\<rparr>) items
      = Inr (binary_output p' b')"
    "on_file (bwriter b') = concat (map WriteBinary items')" "list_all2 (numbered ptr_get p') items items'"
    using binary_run [OF assms, of "\<lparr>bwriter = new_bufw, lastTS = 0\<rparr>"] by auto
  let ?b = "b'\<lparr>bwriter := Flush (bwriter b')\<rparr>"
  have "list_all sample_ok (map sample_of items')"
    by (simp add: list_all_iff sample_of_ok)
  moreover have "concat [written (bwriter ?b)] = concat (map pack_sample (map sample_of items'))"
    using *(2) by (simp add: WriteBinary_pack comp_def cong: map_cong)
  ultimately have "read_passes unpack_sample chunk_len [] [written (bwriter ?b)] = (map sample_of items', [])"
    by (rule sample.read_records)
  moreover have "run_output (binary_output p \<lparr>bwriter = new_bufw, lastTS = 0\<rparr>) items = Inr (binary_output p' ?b)"
    by (simp add: run_output_def *(1)) (simp add: Close_def binary_output_def)
  ultimately show ?thesis using * by (intro exI [of _ p'] exI [of _ ?b] exI [of _ items']) simp
qed

definition example_table :: "table option" where
  "example_table = Some (no_disk, fresh_index '''' False)"

lemma example_table_ok: "ptr_inv example_table" "ptr_room example_table = 65535"
  by (simp_all add: example_table_def ptr_inv_def table_inv_def can_append_def ptr_room_def room_def
      u16_values_def) (simp_all add: fresh_index_def)

theorem binary_output_readable_witness:
  "\<exists>p' b' items'. run_output (binary_output example_table \<lparr>bwriter = new_bufw, lastTS = 0\<rparr>)
        [example_result ''x'', EndWithError ''EOF'' (example_result ''y'')] = Inr (binary_output p' b')
    \<and> written (bwriter b') = concat (map WriteBinary items') \<and> length items' = 2
    \<and> ptr_get p' (ErrorStrIdx (items' ! 1)) = Inr ''EOF'' \<and> ptr_get p' (OutLabelIdx (items' ! 0)) = Inr ''newlabel''"
proof -
  let ?items = "[example_result ''x'', EndWithError ''EOF'' (example_result ''y'')]"
  from binary_output_readable [OF example_table_ok(1), of ?items] obtain p' b' items' where
    *: "run_output (binary_output example_table \<lparr>bwriter = new_bufw, lastTS = 0\<rparr>) ?items = Inr (binary_output p' b')"
      "written (bwriter b') = concat (map WriteBinary items')" "list_all2 (numbered ptr_get p') ?items items'"
    by (auto simp: example_table_ok)
  then obtain i' j' where i': "items' = [i', j']" "numbered ptr_get p' (?items ! 0) i'"
      "numbered ptr_get p' (?items ! 1) j'"
    by (auto simp: list_all2_Cons1)
  then have "ptr_get p' (ErrorStrIdx j') = Inr ''EOF''" "ptr_get p' (OutLabelIdx i') = Inr ''newlabel''"
    by (simp_all add: numbered_def EndWithError_def example_result_def)
  with * i'(1) show ?thesis by (intro exI [of _ p'] exI [of _ b'] exI [of _ items']) simp
qed

text \<open>
  C33: the LDJSON file has, for every result, in order, one line that is its JSON, and nothing
  else, whatever bytes labels and errors hold; a JSON reader gets from each line the object of that
  result.
\<close>

theorem ldjson_file_lines:
  assumes "\<forall>i \<in> set items. OutLabel i \<noteq> '''' \<or> OutLabelIdx i = 0"
  shows "\<exists>w' items'. run_output \<lparr>Outs = [LDJSONOut new_bufw], strIndex = p\<rparr> items
      = Inr \<lparr>Outs = [LDJSONOut w'], strIndex = p\<rparr>
    \<and> map drop_cr (raw_lines (written w')) = map item_json items'
    \<and> map parse_json (map drop_cr (raw_lines (written w'))) = map (Some \<circ> item_object) items'
    \<and> list_all2 (\<lambda>i i'. i' = i\<lparr>ErrorStr := (case Error i of Some e \<Rightarrow> e | None \<Rightarrow> ErrorStr i)\<rparr>) items items'"
proof -
  obtain w' items' where *: "go_fold background \<lparr>Outs = [LDJSONOut new_bufw], strIndex = p\<rparr> items
      = Inr \<lparr>Outs = [LDJSONOut w'], strIndex = p\<rparr>"
    "on_file w' = unlines (map (\<lambda>i. item_json i @ [CR]) items')"
    "list_all2 (\<lambda>i i'. i' = i\<lparr>ErrorStr := (case Error i of Some e \<Rightarrow> e | None \<Rightarrow> ErrorStr i)\<rparr>) items items'"
    using go_fold_ldjson [OF assms, of new_bufw p] by auto
  have "LF \<notin> set (item_json i)" for i
    using printable_no_line item_json_printable by blast
  then have "raw_lines (written (Flush w')) = map (\<lambda>i. item_json i @ [CR]) items'"
    unfolding on_file_flush(2) *(2) by (intro raw_lines_unlines) auto
  then have "map drop_cr (raw_lines (written (Flush w'))) = map item_json items'"
    by (simp add: drop_cr_def)
  then show ?thesis
    using * by (intro exI [of _ "Flush w'"] exI [of _ items']) (simp add: run_output_def Close_def parse_item_json)
qed

theorem ldjson_file_lines_witness:
  "\<exists>w' items'. run_output \<lparr>Outs = [LDJSONOut new_bufw], strIndex = None\<rparr> [EndWithError [LF, CR] (example_result ''x'')]
      = Inr \<lparr>Outs = [LDJSONOut w'], strIndex = None\<rparr>
    \<and> map drop_cr (raw_lines (written w')) = map item_json items' \<and> length items' = 1"
proof -
  have "\<forall>i \<in> set [EndWithError [LF, CR] (example_result ''x'')]. OutLabel i \<noteq> '''' \<or> OutLabelIdx i = 0"
    by (simp add: EndWithError_def example_result_def)
  from ldjson_file_lines [OF this, of None] show ?thesis
    using list_all2_lengthD by fastforce
qed

text \<open>
  Without a strings file the binary output ends the process at the first result that has a
  label or an error: the numbers come from an index that is not there.
\<close>

theorem binary_without_strings_panics:
  assumes "Error i \<noteq> None \<and> ErrorStrIdx i = 0 \<or> OutLabel i \<noteq> '''' \<and> OutLabelIdx i = 0"
  shows "run_output (binary_output None b) (i # items) = Inl NilDeref"
proof -
  have "push_binary None i b = Inl NilDeref"
    using assms by (auto simp: push_binary_def number_strings_def idx_ptr_def split: option.splits)
  then show ?thesis by (simp add: run_output_def background_binary)
qed

theorem binary_without_strings_panics_witness:
  "run_output (binary_output None \<lparr>bwriter = new_bufw, lastTS = 0\<rparr>) [example_result ''x''] = Inl NilDeref"
  by (rule binary_without_strings_panics) (simp add: example_result_def)

end
