(* ===== verification/Status_Counters.thy ===== *)
theory Status_Counters
  imports Prelude
begin

text \<open>
  \<open>pkg/core/status.go\<close>: the counters all workers share, and the line of health figures logged
  every second.  The counters are \<open>int64\<close>; three of the operations panic when their counter
  has become negative.
\<close>

record Status =
  sleeping :: int
  busy :: int
  working :: int
  waiting :: int
  missed :: int
  reqs :: int

definition NewStatus :: Status where
  "NewStatus = \<lparr>sleeping = 0, busy = 0, working = 0, waiting = 0, missed = 0, reqs = 0\<rparr>"

definition not_negative :: "int \<Rightarrow> Status \<Rightarrow> Status go" where
  "not_negative n o' = (if n < 0 then Inl (PanicMsg ''Counter cannot be negative'') else Inr o')"

definition IncWaiting :: "Status \<Rightarrow> Status" where
  "IncWaiting s = s\<lparr>waiting := wrap64 (waiting s + 1)\<rparr>"

definition DecWaiting :: "Status \<Rightarrow> Status" where
  "DecWaiting s = s\<lparr>waiting := wrap64 (waiting s - 1)\<rparr>"

definition IncWorking :: "Status \<Rightarrow> Status" where
  "IncWorking s = s\<lparr>working := wrap64 (working s + 1)\<rparr>"

definition DecWorking :: "Status \<Rightarrow> Status go" where
  "DecWorking s = (let s' = s\<lparr>working := wrap64 (working s - 1)\<rparr> in not_negative (working s') s')"

definition IncSleeping :: "Status \<Rightarrow> Status go" where
  "IncSleeping s = (let s' = s\<lparr>sleeping := wrap64 (sleeping s + 1)\<rparr> in not_negative (sleeping s') s')"

definition DecSleeping :: "Status \<Rightarrow> Status" where
  "DecSleeping s = s\<lparr>sleeping := wrap64 (sleeping s - 1)\<rparr>"

definition IncBusy :: "Status \<Rightarrow> Status" where
  "IncBusy s = s\<lparr>busy := wrap64 (busy s + 1)\<rparr>"

definition DecBusy :: "Status \<Rightarrow> Status go" where
  "DecBusy s = (let s' = s\<lparr>busy := wrap64 (busy s - 1)\<rparr> in not_negative (busy s') s')"

definition StartMissed :: "duration \<Rightarrow> Status \<Rightarrow> Status" where
  "StartMissed sub s = s\<lparr>missed := wrap64 (missed s + sub), reqs := wrap64 (reqs s + 1)\<rparr>"

section \<open>The health line\<close>

text \<open>
  The division of \<open>int64\<close> truncates.  \<open>Duration.Round\<close> rounds half away from zero and
  saturates.
\<close>

definition quot64 :: "int \<Rightarrow> int \<Rightarrow> int" where
  "quot64 a b = wrap64 (sgn a * sgn b * (\<bar>a\<bar> div \<bar>b\<bar>))"

definition rem64 :: "int \<Rightarrow> int \<Rightarrow> int" where
  "rem64 a b = sgn a * (\<bar>a\<bar> mod \<bar>b\<bar>)"

definition Round :: "duration \<Rightarrow> duration \<Rightarrow> duration" where
  "Round d m =
     (if m \<le> 0 then d
      else
        let r = rem64 d m
        in if d < 0 then
             (let r = - r
              in if r + r < m then d + r
                 else if wrap64 (d - m + r) < d then wrap64 (d - m + r) else - (2 ^ 63))
           else if r + r < m then d - r
           else if d < wrap64 (d + m - r) then wrap64 (d + m - r) else 2 ^ 63 - 1)"

record health =
  hWaiting :: int
  hWorking :: int
  hSleeping :: int
  hBusy :: int
  hLag :: duration
  hReqs :: int

text \<open>One tick: the counters are read, the lag and the number of requests are taken and reset.\<close>

definition tick :: "Status \<Rightarrow> Status \<times> health" where
  "tick s =
     (let miss = (if 0 < reqs s then Round (quot64 (missed s) (reqs s)) (10 * Millisecond) else 0)
      in (s\<lparr>missed := 0, reqs := 0\<rparr>,
          \<lparr>hWaiting = waiting s, hWorking = working s, hSleeping = sleeping s, hBusy = busy s,
           hLag = miss, hReqs = reqs s\<rparr>))"

section \<open>The lag is the mean to within the rounding\<close>

lemma Round_near:
  assumes "0 < m" "\<bar>d\<bar> + m < 2 ^ 63"
  shows "m dvd Round d m \<and> 2 * \<bar>Round d m - d\<bar> \<le> m"
proof -
  define r where "r = \<bar>d\<bar> mod m"
  have r: "0 \<le> r" "r < m" using assms(1) by (simp_all add: r_def)
  have dv: "m dvd \<bar>d\<bar> - r" "m dvd \<bar>d\<bar> - r + m" by (simp_all add: r_def minus_mod_eq_mult_div)
  have rem: "rem64 d m = sgn d * r" using assms(1) by (simp add: rem64_def r_def)
  show ?thesis
  proof (cases "d < 0")
    case True
    have "wrap64 (d - m + r) = d - m + r"
      using assms r True by (intro wrap64_id) (simp add: fits64_def)
    moreover have "m dvd d + r" "m dvd d - m + r"
    proof -
      have "m dvd - (\<bar>d\<bar> - r)" "m dvd - (\<bar>d\<bar> - r + m)" using dv by (simp_all only: dvd_minus_iff)
      then show "m dvd d + r" "m dvd d - m + r" using True by (simp_all add: algebra_simps)
    qed
    ultimately show ?thesis
      using True r assms(1) by (auto simp: Round_def rem Let_def)
  next
    case False
    have "wrap64 (d + m - r) = d + m - r"
      using assms r False by (intro wrap64_id) (simp add: fits64_def)
    moreover have "m dvd d - r" "m dvd d + m - r" using dv False by (simp_all add: algebra_simps)
    moreover have "rem64 d m = r" using False by (cases "d = 0") (simp_all add: rem, simp_all add: r_def rem64_def)
    ultimately show ?thesis
      using False r assms(1) by (auto simp: Round_def Let_def)
  qed
qed

lemma quot64_near:
  assumes "0 < b" "\<bar>a\<bar> < 2 ^ 63"
  shows "\<bar>quot64 a b * b - a\<bar> < b" "\<bar>quot64 a b\<bar> \<le> \<bar>a\<bar>"
proof -
  define q r where "q = \<bar>a\<bar> div b" and "r = \<bar>a\<bar> mod b"
  have q: "\<bar>a\<bar> = b * q + r" "0 \<le> r" "r < b" "0 \<le> q"
    using assms(1) by (simp_all add: q_def r_def pos_imp_zdiv_nonneg_iff)
  have "1 * q \<le> b * q" using assms(1) q(4) by (intro mult_right_mono) auto
  then have le: "q \<le> \<bar>a\<bar>" using q(1,2) by linarith
  then have "fits64 (sgn a * q)"
    using assms(2) q(4) by (auto simp: fits64_def sgn_if)
  then have eq: "quot64 a b = sgn a * q"
    using assms(1) by (simp add: quot64_def q_def)
  show "\<bar>quot64 a b\<bar> \<le> \<bar>a\<bar>" using le q(4) by (simp add: eq abs_mult abs_sgn_eq)
  show "\<bar>quot64 a b * b - a\<bar> < b"
    using q by (auto simp: eq sgn_if abs_if algebra_simps split: if_splits)
qed

text \<open>The requests of one second.\<close>

definition start_all :: "duration list \<Rightarrow> Status \<Rightarrow> Status" where
  "start_all subs s = foldl (\<lambda>s d. StartMissed d s) s subs"

lemma start_all_sums:
  assumes "\<bar>missed s\<bar> + (\<Sum>d\<leftarrow>subs. \<bar>d\<bar>) < 2 ^ 63" "0 \<le> reqs s" "reqs s + int (length subs) < 2 ^ 63"
  shows "missed (start_all subs s) = missed s + sum_list subs"
    "reqs (start_all subs s) = reqs s + int (length subs)"
proof -
  have "missed (start_all subs s) = missed s + sum_list subs
      \<and> reqs (start_all subs s) = reqs s + int (length subs)"
    using assms
  proof (induction subs arbitrary: s)
    case (Cons d subs)
    have nn: "0 \<le> (\<Sum>d\<leftarrow>subs. \<bar>d\<bar>)" by (rule sum_list_nonneg) auto
    have "fits64 (missed s + d)" "fits64 (reqs s + 1)"
      using Cons.prems nn by (auto simp: fits64_def)
    then have s': "missed (StartMissed d s) = missed s + d" "reqs (StartMissed d s) = reqs s + 1"
      by (simp_all add: StartMissed_def)
    have "missed (start_all subs (StartMissed d s)) = missed (StartMissed d s) + sum_list subs
        \<and> reqs (start_all subs (StartMissed d s)) = reqs (StartMissed d s) + int (length subs)"
      using Cons.prems s' by (intro Cons.IH) auto
    then show ?case using s' by (simp add: start_all_def)
  qed (simp add: start_all_def)
  then show "missed (start_all subs s) = missed s + sum_list subs"
    "reqs (start_all subs s) = reqs s + int (length subs)" by simp_all
qed

section \<open>Properties\<close>

text \<open>
  The health line of a second tells the number of requests started in it and, as lag, the
  mean of how late they were, rounded to 10 milliseconds; the tick starts both afresh and
  leaves the other counters alone.
\<close>

theorem health_line_lag:
  assumes "missed s = 0" "reqs s = 0" "subs \<noteq> []" "(\<Sum>d\<leftarrow>subs. \<bar>d\<bar>) < 2 ^ 62" "int (length subs) < 2 ^ 63"
    and "tick (start_all subs s) = (s', h)"
  shows "hReqs h = int (length subs)
    \<and> 2 * \<bar>hLag h * int (length subs) - sum_list subs\<bar> < int (length subs) * (10 * Millisecond + 2)
    \<and> 10 * Millisecond dvd hLag h \<and> s' = s"
proof -
  let ?n = "int (length subs)" and ?t = "sum_list subs" and ?ms = "10 * Millisecond"
  have n: "0 < ?n" using assms(3) by (cases subs) auto
  have sums: "missed (start_all subs s) = ?t" "reqs (start_all subs s) = ?n"
    using start_all_sums [of s subs] assms(1,2,4,5) by simp_all
  have t: "\<bar>?t\<bar> < 2 ^ 62" using sum_list_abs [of subs] assms(4) by linarith
  define q where "q = quot64 ?t ?n"
  have q: "\<bar>q * ?n - ?t\<bar> < ?n" "\<bar>q\<bar> \<le> \<bar>?t\<bar>"
    using quot64_near [OF n, of ?t] t by (simp_all add: q_def)
  have lag: "hLag h = Round q ?ms" and reqs: "hReqs h = ?n"
    and s': "s' = (start_all subs s)\<lparr>missed := 0, reqs := 0\<rparr>"
    using assms(6) n by (auto simp: tick_def Let_def sums q_def)
  have r: "?ms dvd Round q ?ms" "2 * \<bar>Round q ?ms - q\<bar> \<le> ?ms"
    using Round_near [of ?ms q] q(2) t by simp_all
  have "\<bar>Round q ?ms * ?n - ?t\<bar> \<le> \<bar>Round q ?ms - q\<bar> * ?n + \<bar>q * ?n - ?t\<bar>"
  proof -
    have "Round q ?ms * ?n - ?t = (Round q ?ms - q) * ?n + (q * ?n - ?t)" by (simp add: algebra_simps)
    then show ?thesis using abs_triangle_ineq [of "(Round q ?ms - q) * ?n" "q * ?n - ?t"] n
      by (simp add: abs_mult)
  qed
  moreover have "2 * \<bar>Round q ?ms - q\<bar> * ?n \<le> ?ms * ?n" using r(2) n by (intro mult_right_mono) auto
  ultimately have "2 * \<bar>Round q ?ms * ?n - ?t\<bar> < ?n * (?ms + 2)"
    using q(1) by (simp add: algebra_simps)
  moreover have "(start_all subs s)\<lparr>missed := 0, reqs := 0\<rparr> = s"
  proof -
    have "(start_all subs s)\<lparr>missed := 0, reqs := 0\<rparr> = s\<lparr>missed := 0, reqs := 0\<rparr>"
      unfolding start_all_def by (induction subs arbitrary: s) (simp_all add: StartMissed_def)
    then show ?thesis using assms(1,2) by simp
  qed
  ultimately show ?thesis using lag reqs r(1) s' by simp
qed

theorem health_line_lag_witness:
  "(case tick (start_all [5000000, 20000000, 0] NewStatus) of
     (s', h) \<Rightarrow> hReqs h = 3 \<and> hLag h = 10 * Millisecond \<and> s' = NewStatus)"
proof -
  obtain s' h where t: "tick (start_all [5000000, 20000000, 0] NewStatus) = (s', h)" by fastforce
  from health_line_lag [OF _ _ _ _ _ t] have "hReqs h = 3 \<and> s' = NewStatus"
    by (simp add: NewStatus_def)
  moreover have "hLag (snd (tick (start_all [5000000, 20000000, 0] NewStatus))) = 10 * Millisecond"
    by code_simp
  ultimately show ?thesis by (simp add: t)
qed

end
