(* ===== verification/Http_Address.thy ===== *)
theory Http_Address
  imports Output_Items
begin

text \<open>
  Where a request goes: what \<open>pkg/http/nib.go\<close> reads off the payload (\<open>getHostAndConnHeaderValues\<close>)
  and how \<open>pkg/http/conn.go\<close> makes an address to dial of the item's address.
\<close>

section \<open>The payload's headers\<close>

definition host_header :: "bytes \<Rightarrow> bool" where
  "host_header hname = (hname = ''Host'' \<or> hname = ''host'')"

definition conn_header :: "bytes \<Rightarrow> bool" where
  "conn_header hname = (hname = ''Connection'' \<or> hname = ''connection'')"

text \<open>
  The loop over the header lines, which ends at a line of less than two bytes or where there is no
  line feed; the rest is the body.
\<close>

function read_headers :: "string \<Rightarrow> bool \<Rightarrow> bytes \<Rightarrow> string \<times> bool \<times> bytes" where
  "read_headers host close payload =
     (case cut LF payload of
        (before, after, found) \<Rightarrow>
          if \<not> found \<or> length before < 2 then (host, close, after)
          else case cut (CHR '':'') before of
            (hname, hval, _) \<Rightarrow>
              read_headers (if host_header hname then TrimSpace hval else host)
                (if conn_header hname then TrimSpace hval = ''close'' else close) after)"
  by pat_completeness auto
termination
  by (relation "measure (\<lambda>(_, _, s). length s)") (auto dest!: cut_shorter_sym)

declare read_headers.simps [simp del]

definition getHostAndConnHeaderValues :: "bytes \<Rightarrow> string \<times> bool \<times> int" where
  "getHostAndConnHeaderValues payload =
     (case cut LF payload of (_, headers, _) \<Rightarrow>
      case read_headers '''' False headers of (host, close, body) \<Rightarrow> (host, close, int (length body)))"

section \<open>Host and port\<close>

definition SplitHostPort :: "string \<Rightarrow> string \<times> string" where
  "SplitHostPort host =
     (if host \<noteq> [] \<and> hd host = CHR ''['' \<and> CHR '']'' \<in> set host
      then case cut (CHR '']'') host of (h, p, _) \<Rightarrow>
           case cut (CHR '':'') p of (_, port, _) \<Rightarrow>
           case cut (CHR ''['') h of (_, h', _) \<Rightarrow> (h', port)
      else case cut (CHR '':'') host of (h, port, _) \<Rightarrow> (h, port))"

definition improveHost :: "string \<Rightarrow> string \<Rightarrow> string \<Rightarrow> string" where
  "improveHost host port defPort =
     (let host = (if Contains host '':'' then ''['' @ host @ '']'' else host)
      in if port \<noteq> '''' then host @ '':'' @ port else host @ '':'' @ defPort)"

section \<open>Dialing\<close>

text \<open>\<open>core.TLSConf\<close>, and the fields of \<open>tls.Config\<close> that are set from it.\<close>

record TLSConf =
  InsecureSkipVerify :: bool
  TLSCipherSuites :: "string list"
  MinVersion :: u16
  MaxVersion :: u16

record TlsConfig =
  ServerName :: string
  CipherSuites :: "u16 list"
  SkipVerify :: bool
  TlsMin :: u16
  TlsMax :: u16

text \<open>
  What the library gives: the cipher suites, secure and insecure, by name and number, and the
  scheme and the authority of a URL (or the text of an error).
\<close>

record net_lib =
  secureSuites :: "(string \<times> u16) list"
  insecureSuites :: "(string \<times> u16) list"
  url_parse :: "string \<Rightarrow> string + (string \<times> string)"

type_synonym dialers = "string \<Rightarrow> TlsConfig option"

definition chosen_suites :: "net_lib \<Rightarrow> TLSConf \<Rightarrow> u16 list" where
  "chosen_suites lib conf =
     map snd (filter (\<lambda>(name, _). name \<in> set (TLSCipherSuites conf)) (secureSuites lib))
     @ map snd (filter (\<lambda>(name, _). name \<in> set (TLSCipherSuites conf)) (insecureSuites lib))"

definition tlsDialerForHost ::
  "net_lib \<Rightarrow> TLSConf \<Rightarrow> dialers \<Rightarrow> string \<Rightarrow> string \<Rightarrow> dialers \<times> TlsConfig" where
  "tlsDialerForHost lib conf ds host hint =
     (case ds host of
        Some obj \<Rightarrow> (ds, obj)
      | None \<Rightarrow>
          let dialer = \<lparr>ServerName = hint, CipherSuites = chosen_suites lib conf,
                SkipVerify = InsecureSkipVerify conf, TlsMin = MinVersion conf, TlsMax = MaxVersion conf\<rparr>
          in (ds(host \<mapsto> dialer), dialer))"

datatype dial = DialTLS string TlsConfig | DialPlain string

definition with_scheme :: "string \<Rightarrow> string" where
  "with_scheme hostname = (if Contains hostname ''://'' then hostname else ''http://'' @ hostname)"

text \<open>\<open>openConnection\<close> up to the dialing: an error, or the connection that is asked for.\<close>

definition openConnection ::
  "net_lib \<Rightarrow> TLSConf \<Rightarrow> dialers \<Rightarrow> string \<Rightarrow> string \<Rightarrow> dialers \<times> (string + dial)" where
  "openConnection lib conf ds hostname hint =
     (let hostname = with_scheme hostname
      in case url_parse lib hostname of
           Inl e \<Rightarrow> (ds, Inl (''Failed to parse hostname '' @ [CHR 0x27] @ hostname @ [CHR 0x27] @ '' as URL: '' @ e))
         | Inr (scheme, auth) \<Rightarrow>
             (case SplitHostPort auth of (host, port) \<Rightarrow>
                if scheme = ''https''
                then let hint = (if hint = '''' then auth else hint);
                         (ds', obj) = tlsDialerForHost lib conf ds auth hint
                     in (ds', Inr (DialTLS (improveHost host port ''443'') obj))
                else (ds, Inr (DialPlain (improveHost host port ''80'')))))"

section \<open>What the scan of the headers finds\<close>

text \<open>The last of the header lines with a name, and its value.\<close>

definition header_value :: "(bytes \<Rightarrow> bool) \<Rightarrow> bytes list \<Rightarrow> bytes option" where
  "header_value named lines =
     map_option (\<lambda>l. TrimSpace (fst (snd (cut (CHR '':'') l))))
       (List.find (\<lambda>l. named (fst (cut (CHR '':'') l))) (rev lines))"

lemma find_append: "List.find P (xs @ ys) = (case List.find P xs of None \<Rightarrow> List.find P ys | Some x \<Rightarrow> Some x)"
  by (induction xs) auto

lemma read_headers_lines:
  assumes "\<forall>l \<in> set lines. LF \<notin> set l \<and> 2 \<le> length l" "LF \<notin> set stop" "length stop < 2"
  shows "read_headers host close (unlines lines @ stop @ LF # body) =
    (case header_value host_header lines of None \<Rightarrow> host | Some v \<Rightarrow> v,
     case header_value conn_header lines of None \<Rightarrow> close | Some v \<Rightarrow> v = ''close'', body)"
  using assms(1)
proof (induction lines arbitrary: host close)
  case Nil
  then show ?case using assms(2,3) by (subst read_headers.simps) (simp add: header_value_def)
next
  case (Cons l lines)
  obtain hname hval b where c: "cut (CHR '':'') l = (hname, hval, b)" by (cases "cut (CHR '':'') l")
  have split: "header_value named (l # lines) =
      (case header_value named lines of None \<Rightarrow> if named hname then Some (TrimSpace hval) else None | Some v \<Rightarrow> Some v)"
    for named
    by (simp add: header_value_def find_append c split: option.splits)
  show ?case
    using Cons.prems c
    by (subst read_headers.simps) (auto simp: Cons.IH split split: option.splits)
qed

text \<open>
  C22: of a request made of a request line, header lines and a short line before the body, the scan
  finds the value of the last host header, whether the last connection header says \<open>close\<close>, and the
  exact length of the body; it reads nothing of the body, whatever is in it.
\<close>
theorem request_scanned:
  assumes "LF \<notin> set reqline" "\<forall>l \<in> set lines. LF \<notin> set l \<and> 2 \<le> length l" "LF \<notin> set stop" "length stop < 2"
  shows "getHostAndConnHeaderValues (reqline @ LF # unlines lines @ stop @ LF # body) =
    (case header_value host_header lines of None \<Rightarrow> '''' | Some v \<Rightarrow> v,
     header_value conn_header lines = Some ''close'', int (length body))"
  using read_headers_lines [OF assms(2-4), of "''''" False body] assms(1)
  by (auto simp: getHostAndConnHeaderValues_def split: option.splits)

definition example_request :: "bytes list" where
  "example_request = [''Host: a.test'' @ [CR], ''Connection: close'' @ [CR]]"

theorem request_scanned_witness:
  "getHostAndConnHeaderValues (''POST / HTTP/1.1'' @ [CR] @ LF # unlines example_request @ [CR] @ LF # ''Host: b'' @ [LF, LF])
    = (''a.test'', True, 9)"
proof -
  have "\<forall>l \<in> set example_request. LF \<notin> set l \<and> 2 \<le> length l" by (simp add: example_request_def)
  moreover have "header_value host_header example_request = Some ''a.test''"
    "header_value conn_header example_request = Some ''close''"
    unfolding example_request_def by code_simp+
  ultimately show ?thesis
    using request_scanned [of "''POST / HTTP/1.1'' @ [CR]" example_request "[CR]" "''Host: b'' @ [LF, LF]"] by simp
qed


section \<open>What is dialed\<close>

text \<open>An authority as it is written: an IPv6 address in brackets, the port after a colon if there is one.\<close>

definition render_auth :: "string \<Rightarrow> string \<Rightarrow> string" where
  "render_auth host port =
     (if CHR '':'' \<in> set host then ''['' @ host @ '']'' else host) @ (if port = '''' then '''' else '':'' @ port)"

fun dial_address :: "dial \<Rightarrow> string" where
  "dial_address (DialTLS a _) = a"
| "dial_address (DialPlain a) = a"

definition plain_host :: "string \<Rightarrow> bool" where
  "plain_host host = (CHR ''['' \<notin> set host \<and> CHR '']'' \<notin> set host)"

lemma Contains_char: "Contains s [c] = (c \<in> set s)"
  by (induction s) auto

lemma SplitHostPort_render:
  assumes "plain_host host" "CHR '']'' \<notin> set port"
  shows "SplitHostPort (render_auth host port) = (host, port)"
proof (cases "CHR '':'' \<in> set host")
  case True
  have "CHR '']'' \<notin> set (CHR ''['' # host)" using assms(1) by (simp add: plain_host_def)
  then have "cut (CHR '']'') ((CHR ''['' # host) @ CHR '']'' # r) = (CHR ''['' # host, r, True)" for r
    by (rule cut_found)
  moreover have "cut (CHR ''['') ([] @ CHR ''['' # host) = ([], host, True)" by (rule cut_found) simp
  moreover have "cut (CHR '':'') ([] @ CHR '':'' # port) = ([], port, True)" by (rule cut_found) simp
  ultimately show ?thesis using True by (simp add: SplitHostPort_def render_auth_def)
next
  case False
  have "\<not> (render_auth host port \<noteq> [] \<and> hd (render_auth host port) = CHR ''[''
      \<and> CHR '']'' \<in> set (render_auth host port))"
    using False assms by (cases host) (auto simp: render_auth_def plain_host_def)
  moreover have "cut (CHR '':'') (render_auth host port) = (host, port, port \<noteq> '''')"
    using False by (simp add: render_auth_def)
  ultimately show ?thesis unfolding SplitHostPort_def by (simp only: if_False prod.case)
qed

lemma improveHost_render: "d \<noteq> '''' \<Longrightarrow> improveHost host port d = render_auth host (if port \<noteq> '''' then port else d)"
  by (simp add: improveHost_def render_auth_def Contains_char Let_def)

text \<open>
  C23: for an address whose URL has the authority \<open>host\<close> or \<open>host:port\<close> (an IPv6 host in brackets)
  the connection is made to that host, at that port or, without one, at 443 for \<open>https\<close> and at 80
  otherwise, with the brackets put back; the address that is dialed splits into the same two parts.
\<close>
theorem dial_target:
  assumes "url_parse lib (with_scheme a) = Inr (scheme, render_auth host port)"
    "plain_host host" "CHR '']'' \<notin> set port"
  shows "\<exists>ds' d. openConnection lib conf ds a hint = (ds', Inr d)
    \<and> dial_address d = render_auth host
        (if port \<noteq> '''' then port else if scheme = ''https'' then ''443'' else ''80'')
    \<and> SplitHostPort (dial_address d)
        = (host, if port \<noteq> '''' then port else if scheme = ''https'' then ''443'' else ''80'')
    \<and> (scheme = ''https'' \<longleftrightarrow> (\<exists>addr obj. d = DialTLS addr obj))"
proof -
  have "SplitHostPort (render_auth host p) = (host, p)" if "CHR '']'' \<notin> set p" for p
    by (rule SplitHostPort_render [OF assms(2) that])
  then show ?thesis
    using assms(3)
    by (auto simp: openConnection_def assms(1) improveHost_render Let_def split: prod.splits)
qed

text \<open>No TLS settings, and a library that takes apart plain URLs.\<close>

definition no_tls_conf :: TLSConf where
  "no_tls_conf = \<lparr>InsecureSkipVerify = False, TLSCipherSuites = [], MinVersion = 0, MaxVersion = 0\<rparr>"

definition simple_lib :: net_lib where
  "simple_lib = \<lparr>secureSuites = [(''TLS_ECDHE_RSA_WITH_AES_128_GCM_SHA256'', 0xC02F)],
     insecureSuites = [(''TLS_RSA_WITH_AES_128_CBC_SHA256'', 0x3C)],
     url_parse = (\<lambda>u. case cut (CHR '':'') u of (s, r, ok) \<Rightarrow>
        if ok then Inr (s, fst (cut (CHR ''/'') (drop 2 r))) else Inl ''no scheme'')\<rparr>"

theorem dial_target_witness:
  "\<exists>ds' d. openConnection simple_lib no_tls_conf Map.empty ''https://[::1]/x'' '''' = (ds', Inr d)
    \<and> dial_address d = ''[::1]:443''"
proof -
  have "url_parse simple_lib (with_scheme ''https://[::1]/x'') = Inr (''https'', render_auth ''::1'' '''')"
    by code_simp
  from dial_target [OF this, of no_tls_conf Map.empty "''''"] show ?thesis
    by (auto simp: plain_host_def render_auth_def)
qed

text \<open>
  The name of the server, which the TLS handshake asks for and verifies, is fixed by the first
  connection to an authority: whatever host headers later requests carry, every later connection to
  it uses the dialer, and with it the server name and the settings, of the first.
\<close>
theorem first_server_name_sticks:
  assumes "openConnection lib conf ds a hint = (ds1, Inr (DialTLS addr obj))" "ds auth = None"
    "url_parse lib (with_scheme a) = Inr (scheme, auth)" "url_parse lib (with_scheme a') = Inr (scheme, auth)"
  shows "ServerName obj = (if hint = '''' then auth else hint) \<and> CipherSuites obj = chosen_suites lib conf
    \<and> openConnection lib conf' ds1 a' hint' = (ds1, Inr (DialTLS addr obj))"
  using assms
  by (auto simp: openConnection_def tlsDialerForHost_def Let_def split: prod.splits if_splits)

theorem first_server_name_sticks_witness:
  "\<exists>ds1 obj. openConnection simple_lib no_tls_conf Map.empty ''https://h:8443'' '''' = (ds1, Inr (DialTLS ''h:8443'' obj))
    \<and> ServerName obj = ''h:8443''
    \<and> openConnection simple_lib no_tls_conf ds1 ''https://h:8443/b'' ''other'' = (ds1, Inr (DialTLS ''h:8443'' obj))"
proof -
  have u: "url_parse simple_lib (with_scheme ''https://h:8443'') = Inr (''https'', ''h:8443'')"
    "url_parse simple_lib (with_scheme ''https://h:8443/b'') = Inr (''https'', ''h:8443'')"
    by code_simp+
  obtain ds1 obj where o: "openConnection simple_lib no_tls_conf Map.empty ''https://h:8443'' ''''
      = (ds1, Inr (DialTLS ''h:8443'' obj))"
  proof -
    have sh: "SplitHostPort ''h:8443'' = (''h'', ''8443'')" "improveHost ''h'' ''8443'' ''443'' = ''h:8443''"
      by code_simp+
    show thesis
      using that by (simp add: openConnection_def u sh tlsDialerForHost_def Let_def)
  qed
  show ?thesis
    using first_server_name_sticks [OF o _ u(1,2), of no_tls_conf "''other''"] o by (intro exI conjI) auto
qed

end
