(* ===== verification/Http_Nib.thy ===== *)
theory Http_Nib
  imports Http_Address
begin

text \<open>
  One request: \<open>Punch\<close>, \<open>sendRequest\<close> and \<open>readResponse\<close> of \<open>pkg/http/nib.go\<close>.  What the pool, the
  connection, the clock and \<open>http.ReadResponse\<close> answer is the environment of the request.
\<close>

section \<open>The environment of a request\<close>

text \<open>
  Times are nanoseconds on one clock, in the order in which the code reads them.  \<open>firstRead\<close> is the
  connection's \<open>FirstRead\<close> once the headers are read and \<open>firstReadAtEnd\<close> once the body is (the reading
  goroutine may set it between the two), \<open>readLen\<close> and \<open>recorded\<close> are its \<open>ReadLen\<close> and the bytes of
  \<open>ReadRecorded\<close> once the body is read.
\<close>

record punch_env =
  startTime :: int
  beforeGet :: int
  connectedAt :: int
  getError :: "string option"
  deadlineError :: "string option"
  writeResult :: "int \<times> string option"
  sentAt :: int
  beginAt :: int
  headersAt :: int
  response :: "string + (int \<times> bool)" \<comment> \<open>the status code and \<open>resp.Close\<close>\<close>
  firstRead :: "int option"
  copyError :: "string option"
  finishAt :: int
  firstReadAtEnd :: "int option"
  readLen :: int
  recorded :: "bytes option"

text \<open>What becomes of the connection.\<close>

datatype conn_fate = NoConnection | LeftOpen | ClosedLater | ReturnedToPool

definition Sub :: "int \<Rightarrow> int \<Rightarrow> duration" where
  "Sub t u = sat64 (t - u)"

definition new_result :: OutputItem where
  "new_result = \<lparr>StartTS = 0, Status = 0, Error = None, ErrorStr = '''', ErrorStrIdx = 0, Concurrency = 0,
     Elapsed = 0, ConnectTime = 0, SentTime = 0, FirstByteTime = 0, ReadTime = 0, WorkerNo = 0, OutLabel = '''',
     OutLabelIdx = 0, SentBytesCount = 0, RespBytesCount = 0, ReqBytes = [], RespBytes = None\<rparr>"

section \<open>Sending\<close>

definition content_length :: bytes where
  "content_length = ''${:content-length:}''"

text \<open>The expression \<open>(?m:\$\{:content-length:})\<close>, which matches this text and nothing else.\<close>

definition contentLengthRe :: regexp where
  "contentLengthRe = literal (''(?m:'' @ [CHR 0x5C] @ ''$'' @ [CHR 0x5C] @ ''{:content-length:})'') content_length"

definition fill_length :: "(bytes \<Rightarrow> nat) \<Rightarrow> PayloadItem \<Rightarrow> PayloadItem" where
  "fill_length wd item =
     (case getHostAndConnHeaderValues (Payload item) of
        (_, _, bodyLen) \<Rightarrow>
          if Replaces item \<noteq> []
          then item\<lparr>Payload := ReplaceAll wd contentLengthRe (Payload item) (itoa bodyLen)\<rparr> else item)"

definition record_limit :: "PayloadItem \<Rightarrow> int" where
  "record_limit item = (if RegexOut item \<noteq> Map.empty \<or> Asserts item \<noteq> [] then 0 else 1024 * 1024)"

text \<open>
  \<open>sendRequest\<close>: the item with its payload completed, the result so far, and the two values it
  returns; None is the nil connection.  The limit is that of the connection's copy of the response.
\<close>

definition sendRequest ::
  "(bytes \<Rightarrow> nat) \<Rightarrow> punch_env \<Rightarrow> PayloadItem \<Rightarrow> OutputItem \<Rightarrow> PayloadItem \<times> OutputItem \<times> int option \<times> bool" where
  "sendRequest wd env item o1 =
     (case getHostAndConnHeaderValues (Payload item) of
        (_, connClose, _) \<Rightarrow>
          let item = fill_length wd item;
              o1 = o1\<lparr>ConnectTime := Sub (connectedAt env) (beforeGet env)\<rparr>
          in case getError env of
               Some e \<Rightarrow> (item, EndWithError e o1, None, connClose)
             | None \<Rightarrow>
                 (case deadlineError env of
                    Some e \<Rightarrow> (item, EndWithError e o1, None, connClose)
                  | None \<Rightarrow>
                      let o1 = o1\<lparr>SentBytesCount := word_of_int (fst (writeResult env)),
                            SentTime := Sub (sentAt env) (connectedAt env)\<rparr>
                      in case snd (writeResult env) of
                           Some e \<Rightarrow> (item, EndWithError e o1, None, connClose)
                         | None \<Rightarrow> (item, o1, Some (record_limit item), connClose)))"

section \<open>Receiving\<close>

text \<open>\<open>time.Time{}\<close>, the first read of a connection that has read nothing, is too long ago to subtract.\<close>

definition readResponse :: "punch_env \<Rightarrow> OutputItem \<Rightarrow> bool \<Rightarrow> OutputItem \<times> conn_fate" where
  "readResponse env result connClose =
     (let result = result\<lparr>ReadTime := Sub (headersAt env) (beginAt env)\<rparr>
      in case response env of
           Inl e \<Rightarrow> (EndWithError e result, LeftOpen)
         | Inr (sc, respClose) \<Rightarrow>
             let result = result\<lparr>Status := word_of_int sc\<rparr>;
                 result = (case firstRead env of
                     Some t \<Rightarrow> result\<lparr>FirstByteTime := Sub t (beginAt env)\<rparr> | None \<Rightarrow> result)
             in case copyError env of
                  Some e \<Rightarrow> (EndWithError e result, LeftOpen)
                | None \<Rightarrow>
                    (result\<lparr>ReadTime := (case firstReadAtEnd env of Some t \<Rightarrow> Sub (finishAt env) t | None \<Rightarrow> 2 ^ 63 - 1),
                            Elapsed := Sub (finishAt env) (startTime env),
                            RespBytesCount := word_of_int (readLen env), RespBytes := recorded env\<rparr>,
                     if respClose \<or> connClose then ClosedLater else ReturnedToPool))"

definition NibPunch ::
  "(bytes \<Rightarrow> nat) \<Rightarrow> punch_env \<Rightarrow> PayloadItem \<Rightarrow> PayloadItem \<times> OutputItem \<times> conn_fate" where
  "NibPunch wd env item =
     (case sendRequest wd env item new_result of
        (item, o1, conn, connClose) \<Rightarrow>
          if Error o1 \<noteq> None then (item, o1, if getError env = None then LeftOpen else NoConnection)
          else case readResponse env o1 connClose of (o1, fate) \<Rightarrow> (item, o1, fate))"

section \<open>Every outcome\<close>

text \<open>The first thing that went wrong, if anything did.\<close>

definition first_error :: "punch_env \<Rightarrow> string option" where
  "first_error env =
     (case getError env of Some e \<Rightarrow> Some e | None \<Rightarrow>
      case deadlineError env of Some e \<Rightarrow> Some e | None \<Rightarrow>
      case snd (writeResult env) of Some e \<Rightarrow> Some e | None \<Rightarrow>
      case response env of Inl e \<Rightarrow> Some e | Inr _ \<Rightarrow> copyError env)"

text \<open>
  C19: a request reports the first error on its way, with status 999 and no elapsed time, and then
  leaves the connection it had neither closed nor in the pool; without an error it reports the
  response's status, the time from start to finish, the bytes read, and the connection is closed
  exactly when the response or the request's connection header asks for it, else it is returned.
\<close>
theorem punch_outcome:
  assumes "NibPunch wd env item = (item', res, fate)"
  shows "item' = fill_length wd item
    \<and> (case first_error env of
         Some e \<Rightarrow> Error res = Some e \<and> Status res = 999 \<and> Elapsed res = 0 \<and> RespBytes res = None
           \<and> fate = (if getError env = None then LeftOpen else NoConnection)
       | None \<Rightarrow> Error res = None \<and> Elapsed res = Sub (finishAt env) (startTime env)
           \<and> RespBytes res = recorded env \<and> RespBytesCount res = word_of_int (readLen env)
           \<and> (\<exists>sc respClose. response env = Inr (sc, respClose) \<and> Status res = word_of_int sc
               \<and> fate = (if respClose \<or> fst (snd (getHostAndConnHeaderValues (Payload item)))
                          then ClosedLater else ReturnedToPool)))"
proof -
  obtain host cc n where g: "getHostAndConnHeaderValues (Payload item) = (host, cc, n)" by (rule prod_cases3)
  note defs = NibPunch_def sendRequest_def readResponse_def first_error_def EndWithError_def new_result_def Let_def g
  show ?thesis
  proof (cases "getError env = None \<and> deadlineError env = None \<and> snd (writeResult env) = None")
    case sent: True
    show ?thesis
    proof (cases "response env")
      case (Inl e)
      then show ?thesis using assms sent by (simp add: defs) auto
    next
      case (Inr r)
      then show ?thesis
        using assms sent by (cases r; cases "copyError env"; cases "firstRead env") (simp_all add: defs, auto)
    qed
  next
    case False
    then show ?thesis
      using assms
      by (cases "getError env"; cases "deadlineError env"; cases "snd (writeResult env)") (auto simp: defs)
  qed
qed


definition ok_env :: punch_env where
  "ok_env = \<lparr>startTime = 100, beforeGet = 110, connectedAt = 150, getError = None, deadlineError = None,
     writeResult = (64, None), sentAt = 170, beginAt = 175, headersAt = 400, response = Inr (200, False),
     firstRead = Some 380, copyError = None, finishAt = 500, firstReadAtEnd = Some 380, readLen = 1200, recorded = Some ''HTTP/1.1 200 OK''\<rparr>"

definition get_item :: PayloadItem where
  "get_item = (new_item None)\<lparr>Payload := ''GET / HTTP/1.1'' @ [CR, LF] @ ''Connection: close'' @ [CR, LF, CR, LF]\<rparr>"

lemma get_item_scanned: "getHostAndConnHeaderValues (Payload get_item) = ('''', True, 0)"
  unfolding get_item_def by code_simp

theorem punch_outcome_witness:
  "\<exists>item' res fate. NibPunch (\<lambda>_. 0) ok_env get_item = (item', res, fate)
     \<and> Error res = None \<and> Elapsed res = 400 \<and> fate = ClosedLater"
proof -
  obtain item' res fate where p: "NibPunch (\<lambda>_. 0) ok_env get_item = (item', res, fate)" by (rule prod_cases3)
  have e: "first_error ok_env = None" by (simp add: first_error_def ok_env_def)
  have "Error res = None \<and> Elapsed res = Sub (finishAt ok_env) (startTime ok_env) \<and> fate = ClosedLater"
    using punch_outcome [OF p] by (auto simp: e get_item_scanned)
  then show ?thesis using p by (simp add: ok_env_def Sub_def sat64_def)
qed

section \<open>The times of a request\<close>

definition clock_ok :: "punch_env \<Rightarrow> bool" where
  "clock_ok env =
     (sorted [startTime env, beforeGet env, connectedAt env, sentAt env, beginAt env, headersAt env, finishAt env]
      \<and> finishAt env - startTime env < 2 ^ 63)"

text \<open>
  The times of a successful request fit together: connecting, sending, waiting for the first
  byte and reading add up to the elapsed time less the two moments between them that nothing
  measures, whenever the first byte came in after the wait had begun; so they never exceed it.
\<close>
theorem times_add_up:
  assumes "NibPunch wd env item = (item', res, fate)" "first_error env = None" "clock_ok env"
    "firstRead env = Some t" "firstReadAtEnd env = Some t" "beginAt env \<le> t" "t \<le> finishAt env"
  shows "ConnectTime res + SentTime res + FirstByteTime res + ReadTime res
      = Elapsed res - (beforeGet env - startTime env) - (beginAt env - sentAt env)
    \<and> ConnectTime res + SentTime res + FirstByteTime res + ReadTime res \<le> Elapsed res
    \<and> 0 \<le> ConnectTime res \<and> 0 \<le> SentTime res \<and> 0 \<le> FirstByteTime res \<and> 0 \<le> ReadTime res"
proof -
  have o: "startTime env \<le> beforeGet env" "beforeGet env \<le> connectedAt env" "connectedAt env \<le> sentAt env"
      "sentAt env \<le> beginAt env" "finishAt env - startTime env < 2 ^ 63"
    using assms(3) by (simp_all add: clock_ok_def)
  have sub: "Sub a b = a - b" if "b \<le> a" "a \<le> finishAt env" "startTime env \<le> b" for a b
    using that o(5) by (simp add: Sub_def sat64_id)
  have "ConnectTime res = connectedAt env - beforeGet env" "SentTime res = sentAt env - connectedAt env"
    "FirstByteTime res = t - beginAt env" "ReadTime res = finishAt env - t" "Elapsed res = finishAt env - startTime env"
    using assms(1,2,4-7) o
    by (auto simp: NibPunch_def sendRequest_def readResponse_def first_error_def new_result_def Let_def sub
        split: prod.splits option.splits sum.splits)
  then show ?thesis using o assms(6,7) by simp
qed

theorem times_add_up_witness:
  "\<exists>item' res fate. NibPunch (\<lambda>_. 0) ok_env get_item = (item', res, fate)
     \<and> ConnectTime res + SentTime res + FirstByteTime res + ReadTime res = 385"
proof -
  obtain item' res fate where p: "NibPunch (\<lambda>_. 0) ok_env get_item = (item', res, fate)" by (rule prod_cases3)
  have e: "first_error ok_env = None" by (simp add: first_error_def ok_env_def)
  have c: "clock_ok ok_env" by (simp add: clock_ok_def ok_env_def)
  have "Elapsed res = 400"
    using punch_outcome [OF p] e by (simp add: ok_env_def Sub_def sat64_def)
  then show ?thesis
    using times_add_up [OF p e c, of 380] p by (simp add: ok_env_def)
qed

section \<open>The content length\<close>

lemma digit_free_itoa: "c \<noteq> CHR ''-'' \<Longrightarrow> \<not> ascii_digit c \<Longrightarrow> c \<notin> set (itoa n)"
  by (auto simp: itoa_def digits_free)

definition request :: "bytes \<Rightarrow> bytes list \<Rightarrow> bytes \<Rightarrow> bytes \<Rightarrow> bytes" where
  "request reqline lines stop body = reqline @ LF # unlines lines @ stop @ LF # body"

definition request_ok :: "bytes \<Rightarrow> bytes list \<Rightarrow> bytes \<Rightarrow> bool" where
  "request_ok reqline lines stop =
     (LF \<notin> set reqline \<and> (\<forall>l \<in> set lines. LF \<notin> set l \<and> 2 \<le> length l) \<and> LF \<notin> set stop \<and> length stop < 2)"

lemma request_body_length:
  "request_ok reqline lines stop \<Longrightarrow>
     snd (snd (getHostAndConnHeaderValues (request reqline lines stop body))) = int (length body)"
  using read_headers_lines [of lines stop "''''" False body]
  by (simp add: request_ok_def request_def getHostAndConnHeaderValues_def)

text \<open>
  In a request with replaced values whose header lines hold the placeholder of the content
  length, the placeholder becomes the decimal length of the body that is sent: the request changes
  nowhere else, and a scan of what is sent finds a body of exactly that length.
\<close>
theorem content_length_filled:
  assumes "Replaces item \<noteq> []"
    "Payload item = request reqline (before @ [hdr @ content_length @ rest] @ after) stop body"
    "request_ok reqline (before @ [hdr @ content_length @ rest] @ after) stop"
    "CHR ''$'' \<notin> set (request reqline (before @ [hdr @ rest] @ after) stop body)" "hdr \<noteq> []"
  shows "Payload (fill_length wd item)
      = request reqline (before @ [hdr @ itoa (int (length body)) @ rest] @ after) stop body
    \<and> snd (snd (getHostAndConnHeaderValues (Payload (fill_length wd item)))) = int (length body)"
proof -
  let ?n = "itoa (int (length body))"
  define a b where "a = reqline @ LF # unlines before @ hdr" and "b = rest @ LF # unlines after @ stop @ LF # body"
  have parts: "request reqline (before @ (hdr @ x @ rest) # after) stop body = a @ x @ b" for x
    by (simp add: request_def a_def b_def)
  have free: "CHR ''$'' \<notin> set a" "CHR ''$'' \<notin> set b"
    using assms(4) by (auto simp: request_def a_def b_def)
  have dollar: "CHR ''$'' \<notin> set ?n" by (rule digit_free_itoa) (simp_all add: ascii_digit_def code_def)
  have "replace_lit content_length ?n (a @ content_length @ b) = a @ ?n @ b"
    using free by (intro replace_lit_once) (simp_all add: content_length_def)
  then have "Payload (fill_length wd item) = a @ ?n @ b"
    using assms(1,2) request_body_length [OF assms(3), of body] dollar
    by (auto simp: fill_length_def contentLengthRe_def ReplaceAll_literal parts split: prod.splits)
  moreover have "LF \<notin> set ?n" by (rule digit_free_itoa) (simp_all add: ascii_digit_def code_def)
  moreover have "?n \<noteq> []" by (simp add: itoa_def)
  ultimately have "request_ok reqline (before @ (hdr @ ?n @ rest) # after) stop"
    using assms(3,5) by (cases hdr; cases ?n) (auto simp: request_ok_def)
  from request_body_length [OF this, of body] show ?thesis
    using \<open>Payload (fill_length wd item) = a @ ?n @ b\<close> by (simp add: parts)
qed

theorem content_length_filled_witness:
  "Payload (fill_length (\<lambda>_. 0) ((new_item None)\<lparr>Replaces := [''v''],
       Payload := request (''POST / HTTP/1.1'' @ [CR]) ([] @ [''Content-Length: '' @ content_length @ [CR]] @ []) [CR] ''v=12''\<rparr>))
     = request (''POST / HTTP/1.1'' @ [CR]) [''Content-Length: 4'' @ [CR]] [CR] ''v=12''"
proof -
  have four: "itoa 4 = ''4''" by code_simp
  show ?thesis
    using content_length_filled [of "(new_item None)\<lparr>Replaces := [''v''], Payload := request (''POST / HTTP/1.1'' @ [CR])
        ([] @ [''Content-Length: '' @ content_length @ [CR]] @ []) [CR] ''v=12''\<rparr>" "''POST / HTTP/1.1'' @ [CR]" "[]"
        "''Content-Length: ''" "[CR]" "[]" "[CR]" "''v=12''" "\<lambda>_. 0"]
    by (simp add: request_ok_def request_def content_length_def four)
qed

end
