(* ===== verification/Worker_Iteration.thy ===== *)
theory Worker_Iteration
  imports Http_Nib
begin

text \<open>
  What one worker does with one item: \<open>Iteration\<close> and \<open>DoBusy\<close> of \<open>pkg/core/worker.go\<close> as a function of
  the values the worker has, with the nib as the function that sends the request.
\<close>

section \<open>The result of a request\<close>

text \<open>
  \<open>DoBusy\<close> between \<open>Punch\<close> and \<open>Push\<close>: \<open>startUnix\<close> is \<open>res.StartTime.Unix()\<close>, \<open>busy_now\<close> what
  \<open>GetBusy\<close> returns.  \<open>extractors\<close> is the order in which the map of extractors is walked.
\<close>

definition fill_result :: "int \<Rightarrow> int \<Rightarrow> int \<Rightarrow> PayloadItem \<Rightarrow> OutputItem \<Rightarrow> OutputItem" where
  "fill_result workerIndex startUnix busy_now item res =
     res\<lparr>StartTS := word_of_int startUnix, WorkerNo := word_of_int workerIndex, ReqBytes := Payload item,
         OutLabel := (if OutLabel res = '''' then Label item else OutLabel res),
         OutLabelIdx := (if OutLabelIdx res = 0 then LabelIdx item else OutLabelIdx res),
         Concurrency := word_of_int busy_now\<rparr>"

definition finish_result ::
  "(string \<Rightarrow> nat \<Rightarrow> nat) \<Rightarrow> (string \<times> ExtractRegex) list \<Rightarrow> PayloadItem \<Rightarrow> ValMap \<Rightarrow> OutputItem
   \<Rightarrow> (ValMap \<times> OutputItem) go" where
  "finish_result intn extractors item vals res =
     go_bind (ExtractValues intn (RespBytes res) extractors vals) (\<lambda>vals.
     go_bind (Assert (Asserts item) res) (\<lambda>res. Inr (vals, res)))"

section \<open>One iteration\<close>

text \<open>
  The environment of an iteration: the regular expressions, the nib (it may complete the item's
  payload), the flag at the moment of its test, the order in which the map of extractors is walked, the
  random numbers, and the three figures that go into the result.
\<close>

record iter_env =
  pkg :: regexp_pkg
  nib :: "PayloadItem \<Rightarrow> PayloadItem \<times> OutputItem"
  stopFlag :: bool
  order :: "(string \<Rightarrow> ExtractRegex option) \<Rightarrow> (string \<times> ExtractRegex) list"
  draw :: "string \<Rightarrow> nat \<Rightarrow> nat"
  workerIndex :: int
  startUnix :: int
  busyNow :: int

definition DoBusy :: "iter_env \<Rightarrow> ValMap \<Rightarrow> PayloadItem \<Rightarrow> (ValMap \<times> OutputItem) go" where
  "DoBusy env vals item =
     (case nib env item of
        (item, res) \<Rightarrow>
          finish_result (draw env) (order env (RegexOut item)) item vals
            (fill_result (workerIndex env) (startUnix env) (busyNow env) item res))"

text \<open>The item is not nil here; a worker that was stopped while it waited drops it.\<close>

definition Iteration ::
  "iter_env \<Rightarrow> cache \<Rightarrow> ValMap \<Rightarrow> PayloadItem \<Rightarrow> (cache \<times> ValMap \<times> OutputItem option) go" where
  "Iteration env c vals item =
     go_bind (ReplaceValues (pkg env) vals c item) (\<lambda>(c, item).
       if stopFlag env then Inr (c, vals, None)
       else go_bind (ResolveStrings item) (\<lambda>item.
            go_bind (DoBusy env vals item) (\<lambda>(vals, res). Inr (c, vals, Some res))))"

section \<open>Extracted values\<close>

lemma ExtractValues_other:
  "ExtractValues intn resp xs vals = Inr vals' \<Longrightarrow> n \<notin> fst ` set xs \<Longrightarrow> vals' n = vals n"
  by (induction xs arbitrary: vals) (auto simp: ExtractValues_def go_convs)

lemma ExtractValues_value:
  assumes "ExtractValues intn resp xs vals = Inr vals'" "distinct (map fst xs)" "(n, e) \<in> set xs"
    "extract_value (intn n) resp e = Inr v"
  shows "vals' n = Some v"
  using assms
proof (induction xs arbitrary: vals)
  case (Cons x xs)
  obtain m d where x: "x = (m, d)" by (cases x)
  then obtain u where u: "extract_value (intn m) resp d = Inr u"
      and rest: "ExtractValues intn resp xs (vals(m \<mapsto> u)) = Inr vals'"
    using Cons.prems(1) by (auto simp: ExtractValues_def go_convs)
  show ?case
  proof (cases "(n, e) \<in> set xs")
    case True
    then show ?thesis using Cons rest by auto
  next
    case False
    then have "m = n" "d = e" using Cons.prems(3) x by auto
    then show ?thesis
      using ExtractValues_other [OF rest, of n] Cons.prems(2,4) u x by force
  qed
qed simp

lemma finish_result_parts:
  assumes "finish_result intn xs item vals res = Inr (vals', res')"
  shows "ExtractValues intn (RespBytes res) xs vals = Inr vals'" "res' = res\<lparr>Error := Error res'\<rparr>"
  using assms by (auto simp: finish_result_def Assert_def go_convs)

lemma fill_result_parts [simp]:
  "RespBytes (fill_result w t b item res) = RespBytes res" "ReqBytes (fill_result w t b item res) = Payload item"
  "Error (fill_result w t b item res) = Error res"
  by (simp_all add: fill_result_def)

text \<open>What an iteration that sends its request is made of.\<close>

lemma Iteration_sent:
  assumes "Iteration env c vals item = Inr (c', vals', Some r)"
  obtains j k item' res where "ReplaceValues (pkg env) vals c item = Inr (c', j)" "ResolveStrings j = Inr k"
    "nib env k = (item', res)"
    "finish_result (draw env) (order env (RegexOut item')) item' vals
       (fill_result (workerIndex env) (startUnix env) (busyNow env) item' res) = Inr (vals', r)"
proof -
  obtain j where j: "ReplaceValues (pkg env) vals c item = Inr (c', j)" "\<not> stopFlag env"
    using assms by (auto simp: Iteration_def go_convs split: if_splits)
  then obtain k where k: "ResolveStrings j = Inr k" "DoBusy env vals k = Inr (vals', r)"
    using assms by (auto simp: Iteration_def go_convs)
  show thesis using that [OF j(1) k(1)] k(2) by (cases "nib env k") (simp add: DoBusy_def)
qed

lemma ReplaceValues_RegexOut:
  assumes "ReplaceValues rx vals c item = Inr (c', j)"
  shows "RegexOut j = RegexOut item"
proof -
  have one: "RegexOut i' = RegexOut i" if "replace_one rx vals (d, i) n = Inr (d', i')" for d i n d' i'
    using that by (auto simp: ResolveStrings_def Let_def go_convs split: option.splits if_splits)
  have "go_fold (replace_one rx vals) (d, i) ns = Inr (c', j) \<Longrightarrow> RegexOut j = RegexOut i" for d i ns
  proof (induction ns arbitrary: d i)
    case (Cons n ns)
    then show ?case using one by (fastforce simp: go_convs)
  qed simp
  then show ?thesis using assms by (simp add: ReplaceValues_def)
qed

lemma ResolveStrings_RegexOut: "ResolveStrings i = Inr j \<Longrightarrow> RegexOut j = RegexOut i"
  by (auto simp: ResolveStrings_def go_convs split: if_splits)



definition example_extract :: ExtractRegex where
  "example_extract = \<lparr>Re = Some (literal ''12'' ''12''), GroupNo = 0, MatchNo = 0\<rparr>"

definition example_env :: iter_env where
  "example_env = \<lparr>pkg = literal_pkg [''t''], nib = (\<lambda>i. (i, new_result\<lparr>RespBytes := Some ''id=12;''\<rparr>)),
     stopFlag = False, order = (\<lambda>m. case m ''t'' of None \<Rightarrow> [] | Some e \<Rightarrow> [(''t'', e)]), draw = (\<lambda>_. id),
     workerIndex = 1, startUnix = 7, busyNow = 1\<rparr>"

definition login_item :: PayloadItem where
  "login_item = (new_item None)\<lparr>Payload := ''login'', RegexOut := [''t'' \<mapsto> example_extract]\<rparr>"

definition next_item :: PayloadItem where
  "next_item = (new_item None)\<lparr>Payload := ''GET /'' @ placeholder ''t'' @ ''/x'', Replaces := [''t'']\<rparr>"

lemma example_iterations:
  "case Iteration example_env Map.empty Map.empty login_item of
     Inr (c1, vals1, Some r) \<Rightarrow> Option.is_none (c1 ''t'') \<and> RespBytes r = Some ''id=12;''
       \<and> (case Iteration example_env c1 vals1 next_item of Inr (_, _, Some r') \<Rightarrow> True | _ \<Rightarrow> False)
   | _ \<Rightarrow> False"
  by code_simp


end
