(* ===== verification/Workload_Conf.thy ===== *)
theory Workload_Conf
  imports Float64_Facts
begin

text \<open>
  The configuration of a workload (\<open>pkg/core/workload.go\<close>): its schedule is a list of levels,
  each a start level, an end level (workers in the closed mode, requests per second in the
  open mode) and a duration in nanoseconds.
\<close>

record WorkloadLevel =
  LevelStart :: f64
  LevelEnd :: f64
  Duration :: duration

definition f0 :: f64 where "f0 = f64_of_int 0"
definition f1 :: f64 where "f1 = f64_of_int 1"

text \<open>
  The conversion of a double to \<open>time.Duration\<close>.  For a value out of range Go leaves the
  result to the implementation: \<open>oor\<close> stands for it in every definition that converts.
\<close>

definition to_duration :: "(f64 \<Rightarrow> duration) \<Rightarrow> f64 \<Rightarrow> duration" where
  "to_duration oor x = (case i64_of_f64 x of Some n \<Rightarrow> n | None \<Rightarrow> oor x)"

text \<open>A level with whole numbers, as in \<open>{0, 10, 5 * time.Second}\<close>.\<close>

definition whole_level :: "int \<Rightarrow> int \<Rightarrow> duration \<Rightarrow> WorkloadLevel" where
  "whole_level a b d = \<lparr>LevelStart = f64_of_int a, LevelEnd = f64_of_int b, Duration = d\<rparr>"

lemma whole_level_sel [simp]:
  "LevelStart (whole_level a b d) = f64_of_int a"
  "LevelEnd (whole_level a b d) = f64_of_int b"
  "Duration (whole_level a b d) = d"
  by (simp_all add: whole_level_def)

text \<open>A non-negative double below \<open>2\<^sup>6\<^sup>3\<close> converts to its integer part.\<close>

lemma to_duration_floor:
  assumes "x = FFin False m e" "0 \<le> m" "fval x < 2 ^ 63"
  shows "to_duration oor x = \<lfloor>fval x\<rfloor>"
proof -
  have "0 \<le> fval x" using assms(1,2) by (simp add: fval_def sg_def)
  then have "0 \<le> \<lfloor>fval x\<rfloor>" by simp
  moreover have "\<lfloor>fval x\<rfloor> < 2 ^ 63"
    using assms(3) by (simp add: floor_less_iff)
  ultimately show ?thesis
    by (simp add: to_duration_def i64_of_f64_def f64_trunc_nonneg [OF assms(1)])
qed

text \<open>All evaluation of a schedule on concrete levels goes through these equations.\<close>

text \<open>The loop of \<open>NewOpenWorkload\<close>.\<close>

definition sum_durations :: "WorkloadLevel list \<Rightarrow> duration" where
  "sum_durations sc = foldl (\<lambda>d step. wrap64 (d + Duration step)) 0 sc"

lemmas f64_eval =
  f0_def f1_def f64_ops f64_of_int_def fround_def lead_def rne_def pow2_def fzero_def blen.simps
  isqrt.simps to_duration_def i64_of_f64_def sg_def align_def Let_def

section \<open>The interface of a schedule\<close>

text \<open>
  What a workload's \<open>Run\<close> relies on when it ranges over the channel of \<open>GenerateSchedule\<close>: the
  offsets received so far are in order and are times of the test.
\<close>

locale schedule_source =
  fixes produces :: "'cfg \<Rightarrow> duration list \<Rightarrow> bool"
  assumes in_order: "produces c offs \<Longrightarrow> sorted offs"
    and in_time: "produces c offs \<Longrightarrow> x \<in> set offs \<Longrightarrow> 0 \<le> x \<and> x < 2 ^ 63"
begin

lemma first_is_least:
  assumes "produces c (off # offs)"
  shows "0 \<le> off" "\<forall>x \<in> set (off # offs). off \<le> x \<and> x < 2 ^ 63"
  using in_order [OF assms] in_time [OF assms] by auto

lemma not_back:
  assumes "produces c (xs @ x # ys)" "y \<in> set xs"
  shows "y \<le> x"
  using in_order [OF assms(1)] assms(2) by (auto simp: sorted_append)

end

end
