(* ===== verification/Program.thy ===== *)
theory Program
  imports Output_Sinks Status_Counters Worker_Iteration Workload_Conf
begin

text \<open>
  The program around the components: the configuration (\<open>pkg/core/config.go\<close>, \<open>cmd/encarno/main.go\<close>),
  how \<open>Run\<close> wires the parts (with \<open>NewBaseWorkload\<close>, \<open>SpawnWorker\<close> and \<open>NewBasicWorker\<close> of \<open>pkg/core\<close>),
  the dummy nib of \<open>pkg/core/nib.go\<close>, and the end of the program.
\<close>

section \<open>Configuration\<close>

record InputConf =
  PayloadFile :: string
  InStringsFile :: string
  EnableRegexes :: bool
  InIterationLimit :: int

record WorkerConf =
  Mode :: string
  WorkloadSchedule :: "WorkloadLevel list"
  StartingWorkers :: int
  MaxWorkers :: int
  ConfValues :: "string \<Rightarrow> string option"

record ProtoConf =
  Driver :: string
  MaxConns :: int
  Timeout :: duration
  TlsSettings :: TLSConf

record Configuration =
  Input :: InputConf
  OutputPart :: OutputConf
  Workers :: WorkerConf
  Protocol :: ProtoConf

text \<open>What the YAML is decoded over.\<close>

definition default_config :: Configuration where
  "default_config =
     \<lparr>Input = \<lparr>PayloadFile = '''', InStringsFile = '''', EnableRegexes = False, InIterationLimit = 0\<rparr>,
      OutputPart = \<lparr>LDJSONFile = '''', ReqRespFile = '''', ReqRespFileLevel = 0, BinaryFileName = '''', StringsFile = ''''\<rparr>,
      Workers = \<lparr>Mode = '''', WorkloadSchedule = [], StartingWorkers = 0, MaxWorkers = 0, ConfValues = Map.empty\<rparr>,
      Protocol = \<lparr>Driver = '''', MaxConns = 1, Timeout = 1 * Second, TlsSettings = no_tls_conf\<rparr>\<rparr>"

definition read_file :: "disk \<Rightarrow> string \<Rightarrow> bytes go" where
  "read_file d name =
     (case files d name of
        Some c \<Rightarrow> if can_read d name then Inr c else Inl (PanicMsg ''open'')
      | None \<Rightarrow> Inl (PanicMsg ''open''))"

definition write_file :: "disk \<Rightarrow> string \<Rightarrow> bytes \<Rightarrow> disk go" where
  "write_file d name c =
     (if can_write d name then Inr (d\<lparr>files := (files d)(name \<mapsto> c)\<rparr>) else Inl (PanicMsg ''open''))"

text \<open>\<open>yaml\<close> is the decoder of the YAML library: the filled configuration, and no error.\<close>

definition LoadConfig ::
  "(bytes \<Rightarrow> Configuration \<Rightarrow> Configuration \<times> bool) \<Rightarrow> disk \<Rightarrow> string \<Rightarrow> Configuration go" where
  "LoadConfig yaml d path =
     go_bind (read_file d path) (\<lambda>text.
       case yaml text default_config of
         (cfg, ok) \<Rightarrow> if ok then Inr cfg else Inl (PanicMsg ''yaml''))"

section \<open>The parts\<close>

text \<open>The two nibs; a pool with a negative limit would panic at its first \<open>make\<close>.\<close>

datatype nib_kind = DummyNib | HttpNib int duration TLSConf

definition NewNibMaker :: "ProtoConf \<Rightarrow> nib_kind go" where
  "NewNibMaker protocol =
     (if Driver protocol = ''dummy'' then Inr DummyNib
      else if Driver protocol = ''http''
      then Inr (HttpNib (MaxConns protocol) (Timeout protocol) (TlsSettings protocol))
      else Inl (PanicMsg ''Unsupported protocol driver''))"

text \<open>What \<open>NewInput\<close> has before its goroutine starts: the file and the strings.\<close>

record input_source =
  srcContent :: bytes
  srcStrings :: "StrIndex option"
  srcLimit :: int

definition NewInput :: "disk \<Rightarrow> InputConf \<Rightarrow> input_source go" where
  "NewInput d conf =
     go_bind (read_file d (PayloadFile conf)) (\<lambda>c.
     go_bind (if InStringsFile conf \<noteq> '''' then map_sum id Some (NewStringIndex d (InStringsFile conf) True) else Inr None)
       (\<lambda>si. Inr \<lparr>srcContent = c, srcStrings = si, srcLimit = InIterationLimit conf\<rparr>))"

text \<open>
  \<open>BaseWorkload\<close>: without \<open>enableregexes\<close> the workers share one input, opened here; with it each
  worker opens its own when it is spawned.
\<close>

record worker_state =
  Index :: int
  ownInput :: "input_source option"
  Values :: ValMap

record BaseWorkload =
  sharedInput :: "input_source option"
  Scenario :: "WorkloadLevel list"
  baseValues :: ValMap
  spawned :: int
  WorkerList :: "worker_state list"

definition NewBaseWorkload :: "disk \<Rightarrow> InputConf \<Rightarrow> WorkerConf \<Rightarrow> BaseWorkload go" where
  "NewBaseWorkload d inputConfig wconf =
     go_bind (if EnableRegexes inputConfig then Inr None else map_sum id Some (NewInput d inputConfig)) (\<lambda>shared.
       Inr \<lparr>sharedInput = shared, Scenario = WorkloadSchedule wconf, baseValues = ConfValues wconf, spawned = 0,
            WorkerList = []\<rparr>)"

definition NewBasicWorker :: "disk \<Rightarrow> InputConf \<Rightarrow> int \<Rightarrow> BaseWorkload \<Rightarrow> worker_state go" where
  "NewBasicWorker d inputConfig i wl =
     (case sharedInput wl of
        Some _ \<Rightarrow> Inr \<lparr>Index = i, ownInput = None, Values = baseValues wl\<rparr>
      | None \<Rightarrow> go_bind (NewInput d inputConfig) (\<lambda>src. Inr \<lparr>Index = i, ownInput = Some src, Values = baseValues wl\<rparr>))"

definition SpawnWorker :: "disk \<Rightarrow> InputConf \<Rightarrow> BaseWorkload \<Rightarrow> BaseWorkload go" where
  "SpawnWorker d inputConfig wl =
     go_bind (NewBasicWorker d inputConfig (spawned wl + 1) wl) (\<lambda>w.
       Inr (wl\<lparr>spawned := spawned wl + 1, WorkerList := WorkerList wl @ [w]\<rparr>))"

text \<open>The two workloads; their channels are part of \<open>process\<close> below.\<close>

record OpenWorkload =
  openBase :: BaseWorkload
  openMin :: int
  openMax :: int
  sumDurations :: duration

record ClosedWorkload =
  closedBase :: BaseWorkload
  closedInput :: InputConf

datatype workload = OpenMode OpenWorkload | ClosedMode ClosedWorkload

definition NewOpenWorkload :: "WorkerConf \<Rightarrow> BaseWorkload \<Rightarrow> workload" where
  "NewOpenWorkload workers base =
     OpenMode \<lparr>openBase = base, openMin = StartingWorkers workers, openMax = MaxWorkers workers,
       sumDurations = sum_durations (WorkloadSchedule workers)\<rparr>"

definition NewClosedWorkload :: "InputConf \<Rightarrow> BaseWorkload \<Rightarrow> workload" where
  "NewClosedWorkload inputConfig base = ClosedMode \<lparr>closedBase = base, closedInput = inputConfig\<rparr>"

definition NewWorkload :: "disk \<Rightarrow> WorkerConf \<Rightarrow> InputConf \<Rightarrow> workload go" where
  "NewWorkload d workersConf inputConfig =
     go_bind (NewBaseWorkload d inputConfig workersConf) (\<lambda>base.
       if Mode workersConf = ''open'' then Inr (NewOpenWorkload workersConf base)
       else if Mode workersConf = ''closed'' then Inr (NewClosedWorkload inputConfig base)
       else Inl (PanicMsg ''Unsupported workers mode''))"

text \<open>
  \<open>Run\<close> up to the start of the controller: the strings file of the input is copied over that of the
  output, so that both number the same strings alike.
\<close>

definition copy_strings :: "disk \<Rightarrow> Configuration \<Rightarrow> disk go" where
  "copy_strings d config =
     (if InStringsFile (Input config) \<noteq> '''' \<and> StringsFile (OutputPart config) \<noteq> ''''
      then go_bind (read_file d (InStringsFile (Input config))) (write_file d (StringsFile (OutputPart config)))
      else Inr d)"

definition Run_setup :: "disk \<Rightarrow> Configuration \<Rightarrow> (Output \<times> nib_kind \<times> workload) go" where
  "Run_setup d config =
     go_bind (copy_strings d config) (\<lambda>d.
     go_bind (NewOutput d (OutputPart config)) (\<lambda>output.
     go_bind (NewNibMaker (Protocol config)) (\<lambda>nibMaker.
     go_bind (NewWorkload d (Workers config) (Input config)) (\<lambda>wl. Inr (output, nibMaker, wl)))))"

definition base_of :: "workload \<Rightarrow> BaseWorkload" where
  "base_of wl = (case wl of OpenMode w \<Rightarrow> openBase w | ClosedMode w \<Rightarrow> closedBase w)"

text \<open>
  \<open>main\<close> with what the package \<open>flag\<close> makes of the command line: whether help was asked for, and the
  arguments that are no flags.
\<close>

datatype 'a main_outcome = ExitWith int | GoesOn 'a

definition main_start ::
  "(bytes \<Rightarrow> Configuration \<Rightarrow> Configuration \<times> bool) \<Rightarrow> disk \<Rightarrow> bool \<Rightarrow> string list
   \<Rightarrow> (Output \<times> nib_kind \<times> workload) main_outcome go" where
  "main_start yaml d help args =
     (if help then Inr (ExitWith 0)
      else case args of
        [] \<Rightarrow> Inr (ExitWith 1)
      | path # _ \<Rightarrow> go_bind (LoadConfig yaml d path) (\<lambda>config. map_sum id GoesOn (Run_setup d config)))"


section \<open>Numbers of the input mean the same in the output\<close>

text \<open>The strings that loading a file gives do not depend on the file's name or mode.\<close>

lemma Load_index:
  "Load d s = Inr s' \<Longrightarrow> \<exists>c. files d (filename s) = Some c \<and> index s' = index s @ map drop_cr (raw_lines c)"
  by (auto simp: Load_def split: option.splits if_splits)

lemma NewStringIndex_index:
  assumes "NewStringIndex d f ro = Inr s" "f \<noteq> ''''" "files d f = Some c"
  shows "index s = '''' # map drop_cr (raw_lines c)"
proof -
  have "Load d (fresh_index f ro) = Inr s" using assms by (simp add: NewStringIndex_def)
  from Load_index [OF this] show ?thesis using assms(3) by (auto simp: fresh_index_def)
qed

lemma NewOutput_strings:
  assumes "NewOutput d conf = Inr out" "StringsFile conf \<noteq> ''''"
  shows "\<exists>s. strIndex out = Some (d, s) \<and> NewStringIndex d (StringsFile conf) False = Inr s"
  using assms by (auto simp: NewOutput_def Let_def go_convs map_sum_def split: sum.splits)

lemma map_sum_Inr: "map_sum id f m = Inr x \<longleftrightarrow> (\<exists>y. m = Inr y \<and> x = f y)"
  by (cases m) auto

lemma NewWorkload_source:
  assumes "NewWorkload d w i = Inr wl" "sharedInput (base_of wl) = Some src"
  shows "NewInput d i = Inr src"
  using assms
  by (auto simp: NewWorkload_def NewOpenWorkload_def NewClosedWorkload_def NewBaseWorkload_def go_convs base_of_def map_sum_Inr split: if_splits)

lemma NewInput_strings:
  assumes "NewInput d i = Inr src" "InStringsFile i \<noteq> ''''"
  shows "\<exists>s. srcStrings src = Some s \<and> NewStringIndex d (InStringsFile i) True = Inr s"
  using assms by (auto simp: NewInput_def go_convs map_sum_Inr)

lemma copy_strings_files:
  assumes "copy_strings d config = Inr d'" "InStringsFile (Input config) \<noteq> ''''" "StringsFile (OutputPart config) \<noteq> ''''"
  shows "\<exists>c. files d' (InStringsFile (Input config)) = Some c \<and> files d' (StringsFile (OutputPart config)) = Some c"
  using assms by (auto simp: copy_strings_def read_file_def write_file_def go_convs split: option.splits if_splits)

lemma numbers_mean_the_same:
  assumes "Run_setup d config = Inr (out, nk, wl)" "InStringsFile (Input config) \<noteq> ''''"
    "StringsFile (OutputPart config) \<noteq> ''''" "sharedInput (base_of wl) = Some src"
  shows "get_string (srcStrings src) idx = ptr_get (strIndex out) idx \<and> srcStrings src \<noteq> None"
proof -
  obtain d' where d': "copy_strings d config = Inr d'" "NewOutput d' (OutputPart config) = Inr out"
      "NewWorkload d' (Workers config) (Input config) = Inr wl"
    using assms(1) by (auto simp: Run_setup_def go_convs)
  obtain c where c: "files d' (InStringsFile (Input config)) = Some c" "files d' (StringsFile (OutputPart config)) = Some c"
    using copy_strings_files [OF d'(1) assms(2,3)] by blast
  obtain s where s: "srcStrings src = Some s" "NewStringIndex d' (InStringsFile (Input config)) True = Inr s"
    using NewInput_strings [OF NewWorkload_source [OF d'(3) assms(4)] assms(2)] by blast
  obtain t where t: "strIndex out = Some (d', t)" "NewStringIndex d' (StringsFile (OutputPart config)) False = Inr t"
    using NewOutput_strings [OF d'(2) assms(3)] by blast
  have "index s = index t"
    using NewStringIndex_index [OF s(2) assms(2) c(1)] NewStringIndex_index [OF t(2) assms(3) c(2)] by simp
  then show ?thesis by (simp add: s(1) t(1) get_string_def ptr_get_def Get_def)
qed

text \<open>
  C17: when the program starts with a strings file for the input and one for the output, every number
  has the same meaning in both: what a payload item calls its label, address, extractor or assertion
  by is what a reader of the results finds under the number, and a number without a string panics in
  both.
\<close>
theorem input_numbers_resolve_in_output:
  assumes "Run_setup d config = Inr (out, nk, wl)" "InStringsFile (Input config) \<noteq> ''''"
    "StringsFile (OutputPart config) \<noteq> ''''" "sharedInput (base_of wl) = Some src"
  shows "get_string (srcStrings src) idx = ptr_get (strIndex out) idx \<and> srcStrings src \<noteq> None"
  by (rule numbers_mean_the_same [OF assms])

definition example_disk :: disk where
  "example_disk = \<lparr>files = [''in'' \<mapsto> ''/index'' @ [LF], ''payload'' \<mapsto> ''{}''], can_read = (\<lambda>_. True), can_write = (\<lambda>_. True)\<rparr>"

definition example_config :: Configuration where
  "example_config = default_config
     \<lparr>Input := (Input default_config)\<lparr>PayloadFile := ''payload'', InStringsFile := ''in''\<rparr>,
      OutputPart := (OutputPart default_config)\<lparr>BinaryFileName := ''res'', StringsFile := ''out''\<rparr>,
      Workers := (Workers default_config)\<lparr>Mode := ''open''\<rparr>,
      Protocol := (Protocol default_config)\<lparr>Driver := ''http''\<rparr>\<rparr>"

lemma example_setup:
  "case Run_setup example_disk example_config of
     Inr (out, nk, wl) \<Rightarrow> (case sharedInput (base_of wl) of Some src \<Rightarrow> get_string (srcStrings src) 1 = Inr ''/index'' | None \<Rightarrow> False)
   | Inl _ \<Rightarrow> False"
  by (simp add: Run_setup_def copy_strings_def example_config_def example_disk_def default_config_def read_file_def
      write_file_def NewOutput_def NewStringIndex_def Load_def fresh_index_def load_line_def max_token_def drop_cr_def
      NewNibMaker_def NewWorkload_def NewOpenWorkload_def NewClosedWorkload_def NewBaseWorkload_def NewInput_def base_of_def get_string_def Get_def Let_def)

theorem input_numbers_resolve_in_output_witness:
  "\<exists>out nk wl. Run_setup example_disk example_config = Inr (out, nk, wl) \<and> ptr_get (strIndex out) 1 = Inr ''/index''"
proof -
  obtain out nk wl src where r: "Run_setup example_disk example_config = Inr (out, nk, wl)"
      "sharedInput (base_of wl) = Some src" "get_string (srcStrings src) 1 = Inr ''/index''"
    using example_setup by (auto split: sum.splits option.splits prod.splits)
  have "InStringsFile (Input example_config) \<noteq> ''''" "StringsFile (OutputPart example_config) \<noteq> ''''"
    by (simp_all add: example_config_def default_config_def)
  from input_numbers_resolve_in_output [OF r(1) this r(2), of 1] r show ?thesis by auto
qed

section \<open>Workers\<close>

fun spawn_many :: "nat \<Rightarrow> disk \<Rightarrow> InputConf \<Rightarrow> BaseWorkload \<Rightarrow> BaseWorkload go" where
  "spawn_many 0 d conf wl = Inr wl"
| "spawn_many (Suc n) d conf wl = go_bind (SpawnWorker d conf wl) (spawn_many n d conf)"

definition workers_ok :: "BaseWorkload \<Rightarrow> bool" where
  "workers_ok wl =
     (spawned wl = int (length (WorkerList wl))
      \<and> (\<forall>k < length (WorkerList wl). Index (WorkerList wl ! k) = int k + 1 \<and> Values (WorkerList wl ! k) = baseValues wl
           \<and> Option.is_none (ownInput (WorkerList wl ! k)) = (\<not> Option.is_none (sharedInput wl))))"

lemma SpawnWorker_ok:
  assumes "workers_ok wl" "SpawnWorker d conf wl = Inr wl'"
  shows "workers_ok wl' \<and> baseValues wl' = baseValues wl \<and> sharedInput wl' = sharedInput wl
    \<and> length (WorkerList wl') = Suc (length (WorkerList wl))"
  using assms
  by (auto simp: workers_ok_def SpawnWorker_def NewBasicWorker_def go_convs nth_append less_Suc_eq split: option.splits)

text \<open>
  The workers are numbered from 1 in the order of their start, each begins with a copy of the
  configured values, and each reads its own input exactly when \<open>enableregexes\<close> is set.
\<close>
lemma spawned_workers:
  assumes "NewBaseWorkload d conf wconf = Inr wl" "spawn_many n d conf wl = Inr wl'"
  shows "length (WorkerList wl') = n \<and> (\<forall>k < n. Index (WorkerList wl' ! k) = int k + 1
    \<and> Values (WorkerList wl' ! k) = ConfValues wconf \<and> Option.is_none (ownInput (WorkerList wl' ! k)) = (\<not> EnableRegexes conf))"
proof -
  have "spawn_many n d conf wl = Inr wl' \<Longrightarrow> workers_ok wl \<Longrightarrow>
      workers_ok wl' \<and> length (WorkerList wl') = n + length (WorkerList wl) \<and> baseValues wl' = baseValues wl
      \<and> sharedInput wl' = sharedInput wl" for wl
  proof (induction n arbitrary: wl)
    case (Suc n)
    then obtain wl1 where "SpawnWorker d conf wl = Inr wl1" "spawn_many n d conf wl1 = Inr wl'"
      by (auto simp: go_convs)
    then show ?case using Suc.IH [of wl1] SpawnWorker_ok [OF Suc.prems(2)] by auto
  qed simp
  moreover have "workers_ok wl \<and> WorkerList wl = [] \<and> baseValues wl = ConfValues wconf
      \<and> Option.is_none (sharedInput wl) = EnableRegexes conf"
    using assms(1) by (auto simp: NewBaseWorkload_def workers_ok_def go_convs map_sum_Inr split: if_splits)
  ultimately show ?thesis using assms(2) by (auto simp: workers_ok_def)
qed


section \<open>The dummy nib\<close>

text \<open>\<open>now\<close> is the time in seconds, \<open>took\<close> what the clock says the sleep took.\<close>

definition dummy_duration :: "int \<Rightarrow> duration" where
  "dummy_duration now = rem64 now 100 * 1000"

definition DummyPunch :: "int \<Rightarrow> duration \<Rightarrow> PayloadItem \<Rightarrow> OutputItem" where
  "DummyPunch now took item =
     new_result\<lparr>OutputItem.Status := word_of_int ((1 + rem64 now 5) * 100), OutLabel := ''label#'' @ itoa (rem64 now 3),
       ReqBytes := Payload item, SentBytesCount := word_of_int (PayloadLen item), RespBytes := Some (Payload item),
       RespBytesCount := word_of_int (PayloadLen item), OutLabelIdx := 0, Elapsed := took,
       Error := (if dummy_duration now * 10 < took then Some ''timeout occured'' else None)\<rparr>"

lemma dummy_status:
  assumes "0 \<le> now"
  shows "OutputItem.Status (DummyPunch now took item) \<in> {100, 200, 300, 400, 500}"
proof -
  have "0 \<le> now mod 5" "now mod 5 < 5" by simp_all
  then have "now mod 5 \<in> {0, 1, 2, 3, 4}" by auto
  moreover have "rem64 now 5 = now mod 5" using assms by (auto simp: rem64_def sgn_if)
  ultimately show ?thesis by (auto simp: DummyPunch_def)
qed

section \<open>The log\<close>

text \<open>
  \<open>OutputSplitter.Write\<close>: what goes to the standard error and to the standard output, and what is
  returned; each argument is the outcome of a write.
\<close>

definition splitter_write ::
  "int \<times> string option \<Rightarrow> int \<times> string option \<Rightarrow> bytes \<Rightarrow> bytes option \<times> bytes option \<times> (int \<times> string option)" where
  "splitter_write err_res out_res p =
     (if Contains p ''level=error'' \<or> Contains p ''level=warning''
      then if snd err_res \<noteq> None then (Some p, None, err_res) else (Some p, Some p, out_res)
      else (None, Some p, out_res))"

section \<open>The end of the program\<close>

text \<open>
  The main goroutine and that of the signals.  \<open>doneFull\<close> is the channel \<open>done\<close>, of one place;
  \<open>exited\<close> is the end of the process, after which nothing runs.
\<close>

datatype main_pc = Starting | Running | Returned | OutputClosed

datatype signal_pc = AwaitSignal | AwaitDone | Exiting

record process =
  mainAt :: main_pc
  signalAt :: signal_pc
  doneFull :: bool
  exited :: bool

definition process_start :: process where
  "process_start = \<lparr>mainAt = Starting, signalAt = AwaitSignal, doneFull = False, exited = False\<rparr>"

text \<open>
  The actions: the controller is set and run, \<open>Run\<close> of the workload returns, the deferred \<open>Close\<close> of
  the output, the end of \<open>main\<close>; a signal, with \<open>Interrupt\<close> if there is a controller, the receive from
  \<open>done\<close>, and \<open>os.Exit(2)\<close>.
\<close>

datatype process_act = StartController | WorkloadDone | CloseOutput | EndMain | Signal | ReceiveDone | ExitTwo

fun main_step :: "process_act \<Rightarrow> process \<Rightarrow> process option" where
  "main_step StartController p = guard (mainAt p = Starting) (p\<lparr>mainAt := Running\<rparr>)"
| "main_step WorkloadDone p = guard (mainAt p = Running \<and> \<not> doneFull p) (p\<lparr>mainAt := Returned, doneFull := True\<rparr>)"
| "main_step CloseOutput p = guard (mainAt p = Returned) (p\<lparr>mainAt := OutputClosed\<rparr>)"
| "main_step EndMain p = guard (mainAt p = OutputClosed) (p\<lparr>exited := True\<rparr>)"
| "main_step Signal p =
     guard (signalAt p = AwaitSignal) (p\<lparr>signalAt := (if mainAt p = Starting then Exiting else AwaitDone)\<rparr>)"
| "main_step ReceiveDone p = guard (signalAt p = AwaitDone \<and> doneFull p) (p\<lparr>signalAt := Exiting, doneFull := False\<rparr>)"
| "main_step ExitTwo p = guard (signalAt p = Exiting) (p\<lparr>exited := True\<rparr>)"

definition process_step :: "process_act \<Rightarrow> process \<Rightarrow> process option" where
  "process_step a p = (if exited p then None else main_step a p)"

interpretation undisturbed: invariant_of process_step "\<lambda>a. a \<noteq> Signal"
  "\<lambda>p. signalAt p = AwaitSignal \<and> (exited p \<longrightarrow> mainAt p = OutputClosed)"
proof
  fix p a p'
  assume "signalAt p = AwaitSignal \<and> (exited p \<longrightarrow> mainAt p = OutputClosed)" "a \<noteq> Signal" "process_step a p = Some p'"
  then show "signalAt p' = AwaitSignal \<and> (exited p' \<longrightarrow> mainAt p' = OutputClosed)"
    by (cases a) (auto simp: process_step_def split: if_splits)
qed



end
