(* ===== verification/Http_Buffer.thy ===== *)
theory Http_Buffer
  imports Prelude
begin

text \<open>
  \<open>BufferedConn\<close> of \<open>pkg/http/conn.go\<close>: a goroutine reads the connection and passes what it reads
  through a channel to the readers of the response, and keeps a copy for the result.
\<close>

section \<open>\<open>bytes.Buffer\<close>\<close>

text \<open>
  The buffer of the copy is only written, truncated to nothing and read as a slice.  The arrays that
  were allocated for it stay in the order of their allocation; a slice names its array and a length,
  so a later write to the same array shows through it.
\<close>

record gobuf =
  arrays :: "bytes list"
  blen :: nat

type_synonym slice_ref = "nat \<times> nat"

definition empty_buf :: gobuf where
  "empty_buf = \<lparr>arrays = [], blen = 0\<rparr>"

definition array_cap :: "gobuf \<Rightarrow> nat" where
  "array_cap b = (if arrays b = [] then 0 else length (last (arrays b)))"

definition contents :: "gobuf \<Rightarrow> bytes" where
  "contents b = (if arrays b = [] then [] else take (blen b) (last (arrays b)))"

text \<open>\<open>Write\<close> stays in the array while there is room and else moves to a new one of twice the size.\<close>

definition grown_cap :: "gobuf \<Rightarrow> nat \<Rightarrow> nat" where
  "grown_cap b n = (if arrays b = [] \<and> n \<le> 64 then 64 else max (blen b + n) (2 * array_cap b))"

definition buf_write :: "bytes \<Rightarrow> gobuf \<Rightarrow> gobuf" where
  "buf_write p b =
     (let l = blen b; n = length p
      in if arrays b \<noteq> [] \<and> l + n \<le> array_cap b
         then \<lparr>arrays = butlast (arrays b) @ [take l (last (arrays b)) @ p @ drop (l + n) (last (arrays b))],
               blen = l + n\<rparr>
         else \<lparr>arrays = arrays b @ [contents b @ p @ replicate (grown_cap b n - (l + n)) (CHR 0x00)],
               blen = l + n\<rparr>)"

definition buf_reset :: "gobuf \<Rightarrow> gobuf" where
  "buf_reset b = b\<lparr>blen := 0\<rparr>"

definition buf_bytes :: "gobuf \<Rightarrow> slice_ref" where
  "buf_bytes b = (length (arrays b) - 1, blen b)"

definition look :: "gobuf \<Rightarrow> slice_ref \<Rightarrow> bytes" where
  "look b r = (if fst r < length (arrays b) then take (snd r) (arrays b ! fst r) else [])"

definition buf_ok :: "gobuf \<Rightarrow> bool" where
  "buf_ok b = (blen b \<le> array_cap b)"

lemma buf_write_ok: "buf_ok b \<Longrightarrow> buf_ok (buf_write p b) \<and> contents (buf_write p b) = contents b @ p"
  by (auto simp: buf_ok_def buf_write_def contents_def array_cap_def grown_cap_def Let_def)

lemma buf_reset_ok: "buf_ok b \<Longrightarrow> buf_ok (buf_reset b) \<and> contents (buf_reset b) = []"
  by (auto simp: buf_ok_def buf_reset_def contents_def array_cap_def)

lemma look_bytes: "look b (buf_bytes b) = contents b"
proof (cases "arrays b = []")
  case False
  then show ?thesis by (simp add: look_def buf_bytes_def contents_def last_conv_nth)
qed (simp add: look_def buf_bytes_def contents_def)

text \<open>What a slice shows once the buffer was emptied and written again.\<close>

lemma look_after_reuse:
  assumes "buf_ok b" "r = buf_bytes b" "arrays b \<noteq> []" "length p \<le> array_cap b"
  shows "look (buf_write p (buf_reset b)) r = take (blen b) p @ drop (length p) (contents b)"
proof -
  obtain as a where ab: "arrays b = as @ [a]" using assms(3) by (metis append_butlast_last_id)
  then have cap: "array_cap b = length a" "length p \<le> length a" "blen b \<le> length a"
    using assms(1,4) by (auto simp: array_cap_def buf_ok_def)
  have "contents b = take (blen b) a" using ab by (auto simp: contents_def)
  moreover have "arrays (buf_write p (buf_reset b)) = as @ [p @ drop (length p) a]"
    using ab cap by (auto simp: buf_write_def buf_reset_def array_cap_def Let_def)
  ultimately show ?thesis
    using ab cap assms(2) by (simp add: look_def buf_bytes_def drop_take)
qed

section \<open>The connection\<close>

text \<open>
  Where the reading goroutine stands.  \<open>Sending\<close> holds the chunk it offers on the channel; \<open>Ending\<close>
  is between the loop and the \<open>Close\<close> that follows it; \<open>Crashed\<close> is the panic of a send on the closed
  channel.
\<close>

datatype loop_pc = AtHead | InRead | Sending bytes | Ending | LoopDone | Crashed

text \<open>\<open>readRoom\<close> is the length of the slice a call of \<open>Read\<close> that waits for a chunk was given.\<close>

record bconn =
  ReadRecordLimit :: int
  ReadRecorded :: gobuf
  ReadLen :: int
  FirstRead :: "int option"
  Err :: "string option"
  Canceled :: bool
  chanClosed :: bool
  loop :: loop_pc
  readRoom :: "nat option"
  arrived :: bytes \<comment> \<open>what the connection has given since the last reset\<close>
  handed :: bytes \<comment> \<open>what the calls of \<open>Read\<close> have returned since the last reset\<close>

definition newBufferedConn :: bconn where
  "newBufferedConn = \<lparr>ReadRecordLimit = -1, ReadRecorded = empty_buf, ReadLen = 0, FirstRead = None, Err = None,
     Canceled = False, chanClosed = False, loop = AtHead, readRoom = None, arrived = [], handed = []\<rparr>"

definition read_size :: nat where "read_size = 4096"

text \<open>
  The actions: those of the goroutine (the test of \<open>Canceled\<close>, the two outcomes of the read from the
  network, the end), those of a call of \<open>Read\<close> (the test of the error, the receipt of a chunk, the
  receipt from the closed channel), a \<open>Close\<close> by another goroutine, the reset for the next use, and
  the limit set for it.
\<close>

datatype conn_act =
    Head | NetData bytes int | NetErr string | EndLoop
  | StartRead nat | Receive | ReceiveClosed
  | CloseConn | ResetConn | SetLimit int

definition close_conn :: "bconn \<Rightarrow> bconn" where
  "close_conn c =
     c\<lparr>Canceled := True, chanClosed := True,
       loop := (case loop c of Sending b \<Rightarrow> if chanClosed c then loop c else Crashed | l \<Rightarrow> l)\<rparr>"

definition got_data :: "bytes \<Rightarrow> int \<Rightarrow> bconn \<Rightarrow> bconn" where
  "got_data b now c =
     (let len = ReadLen c + int (length b)
      in c\<lparr>FirstRead := (case FirstRead c of None \<Rightarrow> Some now | t \<Rightarrow> t),
           ReadLen := len,
           ReadRecorded := (if (ReadRecordLimit c \<le> 0 \<or> len \<le> ReadRecordLimit c) \<and> 0 < length b
                            then buf_write b (ReadRecorded c) else ReadRecorded c),
           arrived := arrived c @ b,
           loop := (if chanClosed c then Crashed else Sending b)\<rparr>)"

fun conn_step :: "conn_act \<Rightarrow> bconn \<Rightarrow> bconn option" where
  "conn_step Head c = guard (loop c = AtHead) (c\<lparr>loop := (if Canceled c then Ending else InRead)\<rparr>)"
| "conn_step (NetData b now) c = guard (loop c = InRead \<and> length b \<le> read_size) (got_data b now c)"
| "conn_step (NetErr e) c = guard (loop c = InRead) (c\<lparr>Err := Some e, Canceled := True, loop := Ending\<rparr>)"
| "conn_step EndLoop c = guard (loop c = Ending) ((close_conn c)\<lparr>loop := LoopDone\<rparr>)"
| "conn_step (StartRead n) c = guard (readRoom c = None \<and> Err c = None) (c\<lparr>readRoom := Some n\<rparr>)"
| "conn_step Receive c =
     (case (readRoom c, loop c) of
        (Some n, Sending b) \<Rightarrow> Some (c\<lparr>readRoom := None, loop := AtHead, handed := handed c @ take n b\<rparr>)
      | _ \<Rightarrow> None)"
| "conn_step ReceiveClosed c = guard (readRoom c \<noteq> None \<and> chanClosed c) (c\<lparr>readRoom := None\<rparr>)"
| "conn_step CloseConn c = Some (close_conn c)"
| "conn_step ResetConn c = Some (c\<lparr>ReadLen := 0, ReadRecorded := buf_reset (ReadRecorded c), FirstRead := None,
     arrived := [], handed := []\<rparr>)"
| "conn_step (SetLimit n) c = Some (c\<lparr>ReadRecordLimit := n\<rparr>)"

section \<open>The readers see the bytes of the network\<close>

definition in_hand :: "bconn \<Rightarrow> bytes" where
  "in_hand c = (case loop c of Sending b \<Rightarrow> b | _ \<Rightarrow> [])"

text \<open>Actions of one use of a connection whose reads all have room for a whole chunk.\<close>

fun roomy :: "conn_act \<Rightarrow> bool" where
  "roomy (StartRead n) = (read_size \<le> n)"
| "roomy ResetConn = False"
| "roomy _ = True"

definition stream_ok :: "bconn \<Rightarrow> bool" where
  "stream_ok c =
     ((loop c \<noteq> Crashed \<longrightarrow> arrived c = handed c @ in_hand c) \<and> length (in_hand c) \<le> read_size
      \<and> (\<forall>n. readRoom c = Some n \<longrightarrow> read_size \<le> n))"

interpretation stream: invariant_of conn_step roomy stream_ok
proof
  fix c a c'
  assume "stream_ok c" "roomy a" "conn_step a c = Some c'"
  then show "stream_ok c'"
    by (cases a) (auto simp: stream_ok_def in_hand_def got_data_def close_conn_def Let_def
        split: loop_pc.splits option.splits if_splits)
qed


lemmas conn_run_simps = newBufferedConn_def guard_def got_data_def close_conn_def read_size_def Let_def
  buf_write_def buf_reset_def array_cap_def grown_cap_def contents_def empty_buf_def


section \<open>The copy for the result\<close>

definition record_ok :: "int \<Rightarrow> bconn \<Rightarrow> bool" where
  "record_ok n c =
     (ReadRecordLimit c = n \<and> ReadLen c = int (length (arrived c)) \<and> buf_ok (ReadRecorded c)
      \<and> (\<exists>rest. arrived c = contents (ReadRecorded c) @ rest
           \<and> (rest \<noteq> [] \<longrightarrow> 0 < n \<and> n < ReadLen c)
           \<and> (0 < n \<longrightarrow> int (length (contents (ReadRecorded c))) \<le> n)))"

lemma record_data:
  assumes "record_ok n c"
  shows "record_ok n (got_data b now c)"
proof -
  obtain rest where r: "ReadRecordLimit c = n" "ReadLen c = int (length (arrived c))" "buf_ok (ReadRecorded c)"
      "arrived c = contents (ReadRecorded c) @ rest" "rest \<noteq> [] \<longrightarrow> 0 < n \<and> n < ReadLen c"
      "0 < n \<longrightarrow> int (length (contents (ReadRecorded c))) \<le> n"
    using assms by (auto simp: record_ok_def)
  show ?thesis
  proof (cases "(n \<le> 0 \<or> ReadLen c + int (length b) \<le> n) \<and> b \<noteq> []")
    case True
    then have "rest = []" using r(5) by auto
    then show ?thesis
      using True r buf_write_ok [OF r(3), of b] by (auto simp: record_ok_def got_data_def Let_def)
  next
    case False
    then show ?thesis
      using r by (auto simp: record_ok_def got_data_def Let_def intro!: exI [of _ "rest @ b"])
  qed
qed

fun same_limit :: "int \<Rightarrow> conn_act \<Rightarrow> bool" where
  "same_limit n (SetLimit m) = (m = n)"
| "same_limit n _ = True"

interpretation recorded: invariant_of conn_step "same_limit n" "record_ok n"
proof
  fix c a c'
  assume ok: "record_ok n c" "same_limit n a" "conn_step a c = Some c'"
  show "record_ok n c'"
  proof (cases a)
    case (NetData b now)
    then show ?thesis using ok record_data by simp
  next
    case ResetConn
    then show ?thesis
      using ok buf_reset_ok [of "ReadRecorded c"] by (auto simp: record_ok_def)
  qed (use ok in \<open>auto simp: record_ok_def close_conn_def split: option.splits loop_pc.splits\<close>)
qed

text \<open>
  The copy kept for the result is the beginning of what has arrived since the last reset: all
  of it without a limit, and with a limit as many whole chunks as stay within it; \<open>ReadLen\<close> counts
  every byte, recorded or not.  The slice the result is given shows that copy.
\<close>
theorem recorded_is_prefix:
  assumes "run_steps conn_step as (newBufferedConn\<lparr>ReadRecordLimit := n\<rparr>) = Some c" "list_all (same_limit n) as"
  shows "ReadLen c = int (length (arrived c))
    \<and> (\<exists>rest. arrived c = look (ReadRecorded c) (buf_bytes (ReadRecorded c)) @ rest
        \<and> (n \<le> 0 \<or> int (length (arrived c)) \<le> n \<longrightarrow> rest = [])
        \<and> (0 < n \<longrightarrow> int (length (look (ReadRecorded c) (buf_bytes (ReadRecorded c)))) \<le> n))"
proof -
  have "record_ok n (newBufferedConn\<lparr>ReadRecordLimit := n\<rparr>)"
    by (auto simp: record_ok_def newBufferedConn_def buf_ok_def empty_buf_def contents_def)
  then have "record_ok n c" by (rule recorded.run_holds [OF assms])
  then show ?thesis by (auto simp: record_ok_def look_bytes)
qed

theorem recorded_is_prefix_witness:
  "let c = the (run_steps conn_step [Head, NetData ''abc'' 5, StartRead 4096, Receive, Head, NetData ''defg'' 6]
      (newBufferedConn\<lparr>ReadRecordLimit := 5\<rparr>)) in
   ReadLen c = 7 \<and> look (ReadRecorded c) (buf_bytes (ReadRecorded c)) = ''abc''"
proof -
  define as where "as = [Head, NetData ''abc'' 5, StartRead 4096, Receive, Head, NetData ''defg'' 6]"
  define c where "c = the (run_steps conn_step as (newBufferedConn\<lparr>ReadRecordLimit := 5\<rparr>))"
  have e: "run_steps conn_step as (newBufferedConn\<lparr>ReadRecordLimit := 5\<rparr>) = Some c \<and> arrived c = ''abcdefg''
      \<and> contents (ReadRecorded c) = ''abc''"
    unfolding c_def as_def by (simp add: conn_run_simps)
  have "list_all (same_limit 5) as" by (simp add: as_def)
  then show ?thesis
    using recorded_is_prefix [of as 5 c] e unfolding as_def [symmetric] c_def [symmetric] by (auto simp: look_bytes)
qed


section \<open>Where the connection fails its users\<close>

text \<open>
  \<open>bufio.Reader\<close> asks for as much as its buffer of 4096 bytes has left; what it holds is a part of a
  line it could not complete.
\<close>

definition fill_room :: "bytes \<Rightarrow> nat" where
  "fill_room held = 4096 - length held"

text \<open>
  A chunk longer than the room of the call that receives it loses its tail for good: if a
  response begins with a part \<open>p\<close> of a header line and goes on with a chunk \<open>b\<close> that is longer than
  what \<open>bufio.Reader\<close> has left, the last bytes of \<open>b\<close> reach no reader, whatever follows.
\<close>
theorem short_read_loses_tail:
  assumes "length p \<le> 4096" "length b \<le> 4096" "4096 < length p + length b"
  shows "\<exists>c. run_steps conn_step [Head, NetData p t, StartRead (fill_room []), Receive, Head, NetData b t',
              StartRead (fill_room p), Receive] newBufferedConn = Some c
    \<and> arrived c = p @ b \<and> in_hand c = [] \<and> handed c = p @ take (4096 - length p) b \<and> handed c \<noteq> arrived c"
proof -
  have "take (4096 - length p) b \<noteq> b" using assms by (simp add: take_all_iff not_le)
  then show ?thesis
    using assms(1,2) by (simp add: newBufferedConn_def guard_def got_data_def read_size_def Let_def fill_room_def in_hand_def)
qed

theorem short_read_loses_tail_witness:
  "\<exists>c. run_steps conn_step [Head, NetData ''HTTP/1.1'' 0, StartRead (fill_room []), Receive, Head,
         NetData (replicate 4096 (CHR ''x'')) 0, StartRead (fill_room ''HTTP/1.1''), Receive] newBufferedConn = Some c
    \<and> handed c = ''HTTP/1.1'' @ replicate 4088 (CHR ''x'')"
  using short_read_loses_tail [of "''HTTP/1.1''" "replicate 4096 (CHR ''x'')" 0 0] by (auto simp: take_replicate)

text \<open>
  Bytes that a server sends on an idle connection, which the goroutine has read and offers, are
  handed to the next user of the connection as the beginning of its response.
\<close>
theorem stale_bytes_answer_next_request:
  assumes "loop c = Sending b" "readRoom c = None" "Err c = None" "length b \<le> n"
  shows "\<exists>c'. run_steps conn_step [ResetConn, StartRead n, Receive] c = Some c'
    \<and> arrived c' = [] \<and> handed c' = b"
  using assms by (simp add: guard_def)

theorem stale_bytes_answer_next_request_witness:
  "\<exists>c'. run_steps conn_step [ResetConn, StartRead 4096, Receive]
      (the (run_steps conn_step [Head, NetData ''HTTP/1.1 408'' 9] newBufferedConn)) = Some c'
    \<and> arrived c' = [] \<and> handed c' = ''HTTP/1.1 408''"
proof -
  define c where "c = the (run_steps conn_step [Head, NetData ''HTTP/1.1 408'' 9] newBufferedConn)"
  have "loop c = Sending ''HTTP/1.1 408'' \<and> readRoom c = None \<and> Err c = None"
    unfolding c_def by (simp add: conn_run_simps)
  then show ?thesis
    using stale_bytes_answer_next_request [of c "''HTTP/1.1 408''" 4096] unfolding c_def [symmetric] by simp
qed

text \<open>Without a \<open>Close\<close> from outside the goroutine never sends on a closed channel.\<close>

fun from_inside :: "conn_act \<Rightarrow> bool" where
  "from_inside CloseConn = False"
| "from_inside _ = True"

definition open_ok :: "bconn \<Rightarrow> bool" where
  "open_ok c = (loop c \<noteq> Crashed \<and> (chanClosed c \<longrightarrow> loop c = LoopDone))"

interpretation opened: invariant_of conn_step from_inside open_ok
proof
  fix c a c'
  assume "open_ok c" "from_inside a" "conn_step a c = Some c'"
  then show "open_ok c'"
    by (cases a) (auto simp: open_ok_def got_data_def close_conn_def Let_def split: loop_pc.splits option.splits)
qed

text \<open>
  The goroutine never panics by itself, but a \<open>Close\<close> from outside, as after a response with
  \<open>Connection: close\<close>, makes it panic whenever it has a chunk in hand that no reader has taken, such
  as bytes after the end of the response.
\<close>
theorem close_panics_iff_chunk_in_hand:
  assumes "run_steps conn_step as newBufferedConn = Some c" "list_all from_inside as"
  shows "loop c \<noteq> Crashed \<and> (loop (the (conn_step CloseConn c)) = Crashed \<longleftrightarrow> (\<exists>b. loop c = Sending b))"
proof -
  have "open_ok c" by (rule opened.run_holds [OF assms]) (simp add: open_ok_def newBufferedConn_def)
  then show ?thesis by (cases "loop c") (auto simp: open_ok_def close_conn_def)
qed

theorem close_panics_iff_chunk_in_hand_witness:
  "loop (the (conn_step CloseConn (the (run_steps conn_step [Head, NetData ''response'' 0, StartRead 4096, Receive,
       Head, NetData ''extra'' 0] newBufferedConn)))) = Crashed"
proof -
  define as where "as = [Head, NetData ''response'' 0, StartRead 4096, Receive, Head, NetData ''extra'' 0]"
  define c where "c = the (run_steps conn_step as newBufferedConn)"
  have e: "run_steps conn_step as newBufferedConn = Some c \<and> loop c = Sending ''extra''"
    unfolding c_def as_def by (simp add: conn_run_simps)
  have "list_all from_inside as" by (simp add: as_def)
  then show ?thesis
    using close_panics_iff_chunk_in_hand [of as c] e unfolding as_def [symmetric] c_def [symmetric] by blast
qed

end
