(* ===== verification/Http_Pool.thy ===== *)
theory Http_Pool
  imports Http_Buffer
begin

text \<open>
  \<open>ConnPool\<close> of \<open>pkg/http/conn.go\<close>: the workers take connections from a channel of idle ones for each
  host and put them back.
\<close>

section \<open>The pool, its connections and its users\<close>

text \<open>
  Connections are named by their position in \<open>conns\<close>.  A worker is between uses, dials, uses a
  connection, or is blocked in \<open>Return\<close> because the channel of idle connections is full.
\<close>

datatype ustate = Free | Dialing string | Using string nat | Blocked string nat

record pool =
  Idle :: "string \<Rightarrow> nat list option"
  MaxConnections :: nat
  conns :: "bconn list"
  users :: "ustate list"
  closers :: "nat list" \<comment> \<open>connections that \<open>go conn.Close()\<close> was called for\<close>
  results :: "nat \<Rightarrow> (nat \<times> slice_ref) option" \<comment> \<open>\<open>RespBytes\<close> of the last result of a worker\<close>

definition NewConnectionPool :: "nat \<Rightarrow> nat \<Rightarrow> pool" where
  "NewConnectionPool maxConnections workers =
     \<lparr>Idle = Map.empty, MaxConnections = maxConnections, conns = [], users = replicate workers Free, closers = [],
      results = Map.empty\<rparr>"

text \<open>
  The actions: \<open>Get\<close> up to the dialing (with the blocked sender, if there is one, that the receive lets
  go on), the two outcomes of dialing, the three ways a worker can be done with a connection, and the
  steps of the connections: of the goroutine, of their user and of the closers.
\<close>

datatype pool_act =
    Get nat string "nat option"
  | Opened nat | OpenFailed nat
  | Return nat | CloseAfter nat | Abandon nat
  | Loop nat conn_act | Use nat conn_act | Closer nat

definition queue :: "pool \<Rightarrow> string \<Rightarrow> nat list" where
  "queue p h = (case Idle p h of None \<Rightarrow> [] | Some q \<Rightarrow> q)"

definition set_user :: "nat \<Rightarrow> ustate \<Rightarrow> pool \<Rightarrow> pool" where
  "set_user w u p = p\<lparr>users := (users p)[w := u]\<rparr>"

definition set_queue :: "string \<Rightarrow> nat list \<Rightarrow> pool \<Rightarrow> pool" where
  "set_queue h q p = p\<lparr>Idle := (Idle p)(h \<mapsto> q)\<rparr>"

definition set_conn :: "nat \<Rightarrow> bconn \<Rightarrow> pool \<Rightarrow> pool" where
  "set_conn k c p = p\<lparr>conns := (conns p)[k := c]\<rparr>"

definition user_is :: "pool \<Rightarrow> nat \<Rightarrow> ustate \<Rightarrow> bool" where
  "user_is p w u = (w < length (users p) \<and> users p ! w = u)"

fun blocked_on :: "string \<Rightarrow> ustate \<Rightarrow> bool" where
  "blocked_on h (Blocked h' _) = (h' = h)"
| "blocked_on h _ = False"

text \<open>The receive with a default, then the check of the error; the connection is reset for its next use.\<close>

definition take_idle :: "nat \<Rightarrow> string \<Rightarrow> nat list \<Rightarrow> pool \<Rightarrow> pool" where
  "take_idle w h avail p =
     (case avail of
        [] \<Rightarrow> set_user w (Dialing h) (set_queue h [] p)
      | k # rest \<Rightarrow>
          if Err (conns p ! k) = None
          then set_user w (Using h k) (set_conn k (the (conn_step ResetConn (conns p ! k))) (set_queue h rest p))
          else set_user w (Dialing h) (set_queue h rest p))"

definition done_with :: "nat \<Rightarrow> nat \<Rightarrow> pool \<Rightarrow> pool" where
  "done_with w k p = p\<lparr>results := (results p)(w \<mapsto> (k, buf_bytes (ReadRecorded (conns p ! k))))\<rparr>"

fun loop_act :: "conn_act \<Rightarrow> bool" where
  "loop_act Head = True"
| "loop_act (NetData b t) = True"
| "loop_act (NetErr e) = True"
| "loop_act EndLoop = True"
| "loop_act _ = False"

fun user_act :: "conn_act \<Rightarrow> bool" where
  "user_act (StartRead n) = True"
| "user_act Receive = True"
| "user_act ReceiveClosed = True"
| "user_act (SetLimit n) = True"
| "user_act _ = False"

fun pool_step :: "pool_act \<Rightarrow> pool \<Rightarrow> pool option" where
  "pool_step (Get w h None) p =
     guard (user_is p w Free \<and> list_all (\<lambda>u. \<not> blocked_on h u) (users p)) (take_idle w h (queue p h) p)"
| "pool_step (Get w h (Some v)) p =
     (if user_is p w Free \<and> v < length (users p)
      then (case users p ! v of
              Blocked h' k \<Rightarrow> guard (h' = h) (take_idle w h (queue p h @ [k]) (set_user v Free p))
            | _ \<Rightarrow> None)
      else None)"
| "pool_step (Opened w) p =
     (if w < length (users p)
      then (case users p ! w of
              Dialing h \<Rightarrow> Some (set_user w (Using h (length (conns p))) (p\<lparr>conns := conns p @ [newBufferedConn]\<rparr>))
            | _ \<Rightarrow> None)
      else None)"
| "pool_step (OpenFailed w) p =
     (if w < length (users p)
      then (case users p ! w of Dialing h \<Rightarrow> Some (set_user w Free p) | _ \<Rightarrow> None)
      else None)"
| "pool_step (Return w) p =
     (if w < length (users p)
      then (case users p ! w of
              Using h k \<Rightarrow> Some (let p = done_with w k p in
                if Canceled (conns p ! k) then set_user w Free p
                else if length (queue p h) < MaxConnections p
                then set_user w Free (set_queue h (queue p h @ [k]) p)
                else set_user w (Blocked h k) p)
            | _ \<Rightarrow> None)
      else None)"
| "pool_step (CloseAfter w) p =
     (if w < length (users p)
      then (case users p ! w of
              Using h k \<Rightarrow> Some (set_user w Free ((done_with w k p)\<lparr>closers := k # closers p\<rparr>))
            | _ \<Rightarrow> None)
      else None)"
| "pool_step (Abandon w) p =
     (if w < length (users p)
      then (case users p ! w of Using h k \<Rightarrow> Some (set_user w Free p) | _ \<Rightarrow> None)
      else None)"
| "pool_step (Loop k a) p =
     (if k < length (conns p) \<and> loop_act a
      then map_option (\<lambda>c. set_conn k c p) (conn_step a (conns p ! k)) else None)"
| "pool_step (Use w a) p =
     (if w < length (users p) \<and> user_act a
      then (case users p ! w of
              Using h k \<Rightarrow> map_option (\<lambda>c. set_conn k c p) (conn_step a (conns p ! k))
            | _ \<Rightarrow> None)
      else None)"
| "pool_step (Closer k) p =
     guard (k \<in> set (closers p) \<and> k < length (conns p))
       (set_conn k (close_conn (conns p ! k)) (p\<lparr>closers := remove1 k (closers p)\<rparr>))"

section \<open>No connection is used twice\<close>

datatype place = ByWorker nat | InQueue string

fun held_by :: "ustate \<Rightarrow> nat option" where
  "held_by (Using h k) = Some k"
| "held_by (Blocked h k) = Some k"
| "held_by _ = None"

fun owns :: "pool \<Rightarrow> place \<Rightarrow> nat \<Rightarrow> bool" where
  "owns p (ByWorker w) k = (w < length (users p) \<and> held_by (users p ! w) = Some k)"
| "owns p (InQueue h) k = (k \<in> set (queue p h))"

definition pool_ok :: "pool \<Rightarrow> bool" where
  "pool_ok p =
     ((\<forall>a b k. owns p a k \<longrightarrow> owns p b k \<longrightarrow> a = b)
      \<and> (\<forall>a k. owns p a k \<longrightarrow> k < length (conns p))
      \<and> (\<forall>h. distinct (queue p h) \<and> length (queue p h) \<le> MaxConnections p))"

lemma queue_simps [simp]:
  "queue (set_user w u p) h = queue p h" "queue (set_conn k c p) h = queue p h"
  "queue (set_queue h' q p) h = (if h = h' then q else queue p h)" "queue (done_with w k p) h = queue p h"
  "queue (p\<lparr>closers := cs\<rparr>) h = queue p h" "queue (p\<lparr>conns := ks\<rparr>) h = queue p h"
  by (simp_all add: queue_def set_user_def set_conn_def set_queue_def done_with_def)

lemma field_simps_pool [simp]:
  "users (set_user w u p) = (users p)[w := u]" "users (set_conn k c p) = users p" "users (set_queue h q p) = users p"
  "users (done_with w k p) = users p"
  "conns (set_user w u p) = conns p" "conns (set_conn k c p) = (conns p)[k := c]" "conns (set_queue h q p) = conns p"
  "conns (done_with w k p) = conns p"
  "MaxConnections (set_user w u p) = MaxConnections p" "MaxConnections (set_conn k c p) = MaxConnections p"
  "MaxConnections (set_queue h q p) = MaxConnections p" "MaxConnections (done_with w k p) = MaxConnections p"
  by (simp_all add: set_user_def set_conn_def set_queue_def done_with_def)


lemma owns_simps [simp]:
  "owns (set_user w u p) a k = (if a = ByWorker w \<and> w < length (users p) then held_by u = Some k else owns p a k)"
  "owns (set_queue h q p) a k = (if a = InQueue h then k \<in> set q else owns p a k)"
  "owns (set_conn j c p) a k = owns p a k" "owns (done_with v j p) a k = owns p a k"
  "owns (p\<lparr>closers := cs\<rparr>) a k = owns p a k" "owns (p\<lparr>conns := ks\<rparr>) a k = owns p a k"
  by (cases a; auto simp: nth_list_update)+

text \<open>The two halves of the invariant.\<close>

definition exclusive :: "pool \<Rightarrow> bool" where
  "exclusive p =
     ((\<forall>a b k. owns p a k \<longrightarrow> owns p b k \<longrightarrow> a = b) \<and> (\<forall>a k. owns p a k \<longrightarrow> k < length (conns p))
      \<and> (\<forall>h. distinct (queue p h)))"

definition bounded :: "pool \<Rightarrow> bool" where
  "bounded p = (\<forall>h. length (queue p h) \<le> MaxConnections p)"

lemma owns_worker: "w < length (users p) \<Longrightarrow> held_by (users p ! w) = Some k \<Longrightarrow> owns p (ByWorker w) k"
  by simp

lemma owns_queue: "k \<in> set (queue p h) \<Longrightarrow> owns p (InQueue h) k"
  by simp

lemma exclusiveD:
  assumes "exclusive p"
  shows "owns p a k \<Longrightarrow> owns p b k \<Longrightarrow> a = b" "owns p a k \<Longrightarrow> k < length (conns p)" "distinct (queue p h)"
  using assms unfolding exclusive_def by blast+

lemma exclusiveI:
  assumes "\<And>a b k. owns p a k \<Longrightarrow> owns p b k \<Longrightarrow> a = b" "\<And>a k. owns p a k \<Longrightarrow> k < length (conns p)"
    "\<And>h. distinct (queue p h)"
  shows "exclusive p"
  using assms unfolding exclusive_def by blast

declare owns.simps [simp del]

lemma pool_ok_halves: "pool_ok p \<longleftrightarrow> exclusive p \<and> bounded p"
  by (auto simp: pool_ok_def exclusive_def bounded_def)

lemma exclusive_set_conn [simp]: "exclusive (set_conn k c p) = exclusive p"
  by (simp add: exclusive_def)

lemma exclusive_done_with [simp]: "exclusive (done_with w k p) = exclusive p"
  by (simp add: exclusive_def)

lemma exclusive_closers [simp]: "exclusive (p\<lparr>closers := cs\<rparr>) = exclusive p"
  by (simp add: exclusive_def)

lemma exclusive_release:
  assumes "exclusive p" "held_by u = None"
  shows "exclusive (set_user w u p)"
  using exclusiveD [OF assms(1)] assms(2) by (intro exclusiveI) (auto split: if_splits)

lemma exclusive_keep:
  assumes "exclusive p" "w < length (users p)" "held_by u' = held_by (users p ! w)"
  shows "exclusive (set_user w u' p)"
proof -
  have "owns (set_user w u' p) a k = owns p a k" for a k
    using assms(2,3) by (auto simp: owns.simps(1))
  then show ?thesis using assms(1) by (simp add: exclusive_def)
qed

lemma exclusive_open:
  assumes "exclusive p"
  shows "exclusive (set_user w (Using h (length (conns p))) (p\<lparr>conns := conns p @ [c]\<rparr>))"
proof -
  note D = exclusiveD [OF assms]
  have new: "\<not> owns p a (length (conns p))" for a using D(2) by fastforce
  show ?thesis
    by (rule exclusiveI) (use D new in \<open>auto split: if_splits dest: D(2) intro: less_SucI\<close>)
qed

text \<open>A connection moves from its worker to the end of the queue, or from the front to a worker.\<close>

lemma exclusive_less:
  assumes "exclusive p" "\<And>a x. owns p' a x \<Longrightarrow> owns p a x" "length (conns p') = length (conns p)"
    "\<And>h. distinct (queue p' h)"
  shows "exclusive p'"
  by (rule exclusiveI)
    (erule (1) exclusiveD(1) [OF assms(1) assms(2) assms(2)], use exclusiveD(2) [OF assms(1) assms(2)] assms(3,4) in simp_all)

lemma exclusive_move:
  assumes "exclusive p" "\<And>a x. owns p' a x \<Longrightarrow> if x = k then a = b else owns p a x"
    "length (conns p') = length (conns p)" "k < length (conns p)" "\<And>h. distinct (queue p' h)"
  shows "exclusive p'"
proof (rule exclusiveI)
  fix a c x assume "owns p' a x" "owns p' c x"
  then show "a = c" using assms(2) exclusiveD(1) [OF assms(1)] by (cases "x = k") (metis (full_types))+
next
  fix a x assume "owns p' a x"
  then show "x < length (conns p')" using assms(2-4) exclusiveD(2) [OF assms(1)] by (cases "x = k") (metis (full_types))+
qed (rule assms(5))

lemma exclusive_enqueue:
  assumes "exclusive p" "w < length (users p)" "held_by (users p ! w) = Some k"
  shows "exclusive (set_user w Free (set_queue h (queue p h @ [k]) p))"
proof -
  have own: "owns p (ByWorker w) k" by (rule owns_worker [OF assms(2,3)])
  have only: "owns p a k \<Longrightarrow> a = ByWorker w" for a using exclusiveD(1) [OF assms(1)] own by blast
  have notin: "k \<notin> set (queue p h')" for h' using only [OF owns_queue] by blast
  show ?thesis
  proof (rule exclusive_move [OF assms(1)])
    fix a x assume "owns (set_user w Free (set_queue h (queue p h @ [k]) p)) a x"
    then show "if x = k then a = InQueue h else owns p a x"
      using only assms(2) owns_queue [of x p h] by (auto split: if_splits)
  next
    show "k < length (conns p)" by (rule exclusiveD(2) [OF assms(1) own])
  qed (use notin exclusiveD(3) [OF assms(1)] in simp_all)
qed

lemma exclusive_shrink:
  assumes "exclusive p" "queue p h = k # rest"
  shows "exclusive (set_queue h rest p)"
proof (rule exclusive_less [OF assms(1)])
  fix a x assume "owns (set_queue h rest p) a x"
  then show "owns p a x" using owns_queue [of x p h] assms(2) by (simp split: if_splits)
qed (use exclusiveD(3) [OF assms(1)] exclusiveD(3) [OF assms(1), of h] assms(2) in auto)

lemma exclusive_dequeue:
  assumes "exclusive p" "queue p h = k # rest"
  shows "exclusive (set_user w (Using h k) (set_queue h rest p))"
proof -
  have own: "owns p (InQueue h) k" "k \<notin> set rest"
    using owns_queue [of k p h] exclusiveD(3) [OF assms(1), of h] assms(2) by auto
  have only: "owns p a k \<Longrightarrow> a = InQueue h" for a using exclusiveD(1) [OF assms(1)] own(1) by blast
  show ?thesis
  proof (rule exclusive_move [OF assms(1)])
    fix a x assume "owns (set_user w (Using h k) (set_queue h rest p)) a x"
    then show "if x = k then a = ByWorker w else owns p a x"
      using only own(2) owns_queue [of x p h] assms(2) by (auto split: if_splits)
  next
    show "k < length (conns p)" by (rule exclusiveD(2) [OF assms(1) own(1)])
  qed (use exclusiveD(3) [OF assms(1)] exclusiveD(3) [OF assms(1), of h] assms(2) in auto)
qed


lemma set_queue_twice [simp]: "set_queue h rest (set_queue h q p) = set_queue h rest p"
  by (simp add: set_queue_def)

lemma set_user_queue: "set_user w u (set_queue h q p) = set_queue h q (set_user w u p)"
  by (simp add: set_queue_def set_user_def)

lemma set_user_conn: "set_user w u (set_conn k c p) = set_conn k c (set_user w u p)"
  by (simp add: set_user_def set_conn_def)

lemma set_queue_same: "exclusive (set_queue h (queue p h) p) = exclusive p"
proof -
  have "owns (set_queue h (queue p h) p) = owns p" "queue (set_queue h (queue p h) p) = queue p"
    by (intro ext, simp add: owns.simps(2))+
  then show ?thesis by (simp only: exclusive_def field_simps_pool)
qed

lemma take_idle_exclusive:
  assumes "exclusive (set_queue h avail p)"
  shows "exclusive (take_idle w h avail p)"
proof (cases avail)
  case Nil
  then show ?thesis
    using exclusive_release [OF assms, of "Dialing h" w] by (simp add: take_idle_def)
next
  case (Cons k rest)
  then have q: "queue (set_queue h avail p) h = k # rest" by simp
  have "exclusive (set_user w (Using h k) (set_queue h rest p))"
    using exclusive_dequeue [OF assms q, of w] by simp
  moreover have "exclusive (set_user w (Dialing h) (set_queue h rest p))"
    using exclusive_release [OF exclusive_shrink [OF assms q], of "Dialing h" w] by simp
  ultimately show ?thesis using Cons by (simp add: take_idle_def set_user_conn)
qed

lemma take_idle_bounded:
  "bounded p \<Longrightarrow> length avail \<le> Suc (MaxConnections p) \<Longrightarrow> bounded (take_idle w h avail p)"
  by (auto simp: take_idle_def bounded_def split: list.splits)

lemma bounded_simps [simp]:
  "bounded (set_user w u p) = bounded p" "bounded (set_conn k c p) = bounded p" "bounded (done_with w k p) = bounded p"
  "bounded (p\<lparr>closers := cs\<rparr>) = bounded p" "bounded (p\<lparr>conns := ks\<rparr>) = bounded p"
  by (simp_all add: bounded_def)

lemma user_split:
  "(case u of Using h k \<Rightarrow> f h k | _ \<Rightarrow> None) = Some x \<longleftrightarrow> (\<exists>h k. u = Using h k \<and> f h k = Some x)"
  "(case u of Dialing h \<Rightarrow> g h | _ \<Rightarrow> None) = Some x \<longleftrightarrow> (\<exists>h. u = Dialing h \<and> g h = Some x)"
  "(case u of Blocked h k \<Rightarrow> f h k | _ \<Rightarrow> None) = Some x \<longleftrightarrow> (\<exists>h k. u = Blocked h k \<and> f h k = Some x)"
  by (cases u; auto)+

lemma Return_exclusive:
  assumes "exclusive p" "w < length (users p)" "users p ! w = Using h k" "pool_step (Return w) p = Some p'"
  shows "exclusive p'"
proof -
  let ?p = "done_with w k p"
  have "p' = set_user w Free ?p \<or> p' = set_user w Free (set_queue h (queue ?p h @ [k]) ?p)
      \<or> p' = set_user w (Blocked h k) ?p"
    using assms(2-4) by (auto simp: Let_def split: if_splits)
  moreover have "exclusive (set_user w Free (set_queue h (queue ?p h @ [k]) ?p))"
    using assms(1-3) by (intro exclusive_enqueue) simp_all
  moreover have "exclusive (set_user w (Blocked h k) ?p)"
    using assms(1-3) by (intro exclusive_keep) simp_all
  moreover have "exclusive (set_user w Free ?p)"
    using assms(1) by (intro exclusive_release) simp_all
  ultimately show ?thesis by blast
qed

lemma pool_step_exclusive:
  assumes "exclusive p" "pool_step a p = Some p'"
  shows "exclusive p'"
proof (cases a)
  case (Get w h b)
  show ?thesis
  proof (cases b)
    case None
    then show ?thesis
      using assms Get by (auto simp: set_queue_same intro: take_idle_exclusive)
  next
    case (Some v)
    then obtain k where k: "v < length (users p)" "users p ! v = Blocked h k"
        "p' = take_idle w h (queue p h @ [k]) (set_user v Free p)"
      using assms(2) Get by (auto simp: user_split split: if_splits)
    have "exclusive (set_queue h (queue p h @ [k]) (set_user v Free p))"
      using exclusive_enqueue [OF assms(1) k(1), of k h] k(2) by (simp add: set_user_queue)
    then show ?thesis using k(3) by (simp add: take_idle_exclusive)
  qed
next
  case (Opened w)
  then show ?thesis using assms by (auto simp: user_split split: if_splits intro: exclusive_open)
next
  case (Return w)
  then obtain h k where "w < length (users p)" "users p ! w = Using h k"
    using assms(2) by (auto simp: user_split split: if_splits)
  then show ?thesis using Return_exclusive assms Return by blast
qed (use assms in \<open>auto simp: user_split split: if_splits intro!: exclusive_release\<close>)

lemma pool_step_bounded:
  assumes "bounded p" "pool_step a p = Some p'"
  shows "bounded p'"
proof (cases a)
  case (Get w h b)
  have "length (queue p h) \<le> MaxConnections p" using assms(1) by (simp add: bounded_def)
  then show ?thesis
    using assms Get by (cases b) (auto simp: user_split split: if_splits intro!: take_idle_bounded)
next
  case (Return w)
  then show ?thesis
    using assms by (auto simp: user_split Let_def bounded_def split: if_splits)
qed (use assms in \<open>auto simp: user_split split: if_splits\<close>)

interpretation pool: invariant_of pool_step "\<lambda>_. True" pool_ok
  using pool_step_exclusive pool_step_bounded by unfold_locales (simp add: pool_ok_halves, blast)

lemma new_pool_ok: "pool_ok (NewConnectionPool m n)"
  by (auto simp: pool_ok_halves exclusive_def bounded_def NewConnectionPool_def queue_def owns.simps(2)
      elim!: owns.elims split: if_splits)


text \<open>
  C9: however the workers, the servers and the closers interleave, a connection is never in the hands
  of two workers, a connection in use is not idle in any queue, an idle one is in one queue once, and
  no host has more idle connections than the limit.
\<close>
theorem no_connection_shared:
  assumes "reachable pool_step (NewConnectionPool m n) p"
    "w < length (users p)" "users p ! w = Using h k"
  shows "k < length (conns p) \<and> (\<forall>h'. k \<notin> set (queue p h') \<and> distinct (queue p h') \<and> length (queue p h') \<le> MaxConnections p)
    \<and> card {v. v < length (users p) \<and> held_by (users p ! v) = Some k} = 1"
proof -
  have ok: "exclusive p" "bounded p"
    using pool.reachable_holds [OF assms(1) new_pool_ok] by (simp_all add: pool_ok_halves)
  note D = exclusiveD [OF ok(1)]
  have own: "owns p (ByWorker w) k" using assms(2,3) by (simp add: owns.simps)
  have only: "owns p a k \<Longrightarrow> a = ByWorker w" for a using D(1) own by blast
  then have "{v. v < length (users p) \<and> held_by (users p ! v) = Some k} = {w}"
    using own only [OF owns_worker] by (auto simp: owns.simps)
  moreover have "k \<notin> set (queue p h')" for h' using only [OF owns_queue] by blast
  moreover have "k < length (conns p)" by (rule D(2) [OF own])
  ultimately show ?thesis using D(3) ok(2) by (simp add: bounded_def)
qed

lemmas pool_run_simps = NewConnectionPool_def user_is_def queue_def set_user_def set_queue_def set_conn_def
  take_idle_def done_with_def

theorem no_connection_shared_witness:
  "let p = the (run_steps pool_step [Get 0 ''h'' None, Opened 0, Return 0, Get 1 ''h'' None] (NewConnectionPool 1 2))
   in users p ! 1 = Using ''h'' 0 \<and> card {v. v < length (users p) \<and> held_by (users p ! v) = Some 0} = 1"
proof -
  define as where "as = [Get 0 ''h'' None, Opened 0, Return 0, Get 1 ''h'' None]"
  define p where "p = the (run_steps pool_step as (NewConnectionPool 1 2))"
  have e: "run_steps pool_step as (NewConnectionPool 1 2) = Some p \<and> users p ! 1 = Using ''h'' 0 \<and> length (users p) = 2"
    unfolding p_def as_def by (simp add: pool_run_simps newBufferedConn_def guard_def numeral_2_eq_2)
  then have "reachable pool_step (NewConnectionPool 1 2) p"
    by (auto intro: run_reachable reachable.start)
  from no_connection_shared [OF this, of 1 "''h''" 0] e show ?thesis
    unfolding as_def [symmetric] p_def [symmetric] by simp
qed

section \<open>A bag of idle connections\<close>

text \<open>What a worker that comes for a connection can be given: the queue, and what blocked senders offer.\<close>

definition senders :: "pool \<Rightarrow> string \<Rightarrow> nat set" where
  "senders p h = {k. \<exists>v < length (users p). users p ! v = Blocked h k}"

definition avail :: "pool \<Rightarrow> string \<Rightarrow> nat set" where
  "avail p h = set (queue p h) \<union> senders p h"

lemma senders_simps [simp]:
  "senders (set_conn k c p) = senders p" "senders (done_with w k p) = senders p" "senders (p\<lparr>closers := cs\<rparr>) = senders p"
  "senders (p\<lparr>conns := ks\<rparr>) = senders p" "senders (set_queue h q p) = senders p"
  by (intro ext, simp add: senders_def)+

lemma senders_mem: "k \<in> senders p h \<longleftrightarrow> (\<exists>v < length (users p). users p ! v = Blocked h k)"
  by (simp add: senders_def)

lemma senders_other:
  "w < length (users p) \<Longrightarrow>
     k \<in> senders (set_user w u p) h \<longleftrightarrow> u = Blocked h k \<or> (\<exists>v < length (users p). v \<noteq> w \<and> users p ! v = Blocked h k)"
  unfolding senders_mem field_simps_pool length_list_update by (metis nth_list_update_eq nth_list_update_neq)

lemma senders_self:
  assumes "\<And>h k. users p ! w \<noteq> Blocked h k"
  shows "(\<exists>v < length (users p). v \<noteq> w \<and> users p ! v = Blocked h k) \<longleftrightarrow> k \<in> senders p h"
  unfolding senders_mem using assms by metis

lemma senders_set_user:
  assumes "w < length (users p)" "\<And>h k. users p ! w \<noteq> Blocked h k"
  shows "(\<And>h k. u \<noteq> Blocked h k) \<Longrightarrow> senders (set_user w u p) = senders p"
    "senders (set_user w (Blocked h k) p) = (senders p)(h := insert k (senders p h))"
  by (intro ext set_eqI; simp add: senders_other [OF assms(1)] senders_self [OF assms(2)]; blast)+

lemma senders_unblock:
  assumes "exclusive p" "v < length (users p)" "users p ! v = Blocked h k"
  shows "senders (set_user v Free p) = (senders p)(h := senders p h - {k})" "k \<notin> set (queue p h)" "k \<in> senders p h"
proof -
  note D = exclusiveD(1) [OF assms(1)]
  have own: "owns p (ByWorker v) k" using assms(2,3) by (simp add: owns.simps)
  show "k \<notin> set (queue p h)" using D [OF own owns_queue] by blast
  show "k \<in> senders p h" using assms(2,3) by (auto simp: senders_mem)
  have one: "u = v" if "u < length (users p)" "users p ! u = Blocked h k" for u
    using D [OF own owns_worker [of u p k]] that by simp
  have "(\<exists>u < length (users p). u \<noteq> v \<and> users p ! u = Blocked h' k') \<longleftrightarrow>
      k' \<in> senders p h' \<and> \<not> (h' = h \<and> k' = k)" for h' k'
    unfolding senders_mem using one assms(3) by (metis ustate.inject(3))
  then show "senders (set_user v Free p) = (senders p)(h := senders p h - {k})"
    by (intro ext set_eqI) (auto simp: senders_other [OF assms(2)])
qed

lemma avail_cong: "senders p' = senders p \<Longrightarrow> (\<And>h. queue p' h = queue p h) \<Longrightarrow> avail p' = avail p"
  by (intro ext) (simp add: avail_def)

lemma senders_queue_disjoint: "exclusive p \<Longrightarrow> set (queue p h) \<inter> senders p h = {}"
proof (rule ccontr)
  assume x: "exclusive p" "set (queue p h) \<inter> senders p h \<noteq> {}"
  then obtain k v where "k \<in> set (queue p h)" "v < length (users p)" "users p ! v = Blocked h k"
    by (auto simp: senders_def)
  then show False using exclusiveD(1) [OF x(1) owns_worker [of v p k] owns_queue [of k p h]] by simp
qed

text \<open>Taking the first of the offered connections leaves the others.\<close>

definition takes_from :: "nat set \<Rightarrow> nat \<Rightarrow> string \<Rightarrow> pool \<Rightarrow> pool \<Rightarrow> bool" where
  "takes_from A w h p p' =
     ((A = {} \<and> avail p' = (avail p)(h := {}) \<and> users p' ! w = Dialing h)
      \<or> (\<exists>k \<in> A. avail p' = (avail p)(h := A - {k})
           \<and> users p' ! w = (if Err (conns p ! k) = None then Using h k else Dialing h)))"

lemma take_idle_takes:
  assumes "w < length (users p)" "users p ! w = Free" "distinct q" "set q \<inter> senders p h = {}"
    "q = [] \<longrightarrow> senders p h = {}"
  shows "takes_from (set q \<union> senders p h) w h p (take_idle w h q p)"
proof -
  have s: "senders (set_user w u (set_queue h r p)) = senders p" if "\<And>h k. u \<noteq> Blocked h k" for u r
    using assms(1,2) that by (subst senders_set_user(1)) auto
  have a: "avail (set_user w u (set_queue h r p)) = (avail p)(h := set r \<union> senders p h)"
    "avail (set_user w u (set_conn j c (set_queue h r p))) = (avail p)(h := set r \<union> senders p h)"
    if "\<And>h k. u \<noteq> Blocked h k" for u r j c
    using s [OF that, of r] by (intro ext; simp add: avail_def set_user_conn)+
  show ?thesis
  proof (cases q)
    case Nil
    then show ?thesis
      using assms(1,5) a(1) [where u = "Dialing h" and r = "[]"] by (simp add: takes_from_def take_idle_def)
  next
    case (Cons k rest)
    then have "set rest \<union> senders p h = set q \<union> senders p h - {k}" using assms(3,4) by auto
    then show ?thesis
      using Cons assms(1) a [where u = "Dialing h" and r = rest] a [where u = "Using h k" and r = rest]
      by (auto simp: takes_from_def take_idle_def intro!: disjI2 bexI [of _ k])
  qed
qed

lemma Get_takes:
  assumes "exclusive p" "pool_step (Get w h b) p = Some p'"
  shows "takes_from (avail p h) w h p p'"
proof (cases b)
  case None
  then have w: "w < length (users p)" "users p ! w = Free" "list_all (\<lambda>u. \<not> blocked_on h u) (users p)"
      "p' = take_idle w h (queue p h) p"
    using assms(2) by (auto simp: user_is_def)
  then have "senders p h = {}" by (auto simp: senders_def list_all_length)
  then show ?thesis
    using take_idle_takes [of w p "queue p h" h] w exclusiveD(3) [OF assms(1)] by (simp add: avail_def)
next
  case (Some v)
  then obtain k where v: "w < length (users p)" "users p ! w = Free" "v < length (users p)"
      "users p ! v = Blocked h k" "p' = take_idle w h (queue p h @ [k]) (set_user v Free p)"
    using assms(2) by (auto simp: user_split user_is_def split: if_splits)
  note u = senders_unblock [OF assms(1) v(3,4)]
  have dis: "set (queue p h) \<inter> senders p h = {}" by (rule senders_queue_disjoint [OF assms(1)])
  have "takes_from (set (queue p h @ [k]) \<union> senders (set_user v Free p) h) w h (set_user v Free p) p'"
    unfolding v(5) by (rule take_idle_takes) (use v u dis exclusiveD(3) [OF assms(1)] in \<open>auto simp: nth_list_update\<close>)
  moreover have "set (queue p h @ [k]) \<union> senders (set_user v Free p) h = avail p h"
    using u by (auto simp: avail_def)
  moreover have "(avail (set_user v Free p))(h := A) = (avail p)(h := A)" for A
    using u(1) by (intro ext) (simp add: avail_def)
  ultimately show ?thesis unfolding takes_from_def by (simp only: field_simps_pool)
qed

text \<open>
  C10: seen by the workers the pool is a bag of idle connections for each host: \<open>Get\<close> takes one out
  if there is one, to use it if it is sound and to dial anew if it has failed, and dials only if the
  bag is empty; \<open>Return\<close> puts a connection in unless it was closed; nothing else changes the bag.  It
  makes no difference whether a connection waits in the channel or with a blocked sender.
\<close>
theorem pool_refines_bag:
  assumes "reachable pool_step (NewConnectionPool m n) p" "pool_step a p = Some p'"
  shows "case a of
      Get w h b \<Rightarrow> takes_from (avail p h) w h p p'
    | Return w \<Rightarrow> (\<exists>h k. users p ! w = Using h k
        \<and> avail p' = (if Canceled (conns p ! k) then avail p else (avail p)(h := insert k (avail p h))))
    | _ \<Rightarrow> avail p' = avail p"
proof -
  have ok: "exclusive p" using pool.reachable_holds [OF assms(1) new_pool_ok] by (simp add: pool_ok_halves)
  show ?thesis
  proof (cases a)
    case (Get w h b)
    then show ?thesis using Get_takes [OF ok] assms(2) by simp
  next
    case (Return w)
    then obtain h k where u: "w < length (users p)" "users p ! w = Using h k"
      using assms(2) by (auto simp: user_split split: if_splits)
    then have "avail p' = (if Canceled (conns p ! k) then avail p else (avail p)(h := insert k (avail p h)))"
      using Return assms(2)
      by (auto simp: Let_def avail_def senders_set_user fun_eq_iff split: if_splits)
    then show ?thesis using u Return by simp
  qed (use assms(2) in \<open>auto simp: user_split senders_set_user split: if_splits intro!: avail_cong\<close>)
qed


theorem pool_refines_bag_witness:
  "let p = the (run_steps pool_step [Get 0 ''h'' None, Opened 0, Return 0] (NewConnectionPool 1 2));
       p' = the (pool_step (Get 1 ''h'' None) p)
   in avail p ''h'' = {0} \<and> takes_from (avail p ''h'') 1 ''h'' p p'"
proof -
  define as where "as = [Get 0 ''h'' None, Opened 0, Return 0]"
  define p where "p = the (run_steps pool_step as (NewConnectionPool 1 2))"
  define p' where "p' = the (pool_step (Get 1 ''h'' None) p)"
  have e: "run_steps pool_step as (NewConnectionPool 1 2) = Some p \<and> queue p ''h'' = [0] \<and> users p = [Free, Free]"
    unfolding p_def as_def by (simp add: pool_run_simps newBufferedConn_def guard_def numeral_2_eq_2)
  then have "reachable pool_step (NewConnectionPool 1 2) p"
    by (auto intro: run_reachable reachable.start)
  moreover have "pool_step (Get 1 ''h'' None) p = Some p'"
    unfolding p'_def using e by (simp add: guard_def user_is_def)
  ultimately have "takes_from (avail p ''h'') 1 ''h'' p p'"
    using pool_refines_bag [of 1 2 p "Get 1 ''h'' None" p'] by simp
  moreover have "avail p ''h'' = {0}" using e by (auto simp: avail_def senders_def less_Suc_eq)
  ultimately show ?thesis
    unfolding Let_def as_def [symmetric] p_def [symmetric] p'_def [symmetric] by simp
qed

section \<open>Where the pool fails its users\<close>

fun not_get :: "string \<Rightarrow> pool_act \<Rightarrow> bool" where
  "not_get h (Get v h' b) = (h' \<noteq> h)"
| "not_get h _ = True"

lemma take_idle_other: "v \<noteq> w \<Longrightarrow> users (take_idle v h q p) ! w = users p ! w"
  "length (users (take_idle v h q p)) = length (users p)"
  by (simp_all add: take_idle_def split: list.splits)

interpretation stuck: invariant_of pool_step "not_get h" "\<lambda>p. w < length (users p) \<and> users p ! w = Blocked h k"
proof
  fix p a p'
  assume ok: "w < length (users p) \<and> users p ! w = Blocked h k" "not_get h a" "pool_step a p = Some p'"
  show "w < length (users p') \<and> users p' ! w = Blocked h k"
  proof (cases a)
    case (Get v h' b)
    then have "v \<noteq> w" using ok by (cases b) (auto simp: user_is_def split: if_splits)
    moreover have "u \<noteq> w" if "b = Some u" for u using that ok Get by (auto simp: user_split split: if_splits)
    ultimately show ?thesis
      using ok Get by (cases b) (auto simp: user_split take_idle_other nth_list_update split: if_splits)
  qed (use ok in \<open>auto simp: user_split Let_def nth_list_update split: if_splits\<close>)
qed

text \<open>
  C39: when the channel of idle connections is full, a worker that returns one is blocked, its result
  not yet pushed, until some worker asks for a connection to the same host; if none does any more, as
  at the end of a test, it stays blocked and its result is lost, whatever else happens.
\<close>
theorem return_blocks_until_next_get:
  assumes "w < length (users p)" "users p ! w = Using h k" "\<not> Canceled (conns p ! k)"
    "length (queue p h) = MaxConnections p"
    "run_steps pool_step (Return w # as) p = Some p'" "list_all (not_get h) as"
  shows "users p' ! w = Blocked h k"
proof -
  define p1 where "p1 = set_user w (Blocked h k) (done_with w k p)"
  have "run_steps pool_step as p1 = Some p'" using assms(1-5) by (simp add: p1_def Let_def)
  from stuck.run_holds [OF this assms(6), of w k] show ?thesis
    using assms(1) by (simp add: p1_def)
qed

theorem return_blocks_until_next_get_witness:
  "let p = the (run_steps pool_step [Get 0 ''h'' None, Opened 0, Get 1 ''h'' None, Opened 1, Return 0]
       (NewConnectionPool 1 2));
       p' = the (run_steps pool_step [Return 1, Loop 0 Head, Loop 0 (NetErr ''EOF''), Loop 0 EndLoop] p)
   in users p' ! 1 = Blocked ''h'' 1"
proof -
  define p where "p = the (run_steps pool_step [Get 0 ''h'' None, Opened 0, Get 1 ''h'' None, Opened 1, Return 0]
       (NewConnectionPool 1 2))"
  define as where "as = [Loop 0 Head, Loop 0 (NetErr ''EOF''), Loop 0 EndLoop]"
  define p' where "p' = the (run_steps pool_step (Return 1 # as) p)"
  have p: "users p = [Free, Using ''h'' 1] \<and> \<not> Canceled (conns p ! 1) \<and> queue p ''h'' = [0] \<and> MaxConnections p = 1
      \<and> conns p = [newBufferedConn, newBufferedConn]"
    unfolding p_def by (simp add: pool_run_simps newBufferedConn_def guard_def numeral_2_eq_2)
  then have "run_steps pool_step (Return 1 # as) p = Some p'"
    unfolding p'_def as_def by (simp add: newBufferedConn_def guard_def Let_def set_conn_def close_conn_def
        set_user_def done_with_def queue_def)
  then have "users p' ! 1 = Blocked ''h'' 1"
    by (rule return_blocks_until_next_get [rotated 4]) (use p in \<open>simp_all add: as_def newBufferedConn_def\<close>)
  then show ?thesis unfolding Let_def p_def [symmetric] p'_def as_def .
qed




end
