(* ===== verification/Http_Requests.thy ===== *)
theory Http_Requests
  imports Http_Nib Http_Pool
begin

text \<open>
  The requests of all workers over one pool: \<open>Punch\<close> of \<open>pkg/http/nib.go\<close> action by action, between the
  actions of the other workers, of the goroutines that read the connections and of the closers.  What
  \<open>Http_Nib\<close> takes from its environment the connection and the clock give here.
\<close>

section \<open>A request under way\<close>

text \<open>
  Where a worker stands in \<open>Punch\<close>.  The phases from \<open>AtBefore\<close> to \<open>AtSent\<close> are \<open>sendRequest\<close>, those from
  \<open>AtBegin\<close> to \<open>AtEnd\<close> \<open>readResponse\<close>; \<open>Failed\<close> is on its way to \<open>EndWithError\<close>.
\<close>

datatype phase =
    Resting | AtBefore | AtGet | AtDial | AtConnected | AtLimit | AtDeadline | AtWrite | AtSent
  | AtBegin | AtHeaders | AtParsed | AtFirst | AtBody | AtFinish | AtTotal | AtEnd | Failed string

text \<open>\<open>seen\<close> collects what the request has found so far; the item is kept as it was asked for, too.\<close>

record task =
  phase :: phase
  asked :: PayloadItem
  target :: PayloadItem
  report :: OutputItem
  seen :: punch_env

definition nothing_seen :: punch_env where
  "nothing_seen = \<lparr>startTime = 0, beforeGet = 0, connectedAt = 0, getError = None, deadlineError = None,
     writeResult = (0, None), sentAt = 0, beginAt = 0, headersAt = 0, response = Inr (0, False), firstRead = None,
     copyError = None, finishAt = 0, firstReadAtEnd = None, readLen = 0, recorded = None\<rparr>"

definition begin_task :: "(bytes \<Rightarrow> nat) \<Rightarrow> int \<Rightarrow> PayloadItem \<Rightarrow> task" where
  "begin_task wd now item = \<lparr>phase = AtBefore, asked = item, target = fill_length wd item, report = new_result,
     seen = nothing_seen\<lparr>startTime := now\<rparr>\<rparr>"

text \<open>A reading of the clock, and what the code does with it up to its next action.\<close>

fun clock_turn :: "int \<Rightarrow> phase \<Rightarrow> task \<Rightarrow> task option" where
  "clock_turn now AtBefore t = Some (t\<lparr>phase := AtGet, seen := (seen t)\<lparr>beforeGet := now\<rparr>\<rparr>)"
| "clock_turn now AtConnected t =
     Some (t\<lparr>phase := (case getError (seen t) of Some e \<Rightarrow> Failed e | None \<Rightarrow> AtLimit),
             report := (report t)\<lparr>ConnectTime := Sub now (beforeGet (seen t))\<rparr>,
             seen := (seen t)\<lparr>connectedAt := now\<rparr>\<rparr>)"
| "clock_turn now AtSent t =
     Some (t\<lparr>phase := (case snd (writeResult (seen t)) of Some e \<Rightarrow> Failed e | None \<Rightarrow> AtBegin),
             report := (report t)\<lparr>SentTime := Sub now (connectedAt (seen t))\<rparr>,
             seen := (seen t)\<lparr>sentAt := now\<rparr>\<rparr>)"
| "clock_turn now AtBegin t = Some (t\<lparr>phase := AtHeaders, seen := (seen t)\<lparr>beginAt := now\<rparr>\<rparr>)"
| "clock_turn now AtParsed t =
     Some (t\<lparr>phase := (case response (seen t) of Inl e \<Rightarrow> Failed e | Inr r \<Rightarrow> AtFirst),
             report := (report t)\<lparr>ReadTime := Sub now (beginAt (seen t))\<rparr>,
             seen := (seen t)\<lparr>headersAt := now\<rparr>\<rparr>)"
| "clock_turn now AtFinish t = Some (t\<lparr>phase := AtTotal, seen := (seen t)\<lparr>finishAt := now\<rparr>\<rparr>)"
| "clock_turn now _ t = None"

text \<open>What the other actions of a request make of it.\<close>

definition written :: "int \<Rightarrow> string option \<Rightarrow> task \<Rightarrow> task" where
  "written n e t = t\<lparr>phase := AtSent, report := (report t)\<lparr>SentBytesCount := word_of_int n\<rparr>,
     seen := (seen t)\<lparr>writeResult := (n, e)\<rparr>\<rparr>"

definition deadline_set :: "string option \<Rightarrow> task \<Rightarrow> task" where
  "deadline_set e t = t\<lparr>phase := (case e of Some x \<Rightarrow> Failed x | None \<Rightarrow> AtWrite),
     seen := (seen t)\<lparr>deadlineError := e\<rparr>\<rparr>"

definition see_first :: "bconn \<Rightarrow> task \<Rightarrow> task" where
  "see_first c t = t\<lparr>phase := AtBody,
     report := (let r = (report t)\<lparr>Status := (case response (seen t) of Inr (sc, _) \<Rightarrow> word_of_int sc | Inl e \<Rightarrow> 0)\<rparr>
                in case FirstRead c of Some u \<Rightarrow> r\<lparr>FirstByteTime := Sub u (beginAt (seen t))\<rparr> | None \<Rightarrow> r),
     seen := (seen t)\<lparr>firstRead := FirstRead c\<rparr>\<rparr>"

definition copied :: "string option \<Rightarrow> task \<Rightarrow> task" where
  "copied e t = t\<lparr>phase := (case e of Some x \<Rightarrow> Failed x | None \<Rightarrow> AtFinish), seen := (seen t)\<lparr>copyError := e\<rparr>\<rparr>"

definition see_total :: "bconn \<Rightarrow> task \<Rightarrow> task" where
  "see_total c t = t\<lparr>phase := AtEnd,
     report := (report t)\<lparr>
       ReadTime := (case FirstRead c of Some u \<Rightarrow> Sub (finishAt (seen t)) u | None \<Rightarrow> 2 ^ 63 - 1),
       Elapsed := Sub (finishAt (seen t)) (startTime (seen t))\<rparr>,
     seen := (seen t)\<lparr>firstReadAtEnd := FirstRead c\<rparr>\<rparr>"

text \<open>\<open>Bytes\<close> of a buffer that was never written is the nil slice.\<close>

definition see_bytes :: "bconn \<Rightarrow> task \<Rightarrow> task" where
  "see_bytes c t =
     (let bs = (if arrays (ReadRecorded c) = [] then None else Some (contents (ReadRecorded c)))
      in t\<lparr>report := (report t)\<lparr>RespBytesCount := word_of_int (ReadLen c), RespBytes := bs\<rparr>,
           seen := (seen t)\<lparr>readLen := ReadLen c, recorded := bs\<rparr>\<rparr>)"

definition asks_close :: "task \<Rightarrow> bool" where
  "asks_close t =
     ((case response (seen t) of Inr (_, c) \<Rightarrow> c | Inl e \<Rightarrow> False)
      \<or> fst (snd (getHostAndConnHeaderValues (Payload (asked t)))))"

section \<open>The workers\<close>

text \<open>A request whose outcome is settled: who sent it, over which connection, and what became of both.\<close>

record settled =
  sender :: nat
  via :: "nat option"
  request_of :: task
  fate_of :: conn_fate

record exchange =
  poolOf :: pool
  clockNow :: int
  tasks :: "task list"
  punched :: "settled list"

definition resting_task :: task where
  "resting_task = \<lparr>phase = Resting, asked = new_item None, target = new_item None, report = new_result,
     seen = nothing_seen\<rparr>"

definition start_exchange :: "nat \<Rightarrow> nat \<Rightarrow> exchange" where
  "start_exchange m n = \<lparr>poolOf = NewConnectionPool m n, clockNow = 0, tasks = replicate n resting_task, punched = []\<rparr>"

text \<open>
  The actions: a request begins; a reading of the clock; the calls of the pool; the outcomes of the
  dialing, the deadline, the write, \<open>http.ReadResponse\<close> and \<open>io.Copy\<close>; the reads that the last two make;
  the looks at the fields of the connection; the two ends of a request; the reading goroutine and the
  closer of a connection; and the passing of time.
\<close>

datatype nib_act =
    Begin nat PayloadItem | Clock nat | Ask nat "nat option" | Dial nat "string option" | Limit nat
  | Deadline nat "string option" | Write nat int "string option" | Reads nat conn_act
  | Parsed nat "string + (int \<times> bool)" | First nat | Copied nat "string option" | Total nat
  | Settle nat | GiveUp nat | Network nat conn_act | CloseNow nat | Tick nat

definition stands_at :: "exchange \<Rightarrow> nat \<Rightarrow> phase \<Rightarrow> bool" where
  "stands_at x w ph = (w < length (tasks x) \<and> phase (tasks x ! w) = ph)"

definition set_task :: "nat \<Rightarrow> task \<Rightarrow> exchange \<Rightarrow> exchange" where
  "set_task w t x = x\<lparr>tasks := (tasks x)[w := t]\<rparr>"

definition with_pool :: "pool_act \<Rightarrow> (exchange \<Rightarrow> exchange) \<Rightarrow> exchange \<Rightarrow> exchange option" where
  "with_pool a f x = map_option (\<lambda>p. f (x\<lparr>poolOf := p\<rparr>)) (pool_step a (poolOf x))"

definition if_at :: "exchange \<Rightarrow> nat \<Rightarrow> phase \<Rightarrow> exchange option \<Rightarrow> exchange option" where
  "if_at x w ph r = (if stands_at x w ph then r else None)"

fun conn_of :: "ustate \<Rightarrow> nat option" where
  "conn_of (Using h k) = Some k"
| "conn_of _ = None"

definition user_conn :: "exchange \<Rightarrow> nat \<Rightarrow> bconn" where
  "user_conn x w = conns (poolOf x) ! the (conn_of (users (poolOf x) ! w))"

definition settle :: "nat \<Rightarrow> nat option \<Rightarrow> conn_fate \<Rightarrow> task \<Rightarrow> exchange \<Rightarrow> exchange" where
  "settle w k fate t x =
     (set_task w (t\<lparr>phase := Resting\<rparr>) x)\<lparr>punched := punched x @ [\<lparr>sender = w, via = k, request_of = t, fate_of = fate\<rparr>]\<rparr>"

fun network_act :: "int \<Rightarrow> conn_act \<Rightarrow> bool" where
  "network_act now (NetData b u) = (u = now)"
| "network_act now _ = True"

fun is_read :: "conn_act \<Rightarrow> bool" where
  "is_read (StartRead n) = True"
| "is_read Receive = True"
| "is_read ReceiveClosed = True"
| "is_read _ = False"

fun nib_step :: "(bytes \<Rightarrow> nat) \<Rightarrow> nib_act \<Rightarrow> exchange \<Rightarrow> exchange option" where
  "nib_step wd (Begin w item) x =
     if_at x w Resting (guard (user_is (poolOf x) w Free) (set_task w (begin_task wd (clockNow x) item) x))"
| "nib_step wd (Clock w) x =
     (if w < length (tasks x)
      then map_option (\<lambda>t. set_task w t x) (clock_turn (clockNow x) (phase (tasks x ! w)) (tasks x ! w)) else None)"
| "nib_step wd (Ask w b) x =
     if_at x w AtGet (with_pool (Get w (Address (target (tasks x ! w))) b)
       (\<lambda>y. set_task w ((tasks x ! w)\<lparr>phase :=
          (if conn_of (users (poolOf y) ! w) = None then AtDial else AtConnected)\<rparr>) y) x)"
| "nib_step wd (Dial w None) x =
     if_at x w AtDial (with_pool (Opened w) (set_task w ((tasks x ! w)\<lparr>phase := AtConnected\<rparr>)) x)"
| "nib_step wd (Dial w (Some e)) x =
     if_at x w AtDial (with_pool (OpenFailed w)
       (set_task w ((tasks x ! w)\<lparr>phase := AtConnected, seen := (seen (tasks x ! w))\<lparr>getError := Some e\<rparr>\<rparr>)) x)"
| "nib_step wd (Limit w) x =
     if_at x w AtLimit (with_pool (Use w (SetLimit (record_limit (target (tasks x ! w)))))
       (set_task w ((tasks x ! w)\<lparr>phase := AtDeadline\<rparr>)) x)"
| "nib_step wd (Deadline w e) x = if_at x w AtDeadline (Some (set_task w (deadline_set e (tasks x ! w)) x))"
| "nib_step wd (Write w n e) x = if_at x w AtWrite (Some (set_task w (written n e (tasks x ! w)) x))"
| "nib_step wd (Reads w a) x =
     (if (stands_at x w AtHeaders \<or> stands_at x w AtBody) \<and> is_read a then with_pool (Use w a) (\<lambda>y. y) x else None)"
| "nib_step wd (Parsed w r) x =
     if_at x w AtHeaders (guard (readRoom (user_conn x w) = None)
       (set_task w ((tasks x ! w)\<lparr>phase := AtParsed, seen := (seen (tasks x ! w))\<lparr>response := r\<rparr>\<rparr>) x))"
| "nib_step wd (First w) x = if_at x w AtFirst (Some (set_task w (see_first (user_conn x w) (tasks x ! w)) x))"
| "nib_step wd (Copied w e) x =
     if_at x w AtBody (guard (readRoom (user_conn x w) = None) (set_task w (copied e (tasks x ! w)) x))"
| "nib_step wd (Total w) x = if_at x w AtTotal (Some (set_task w (see_total (user_conn x w) (tasks x ! w)) x))"
| "nib_step wd (Settle w) x =
     if_at x w AtEnd
       (let t = see_bytes (user_conn x w) (tasks x ! w); k = conn_of (users (poolOf x) ! w)
        in if asks_close t then with_pool (CloseAfter w) (settle w k ClosedLater t) x
           else with_pool (Return w) (settle w k ReturnedToPool t) x)"
| "nib_step wd (GiveUp w) x =
     (if w < length (tasks x)
      then (case phase (tasks x ! w) of
              Failed e \<Rightarrow>
                (let t = (tasks x ! w)\<lparr>report := EndWithError e (report (tasks x ! w))\<rparr>
                 in case conn_of (users (poolOf x) ! w) of
                      None \<Rightarrow> Some (settle w None NoConnection t x)
                    | Some k \<Rightarrow> with_pool (Abandon w) (settle w (Some k) LeftOpen t) x)
            | _ \<Rightarrow> None)
      else None)"
| "nib_step wd (Network k a) x =
     (if network_act (clockNow x) a then with_pool (Loop k a) (\<lambda>y. y) x else None)"
| "nib_step wd (CloseNow k) x = with_pool (Closer k) (\<lambda>y. y) x"
| "nib_step wd (Tick n) x = Some (x\<lparr>clockNow := clockNow x + int n\<rparr>)"

section \<open>Each request does what \<open>Punch\<close> does\<close>

text \<open>The result after connecting, sending, reading the headers, looking at them, and reading the body.\<close>

definition connected_result :: "punch_env \<Rightarrow> OutputItem" where
  "connected_result env = new_result\<lparr>ConnectTime := Sub (connectedAt env) (beforeGet env)\<rparr>"

definition written_result :: "punch_env \<Rightarrow> OutputItem" where
  "written_result env = (connected_result env)\<lparr>SentBytesCount := word_of_int (fst (writeResult env))\<rparr>"

definition sent_result :: "punch_env \<Rightarrow> OutputItem" where
  "sent_result env = (written_result env)\<lparr>SentTime := Sub (sentAt env) (connectedAt env)\<rparr>"

definition parsed_result :: "punch_env \<Rightarrow> OutputItem" where
  "parsed_result env = (sent_result env)\<lparr>ReadTime := Sub (headersAt env) (beginAt env)\<rparr>"

definition first_result :: "punch_env \<Rightarrow> OutputItem" where
  "first_result env =
     (let r = (parsed_result env)\<lparr>Status := (case response env of Inr (sc, _) \<Rightarrow> word_of_int sc | Inl e \<Rightarrow> 0)\<rparr>
      in case firstRead env of Some u \<Rightarrow> r\<lparr>FirstByteTime := Sub u (beginAt env)\<rparr> | None \<Rightarrow> r)"

definition total_result :: "punch_env \<Rightarrow> OutputItem" where
  "total_result env = (first_result env)\<lparr>
     ReadTime := (case firstReadAtEnd env of Some u \<Rightarrow> Sub (finishAt env) u | None \<Rightarrow> 2 ^ 63 - 1),
     Elapsed := Sub (finishAt env) (startTime env)\<rparr>"

text \<open>Which answers were none so far, and what the result is then.\<close>

definition good_so_far :: "punch_env \<Rightarrow> bool" where
  "good_so_far env = (getError env = None \<and> deadlineError env = None \<and> snd (writeResult env) = None
     \<and> (\<exists>r. response env = Inr r) \<and> copyError env = None)"

fun report_ok :: "(bytes \<Rightarrow> nat) \<Rightarrow> phase \<Rightarrow> task \<Rightarrow> bool" where
  "report_ok wd Resting t = True"
| "report_ok wd AtBefore t = (good_so_far (seen t) \<and> report t = new_result)"
| "report_ok wd AtGet t = (good_so_far (seen t) \<and> report t = new_result)"
| "report_ok wd AtDial t = (good_so_far (seen t) \<and> report t = new_result)"
| "report_ok wd AtConnected t = (good_so_far ((seen t)\<lparr>getError := None\<rparr>) \<and> report t = new_result)"
| "report_ok wd AtLimit t = (good_so_far (seen t) \<and> report t = connected_result (seen t))"
| "report_ok wd AtDeadline t = (good_so_far (seen t) \<and> report t = connected_result (seen t))"
| "report_ok wd AtWrite t = (good_so_far (seen t) \<and> report t = connected_result (seen t))"
| "report_ok wd AtSent t =
     (good_so_far ((seen t)\<lparr>writeResult := (0, None)\<rparr>) \<and> report t = written_result (seen t))"
| "report_ok wd AtBegin t = (good_so_far (seen t) \<and> report t = sent_result (seen t))"
| "report_ok wd AtHeaders t = (good_so_far (seen t) \<and> report t = sent_result (seen t))"
| "report_ok wd AtParsed t =
     (good_so_far ((seen t)\<lparr>response := Inr (0, False)\<rparr>) \<and> report t = sent_result (seen t))"
| "report_ok wd AtFirst t = (good_so_far (seen t) \<and> report t = parsed_result (seen t))"
| "report_ok wd AtBody t = (good_so_far (seen t) \<and> report t = first_result (seen t))"
| "report_ok wd AtFinish t = (good_so_far (seen t) \<and> report t = first_result (seen t))"
| "report_ok wd AtTotal t = (good_so_far (seen t) \<and> report t = first_result (seen t))"
| "report_ok wd AtEnd t = (good_so_far (seen t) \<and> report t = total_result (seen t))"
| "report_ok wd (Failed e) t =
     (NibPunch wd (seen t) (asked t)
        = (target t, EndWithError e (report t), if getError (seen t) = None then LeftOpen else NoConnection))"

definition task_ok :: "(bytes \<Rightarrow> nat) \<Rightarrow> task \<Rightarrow> bool" where
  "task_ok wd t =
     ((phase t \<noteq> Resting \<longrightarrow> target t = fill_length wd (asked t)) \<and> report_ok wd (phase t) t)"

lemmas result_defs = connected_result_def written_result_def sent_result_def parsed_result_def first_result_def
  total_result_def good_so_far_def

lemmas punch_defs = NibPunch_def sendRequest_def readResponse_def EndWithError_def result_defs Let_def

lemma begin_task_ok: "task_ok wd (begin_task wd now item)"
  by (auto simp: task_ok_def begin_task_def nothing_seen_def good_so_far_def)

lemma clock_turn_ok:
  assumes "task_ok wd t" "clock_turn now (phase t) t = Some t'"
  shows "task_ok wd t'"
  using assms
  by (cases "phase t")
    (auto simp: task_ok_def punch_defs new_result_def split: option.splits sum.splits prod.splits)

lemma written_ok: "task_ok wd t \<Longrightarrow> phase t = AtWrite \<Longrightarrow> task_ok wd (written n e t)"
  by (auto simp: task_ok_def written_def result_defs)

lemma deadline_set_ok: "task_ok wd t \<Longrightarrow> phase t = AtDeadline \<Longrightarrow> task_ok wd (deadline_set e t)"
  by (auto simp: task_ok_def deadline_set_def punch_defs new_result_def split: option.splits prod.splits)

lemma see_first_ok: "task_ok wd t \<Longrightarrow> phase t = AtFirst \<Longrightarrow> task_ok wd (see_first c t)"
  by (auto simp: task_ok_def see_first_def result_defs Let_def split: option.splits)

lemma copied_ok: "task_ok wd t \<Longrightarrow> phase t = AtBody \<Longrightarrow> task_ok wd (copied e t)"
  by (auto simp: task_ok_def copied_def punch_defs new_result_def split: option.splits prod.splits)

lemma see_total_ok: "task_ok wd t \<Longrightarrow> phase t = AtTotal \<Longrightarrow> task_ok wd (see_total c t)"
  by (auto simp: task_ok_def see_total_def result_defs Let_def split: option.splits)

lemma see_bytes_punch:
  assumes "task_ok wd t" "phase t = AtEnd"
  shows "NibPunch wd (seen (see_bytes c t)) (asked t)
    = (target t, report (see_bytes c t), if asks_close t then ClosedLater else ReturnedToPool)"
  using assms
  by (auto simp: task_ok_def see_bytes_def asks_close_def punch_defs new_result_def
      split: option.splits prod.splits)

section \<open>Workers and the pool\<close>

text \<open>What the pool knows of a worker agrees with where the worker stands.\<close>

definition uses_conn :: "ustate \<Rightarrow> task \<Rightarrow> bool" where
  "uses_conn u t = (\<exists>k. u = Using (Address (target t)) k)"

fun place_ok :: "phase \<Rightarrow> ustate \<Rightarrow> task \<Rightarrow> bool" where
  "place_ok Resting u t = (u = Free \<or> (\<exists>h k. u = Blocked h k))"
| "place_ok AtBefore u t = (u = Free)"
| "place_ok AtGet u t = (u = Free)"
| "place_ok AtDial u t = (u = Dialing (Address (target t)))"
| "place_ok AtConnected u t = (if getError (seen t) = None then uses_conn u t else u = Free)"
| "place_ok (Failed e) u t = (if getError (seen t) = None then uses_conn u t else u = Free)"
| "place_ok _ u t = uses_conn u t"

fun pool_actor :: "pool_act \<Rightarrow> nat option" where
  "pool_actor (Get w h b) = Some w"
| "pool_actor (Opened w) = Some w"
| "pool_actor (OpenFailed w) = Some w"
| "pool_actor (Return w) = Some w"
| "pool_actor (CloseAfter w) = Some w"
| "pool_actor (Abandon w) = Some w"
| "pool_actor (Use w a) = Some w"
| "pool_actor _ = None"

text \<open>The other workers stay as they are, but that a blocked sender may go on.\<close>

lemma others_stay:
  assumes "pool_step a p = Some p'"
  shows "length (users p') = length (users p)"
    "pool_actor a \<noteq> Some v \<Longrightarrow> users p' ! v = users p ! v
       \<or> (\<exists>h k. users p ! v = Blocked h k) \<and> users p' ! v = Free"
proof -
  have "length (users p') = length (users p)
    \<and> (pool_actor a \<noteq> Some v \<longrightarrow> users p' ! v = users p ! v
       \<or> (\<exists>h k. users p ! v = Blocked h k) \<and> users p' ! v = Free)"
  proof (cases a)
    case (Get w h b)
    then show ?thesis
      using assms by (cases b) (auto simp: user_split user_is_def take_idle_other nth_list_update split: if_splits)
  qed (use assms in \<open>auto simp: user_split Let_def nth_list_update split: if_splits\<close>)
  then show "length (users p') = length (users p)"
    "pool_actor a \<noteq> Some v \<Longrightarrow> users p' ! v = users p ! v
       \<or> (\<exists>h k. users p ! v = Blocked h k) \<and> users p' ! v = Free" by blast+
qed

lemma place_ok_unblocked: "place_ok ph (Blocked h k) t \<Longrightarrow> place_ok ph Free t"
  by (cases ph) (auto simp: uses_conn_def split: if_splits)

lemma place_ok_of_other:
  assumes "place_ok ph (users p ! v) t" "pool_step a p = Some p'" "pool_actor a \<noteq> Some v"
  shows "place_ok ph (users p' ! v) t"
  using others_stay(2) [OF assms(2,3)] assms(1) place_ok_unblocked by metis

text \<open>What the pool makes of the worker that acts.\<close>

lemma take_idle_self:
  "w < length (users p) \<Longrightarrow>
     (\<exists>k. users (take_idle w h q p) ! w = Using h k) \<or> users (take_idle w h q p) ! w = Dialing h"
  by (auto simp: take_idle_def split: list.splits)

lemma actor_moves:
  "pool_step (Get w h b) p = Some p' \<Longrightarrow> (\<exists>k. users p' ! w = Using h k) \<or> users p' ! w = Dialing h"
  "pool_step (Opened w) p = Some p' \<Longrightarrow> users p ! w = Dialing h \<Longrightarrow> \<exists>k. users p' ! w = Using h k"
  "pool_step (OpenFailed w) p = Some p' \<Longrightarrow> users p' ! w = Free"
  "pool_step (Use w c) p = Some p' \<Longrightarrow> users p' ! w = users p ! w"
  "pool_step (Return w) p = Some p' \<Longrightarrow> users p' ! w = Free \<or> (\<exists>h k. users p' ! w = Blocked h k)"
  "pool_step (CloseAfter w) p = Some p' \<Longrightarrow> users p' ! w = Free"
  "pool_step (Abandon w) p = Some p' \<Longrightarrow> users p' ! w = Free"
proof -
  assume "pool_step (Get w h b) p = Some p'"
  then have "\<exists>q p0. p' = take_idle w h q p0 \<and> w < length (users p0)"
    by (cases b) (fastforce simp: user_split user_is_def split: if_splits)+
  then show "(\<exists>k. users p' ! w = Using h k) \<or> users p' ! w = Dialing h"
    using take_idle_self by blast
qed (auto simp: user_split Let_def split: if_splits)

section \<open>The times of a request\<close>

text \<open>The readings of the clock so far, in their order.\<close>

fun stamps :: "phase \<Rightarrow> punch_env \<Rightarrow> int list" where
  "stamps Resting env = []"
| "stamps (Failed e) env = [startTime env, beforeGet env]"
| "stamps AtBefore env = [startTime env]"
| "stamps AtGet env = [startTime env, beforeGet env]"
| "stamps AtDial env = [startTime env, beforeGet env]"
| "stamps AtConnected env = [startTime env, beforeGet env]"
| "stamps AtBegin env = [startTime env, beforeGet env, connectedAt env, sentAt env]"
| "stamps AtHeaders env = [startTime env, beforeGet env, connectedAt env, sentAt env, beginAt env]"
| "stamps AtParsed env = [startTime env, beforeGet env, connectedAt env, sentAt env, beginAt env]"
| "stamps AtFirst env = [startTime env, beforeGet env, connectedAt env, sentAt env, beginAt env, headersAt env]"
| "stamps AtBody env = [startTime env, beforeGet env, connectedAt env, sentAt env, beginAt env, headersAt env]"
| "stamps AtFinish env = [startTime env, beforeGet env, connectedAt env, sentAt env, beginAt env, headersAt env]"
| "stamps AtTotal env =
     [startTime env, beforeGet env, connectedAt env, sentAt env, beginAt env, headersAt env, finishAt env]"
| "stamps AtEnd env =
     [startTime env, beforeGet env, connectedAt env, sentAt env, beginAt env, headersAt env, finishAt env]"
| "stamps _ env = [startTime env, beforeGet env, connectedAt env]"

text \<open>The first read of the connection, once the request has looked at it.\<close>

fun first_ok :: "int \<Rightarrow> phase \<Rightarrow> punch_env \<Rightarrow> bool" where
  "first_ok now AtBody env = (\<forall>u. firstRead env = Some u \<longrightarrow> beforeGet env \<le> u \<and> u \<le> now)"
| "first_ok now AtFinish env = (\<forall>u. firstRead env = Some u \<longrightarrow> beforeGet env \<le> u \<and> u \<le> now)"
| "first_ok now AtTotal env = (\<forall>u. firstRead env = Some u \<longrightarrow> beforeGet env \<le> u \<and> u \<le> finishAt env)"
| "first_ok now AtEnd env =
     (\<forall>u. firstRead env = Some u \<longrightarrow> firstReadAtEnd env = Some u \<and> beforeGet env \<le> u \<and> u \<le> finishAt env)"
| "first_ok now _ env = True"

definition times_ok :: "int \<Rightarrow> task \<Rightarrow> bool" where
  "times_ok now t =
     (sorted (0 # stamps (phase t) (seen t) @ [now]) \<and> first_ok now (phase t) (seen t))"

text \<open>The connection of a request has read nothing before it was asked for, and forgets no first read.\<close>

fun looked :: "phase \<Rightarrow> bool" where
  "looked AtBody = True"
| "looked AtFinish = True"
| "looked AtTotal = True"
| "looked _ = False"

definition conn_ok :: "int \<Rightarrow> task \<Rightarrow> bconn \<Rightarrow> bool" where
  "conn_ok now t c =
     ((\<forall>u. FirstRead c = Some u \<longrightarrow> beforeGet (seen t) \<le> u \<and> u \<le> now)
      \<and> (looked (phase t) \<longrightarrow> (\<forall>u. firstRead (seen t) = Some u \<longrightarrow> FirstRead c = Some u)))"

definition worker_ok :: "(bytes \<Rightarrow> nat) \<Rightarrow> int \<Rightarrow> pool \<Rightarrow> nat \<Rightarrow> task \<Rightarrow> bool" where
  "worker_ok wd now p w t =
     (task_ok wd t \<and> place_ok (phase t) (users p ! w) t \<and> times_ok now t
      \<and> (\<forall>h k. users p ! w = Using h k \<longrightarrow> conn_ok now t (conns p ! k)))"

lemma worker_okD:
  assumes "worker_ok wd now p w t"
  shows "task_ok wd t" "report_ok wd (phase t) t" "place_ok (phase t) (users p ! w) t" "times_ok now t"
    "users p ! w = Using h k \<Longrightarrow> conn_ok now t (conns p ! k)"
  using assms by (simp_all add: worker_ok_def task_ok_def)

text \<open>Actions that are the worker's own affair.\<close>

lemmas local_defs = deadline_set_def written_def see_first_def copied_def see_total_def uses_conn_def good_so_far_def
  times_ok_def conn_ok_def Let_def

lemma clock_turn_times:
  assumes "clock_turn now (phase t) t = Some t'" "times_ok now t"
  shows "times_ok now t'"
  using assms by (cases "phase t") (auto simp: times_ok_def split: option.splits sum.splits)

lemma clock_turn_place:
  "clock_turn now (phase t) t = Some t' \<Longrightarrow> place_ok (phase t) u t \<Longrightarrow> report_ok wd (phase t) t \<Longrightarrow> place_ok (phase t') u t'"
  by (cases "phase t") (auto simp: uses_conn_def good_so_far_def split: option.splits sum.splits if_splits)

lemma clock_turn_conn:
  assumes "clock_turn now (phase t) t = Some t'" "conn_ok now t c" "place_ok (phase t) (Using h k) t"
  shows "conn_ok now t' c"
  using assms by (cases "phase t") (auto simp: conn_ok_def split: option.splits sum.splits)

lemma clock_turn_worker:
  assumes "worker_ok wd now p w t" "clock_turn now (phase t) t = Some t'"
  shows "worker_ok wd now p w t'"
proof -
  note d = worker_okD [OF assms(1)]
  show ?thesis
    unfolding worker_ok_def
    using clock_turn_ok [OF d(1) assms(2)] clock_turn_place [OF assms(2) d(3,2)] clock_turn_times [OF assms(2) d(4)]
      clock_turn_conn [OF assms(2) d(5)] d(3) by metis
qed

lemma local_worker:
  assumes "worker_ok wd now p w t"
  shows "phase t = AtDeadline \<Longrightarrow> worker_ok wd now p w (deadline_set e t)"
    "phase t = AtWrite \<Longrightarrow> worker_ok wd now p w (written n e t)"
    "phase t = AtBody \<Longrightarrow> worker_ok wd now p w (copied e t)"
    "phase t = AtFirst \<Longrightarrow> users p ! w = Using h k \<Longrightarrow> worker_ok wd now p w (see_first (conns p ! k) t)"
    "phase t = AtTotal \<Longrightarrow> users p ! w = Using h k \<Longrightarrow> worker_ok wd now p w (see_total (conns p ! k) t)"
    "phase t = AtHeaders \<Longrightarrow> worker_ok wd now p w (t\<lparr>phase := AtParsed, seen := (seen t)\<lparr>response := r\<rparr>\<rparr>)"
proof -
  note d = worker_okD [OF assms]
  show "phase t = AtDeadline \<Longrightarrow> worker_ok wd now p w (deadline_set e t)"
    using d deadline_set_ok [OF d(1)] by (auto simp: worker_ok_def local_defs split: option.splits)
  show "phase t = AtWrite \<Longrightarrow> worker_ok wd now p w (written n e t)"
    using d written_ok [OF d(1)] by (auto simp: worker_ok_def local_defs)
  show "phase t = AtBody \<Longrightarrow> worker_ok wd now p w (copied e t)"
    using d copied_ok [OF d(1)] by (auto simp: worker_ok_def local_defs split: option.splits)
  show "phase t = AtFirst \<Longrightarrow> users p ! w = Using h k \<Longrightarrow> worker_ok wd now p w (see_first (conns p ! k) t)"
    using d see_first_ok [OF d(1)] by (auto simp: worker_ok_def local_defs)
  show "phase t = AtTotal \<Longrightarrow> users p ! w = Using h k \<Longrightarrow> worker_ok wd now p w (see_total (conns p ! k) t)"
    using d see_total_ok [OF d(1)] by (auto simp: worker_ok_def local_defs)
  show "phase t = AtHeaders \<Longrightarrow> worker_ok wd now p w (t\<lparr>phase := AtParsed, seen := (seen t)\<lparr>response := r\<rparr>\<rparr>)"
    using d by (auto simp: worker_ok_def local_defs task_ok_def result_defs)
qed

text \<open>
  A connection that a worker keeps using is changed by its goroutine, its user and the closers only,
  and its first read is set once, by data from the network.
\<close>

fun data_at :: "pool_act \<Rightarrow> int \<Rightarrow> bool" where
  "data_at (Loop k (NetData b v)) u = (v = u)"
| "data_at _ u = False"

definition later_first :: "pool_act \<Rightarrow> bconn \<Rightarrow> bconn \<Rightarrow> bool" where
  "later_first a c c' =
     (FirstRead c' = FirstRead c \<or> FirstRead c = None \<and> (\<exists>u. FirstRead c' = Some u \<and> data_at a u))"

lemma conn_step_first:
  "conn_step c b = Some b' \<Longrightarrow> loop_act c \<or> user_act c \<Longrightarrow> later_first (Loop k c) b b'"
  by (cases c) (auto simp: later_first_def got_data_def close_conn_def Let_def split: option.splits loop_pc.splits)

lemma later_first_use: "user_act c \<Longrightarrow> later_first (Loop j c) b b' \<Longrightarrow> later_first (Use w c) b b'"
  by (cases c) (simp_all add: later_first_def)

lemma later_first_same [simp]: "later_first a c c"
  by (simp add: later_first_def)

lemma take_idle_kept:
  assumes "exclusive (set_queue h q p)" "v \<noteq> w" "users p ! v = Using g k" "v < length (users p)"
  shows "conns (take_idle w h q p) ! k = conns p ! k"
proof (cases q)
  case (Cons j rest)
  have "j \<noteq> k"
    using exclusiveD(1) [OF assms(1), of "InQueue h" j "ByWorker v"] owns_worker [of v "set_queue h q p" k] assms(3,4) Cons
    by (auto simp: owns.simps)
  then show ?thesis using Cons by (simp add: take_idle_def)
qed (simp add: take_idle_def)

lemma held_conn:
  assumes "exclusive p" "pool_step a p = Some p'" "v < length (users p)" "users p ! v = Using g k"
    "pool_actor a \<noteq> Some v \<or> (\<exists>c. a = Use v c)"
  shows "later_first a (conns p ! k) (conns p' ! k)"
proof -
  have k: "k < length (conns p)"
    using exclusiveD(2) [OF assms(1)] owns_worker [OF assms(3)] assms(4) by simp
  show ?thesis
  proof (cases a)
    case (Get w h b)
    then have w: "v \<noteq> w" using assms(5) by auto
    show ?thesis
    proof (cases b)
      case None
      then show ?thesis
        using assms(1-4) Get w take_idle_kept [of h "queue p h" p v w g k] by (simp add: set_queue_same)
    next
      case (Some u)
      then obtain j where u: "u < length (users p)" "users p ! u = Blocked h j"
          "p' = take_idle w h (queue p h @ [j]) (set_user u Free p)"
        using assms(2) Get by (auto simp: user_split split: if_splits)
      have "u \<noteq> v" using u(2) assms(4) by auto
      moreover have "exclusive (set_queue h (queue p h @ [j]) (set_user u Free p))"
        using exclusive_enqueue [OF assms(1) u(1), of j h] u(2) by (simp add: set_user_queue)
      ultimately show ?thesis
        using take_idle_kept [of h _ "set_user u Free p" v w g k] assms(3,4) w u(3) by simp
    qed
  next
    case (Loop j c)
    then show ?thesis
      using assms(2) k conn_step_first [of c "conns p ! k" _ j] by (cases "j = k") (auto split: if_splits)
  next
    case (Use w c)
    then obtain f j z where z: "users p ! w = Using f j" "conn_step c (conns p ! j) = Some z" "p' = set_conn j z p" "user_act c"
      using assms(2) by (auto simp: user_split split: if_splits)
    then show ?thesis
      using k Use later_first_use [OF z(4) conn_step_first [OF z(2), of j]] by (cases "j = k") auto
  next
    case (Closer j)
    then show ?thesis
      using assms(2) k by (cases "j = k") (auto simp: later_first_def close_conn_def)
  qed (use assms(2) k in \<open>auto simp: user_split Let_def split: if_splits\<close>)
qed

text \<open>A connection that a worker has just got has read nothing.\<close>

lemma take_idle_got:
  assumes "exclusive (set_queue h q p)" "w < length (users p)" "users (take_idle w h q p) ! w = Using g k"
  shows "FirstRead (conns (take_idle w h q p) ! k) = None"
proof (cases q)
  case Nil
  then show ?thesis using assms(2,3) by (simp add: take_idle_def)
next
  case (Cons j rest)
  then have "j < length (conns p)"
    using exclusiveD(2) [OF assms(1) owns_queue [of j _ h]] by simp
  then show ?thesis using assms(2,3) Cons by (auto simp: take_idle_def split: if_splits)
qed

lemma got_conn:
  assumes "exclusive p" "pool_step (Get w h b) p = Some p'" "users p' ! w = Using g k"
  shows "FirstRead (conns p' ! k) = None"
proof (cases b)
  case None
  then show ?thesis
    using assms take_idle_got [of h "queue p h" p w g k] by (simp add: set_queue_same user_is_def)
next
  case (Some u)
  then obtain j where u: "w < length (users p)" "u < length (users p)" "users p ! u = Blocked h j"
      "p' = take_idle w h (queue p h @ [j]) (set_user u Free p)"
    using assms(2) by (auto simp: user_split user_is_def split: if_splits)
  have "exclusive (set_queue h (queue p h @ [j]) (set_user u Free p))"
    using exclusive_enqueue [OF assms(1) u(2), of j h] u(3) by (simp add: set_user_queue)
  then show ?thesis
    using take_idle_got [of h _ "set_user u Free p" w g k] u(1,4) assms(3) by simp
qed

lemma opened_conn:
  "pool_step (Opened w) p = Some p' \<Longrightarrow> users p' ! w = Using g k \<Longrightarrow> FirstRead (conns p' ! k) = None"
  by (auto simp: user_split newBufferedConn_def split: if_splits)

section \<open>Every action keeps the workers in order\<close>

definition logged_ok :: "(bytes \<Rightarrow> nat) \<Rightarrow> int \<Rightarrow> settled \<Rightarrow> bool" where
  "logged_ok wd now s =
     (let t = request_of s; env = seen t
      in NibPunch wd env (asked t) = (target t, report t, fate_of s)
         \<and> (fate_of s \<in> {ClosedLater, ReturnedToPool} \<longrightarrow>
              sorted (0 # stamps AtEnd env @ [now]) \<and> first_ok now AtEnd env))"

definition exchange_ok :: "(bytes \<Rightarrow> nat) \<Rightarrow> exchange \<Rightarrow> bool" where
  "exchange_ok wd x =
     (exclusive (poolOf x) \<and> length (users (poolOf x)) = length (tasks x)
      \<and> (\<forall>w < length (tasks x). worker_ok wd (clockNow x) (poolOf x) w (tasks x ! w))
      \<and> (\<forall>s \<in> set (punched x). logged_ok wd (clockNow x) s))"

lemma exchange_okD:
  assumes "exchange_ok wd x"
  shows "exclusive (poolOf x)" "length (users (poolOf x)) = length (tasks x)"
    "w < length (tasks x) \<Longrightarrow> worker_ok wd (clockNow x) (poolOf x) w (tasks x ! w)"
    "s \<in> set (punched x) \<Longrightarrow> logged_ok wd (clockNow x) s"
  using assms by (simp_all add: exchange_ok_def)

text \<open>What an action of the pool leaves of the others.\<close>

lemma conn_ok_later:
  assumes "conn_ok now t c" "later_first a c c'" "\<And>u. data_at a u \<Longrightarrow> u = now" "beforeGet (seen t) \<le> now"
  shows "conn_ok now t c'"
  using assms by (auto simp: conn_ok_def later_first_def)

lemma before_get_past:
  "times_ok now t \<Longrightarrow> place_ok (phase t) (Using h k) t \<Longrightarrow> beforeGet (seen t) \<le> now"
  by (cases "phase t") (auto simp: times_ok_def)

lemma worker_ok_pool:
  assumes "exclusive p" "pool_step a p = Some p'" "v < length (users p)" "worker_ok wd now p v t"
    "pool_actor a \<noteq> Some v \<or> (\<exists>c. a = Use v c)" "\<And>u. data_at a u \<Longrightarrow> u = now"
  shows "worker_ok wd now p' v t"
proof -
  note d = worker_okD [OF assms(4)]
  have u: "users p' ! v = users p ! v \<or> (\<exists>h k. users p ! v = Blocked h k) \<and> users p' ! v = Free"
    using assms(2,5) others_stay(2) [OF assms(2)] actor_moves(4) [of v] by blast
  have "place_ok (phase t) (users p' ! v) t"
    using u d(3) place_ok_unblocked by metis
  moreover have "conn_ok now t (conns p' ! k)" if k: "users p' ! v = Using h k" for h k
  proof -
    have o: "users p ! v = Using h k" using u k by auto
    show ?thesis
      using d(3,4) o by (intro conn_ok_later [OF d(5) [OF o] held_conn [OF assms(1-3) o assms(5)] assms(6)] before_get_past)
        simp_all
  qed
  ultimately show ?thesis using d(1,4) by (simp add: worker_ok_def)
qed

lemma worker_ok_tick: "worker_ok wd now p w t \<Longrightarrow> worker_ok wd (now + int n) p w t"
proof -
  have "first_ok now ph env \<Longrightarrow> first_ok (now + int n) ph env" for ph env by (cases ph) auto
  then show "worker_ok wd now p w t \<Longrightarrow> worker_ok wd (now + int n) p w t"
    by (fastforce simp: worker_ok_def times_ok_def conn_ok_def sorted_append)
qed

lemma logged_ok_tick: "logged_ok wd now s \<Longrightarrow> logged_ok wd (now + int n) s"
  by (auto simp: logged_ok_def Let_def)

text \<open>The shapes of an action: it may change the pool, the task of its worker, and the log.\<close>

lemma keep_workers:
  assumes "exchange_ok wd x" "pool_step a (poolOf x) = Some p'" "pool_actor a = Some w" "w < length (tasks x)"
    "worker_ok wd (clockNow x) p' w t"
  shows "exchange_ok wd (set_task w t (x\<lparr>poolOf := p'\<rparr>))"
proof -
  note d = exchange_okD [OF assms(1)]
  have "\<not> data_at a u" for u using assms(3) by (cases a) auto
  then have "worker_ok wd (clockNow x) p' v (tasks x ! v)" if "v < length (tasks x)" "v \<noteq> w" for v
    using worker_ok_pool [OF d(1) assms(2) _ d(3) [OF that(1)]] assms(3) that d(2) by auto
  then show ?thesis
    using assms(1,4,5) others_stay(1) [OF assms(2)] pool_step_exclusive [OF d(1) assms(2)]
    by (auto simp: exchange_ok_def set_task_def nth_list_update)
qed

lemma keep_local:
  assumes "exchange_ok wd x" "w < length (tasks x)" "worker_ok wd (clockNow x) (poolOf x) w t"
  shows "exchange_ok wd (set_task w t x)"
  using assms by (simp add: exchange_ok_def set_task_def nth_list_update)

lemma keep_background:
  assumes "exchange_ok wd x" "pool_step a (poolOf x) = Some p'"
    "pool_actor a = None \<or> (\<exists>w c. a = Use w c)" "\<And>u. data_at a u \<Longrightarrow> u = clockNow x"
  shows "exchange_ok wd (x\<lparr>poolOf := p'\<rparr>)"
proof -
  note d = exchange_okD [OF assms(1)]
  have "worker_ok wd (clockNow x) p' v (tasks x ! v)" if "v < length (tasks x)" for v
    using worker_ok_pool [OF d(1) assms(2) _ d(3) [OF that] _ assms(4)] assms(3) that d(2) by auto
  then show ?thesis
    using assms(1) others_stay(1) [OF assms(2)] pool_step_exclusive [OF d(1) assms(2)]
    by (simp add: exchange_ok_def)
qed

lemma keep_settled:
  assumes "exchange_ok wd (set_task w (t\<lparr>phase := Resting\<rparr>) y)"
    "logged_ok wd (clockNow y) \<lparr>sender = w, via = k, request_of = t, fate_of = f\<rparr>"
  shows "exchange_ok wd (settle w k f t y)"
  using assms by (auto simp: exchange_ok_def settle_def set_task_def)

text \<open>The worker that acts.\<close>

lemma asked_worker:
  assumes "worker_ok wd now p w t" "exclusive p" "phase t = AtGet"
    "pool_step (Get w (Address (target t)) b) p = Some p'"
  shows "worker_ok wd now p' w (t\<lparr>phase := if conn_of (users p' ! w) = None then AtDial else AtConnected\<rparr>)"
proof -
  have "FirstRead (conns p' ! k) = None" if "users p' ! w = Using h k" for h k
    by (rule got_conn [OF assms(2,4) that])
  then show ?thesis
    using worker_okD [OF assms(1)] actor_moves(1) [OF assms(4)] assms(3)
    by (auto simp: worker_ok_def local_defs task_ok_def)
qed

lemma dialed_worker:
  assumes "worker_ok wd now p w t" "phase t = AtDial"
  shows "pool_step (Opened w) p = Some p' \<Longrightarrow> worker_ok wd now p' w (t\<lparr>phase := AtConnected\<rparr>)"
    "pool_step (OpenFailed w) p = Some p' \<Longrightarrow>
       worker_ok wd now p' w (t\<lparr>phase := AtConnected, seen := (seen t)\<lparr>getError := Some e\<rparr>\<rparr>)"
proof -
  note d = worker_okD [OF assms(1)]
  have first: "FirstRead (conns p' ! k) = None" if "pool_step (Opened w) p = Some p'" "users p' ! w = Using h k" for h k
    by (rule opened_conn [OF that])
  show "pool_step (Opened w) p = Some p' \<Longrightarrow> worker_ok wd now p' w (t\<lparr>phase := AtConnected\<rparr>)"
    using d(1-4) first actor_moves(2) [of w p p'] assms(2)
    by (auto simp: worker_ok_def local_defs task_ok_def simp del: pool_step.simps)
  show "pool_step (OpenFailed w) p = Some p' \<Longrightarrow>
       worker_ok wd now p' w (t\<lparr>phase := AtConnected, seen := (seen t)\<lparr>getError := Some e\<rparr>\<rparr>)"
    using d(1-4) actor_moves(3) [of w p p'] assms(2)
    by (auto simp: worker_ok_def local_defs task_ok_def simp del: pool_step.simps)
qed

lemma limit_worker:
  assumes "worker_ok wd now p w t" "exclusive p" "w < length (users p)" "phase t = AtLimit"
    "pool_step (Use w c) p = Some p'"
  shows "worker_ok wd now p' w (t\<lparr>phase := AtDeadline\<rparr>)"
  using worker_okD [OF worker_ok_pool [OF assms(2,5,3,1)]] assms(4)
  by (auto simp: worker_ok_def local_defs task_ok_def)

lemma resting_worker:
  "users p ! w = Free \<or> (\<exists>h k. users p ! w = Blocked h k) \<Longrightarrow> 0 \<le> now \<Longrightarrow> worker_ok wd now p w (t\<lparr>phase := Resting\<rparr>)"
  by (auto simp: worker_ok_def task_ok_def times_ok_def)

lemma see_bytes_close [simp]: "asks_close (see_bytes c t) = asks_close t"
  by (simp add: asks_close_def see_bytes_def Let_def)

lemma settled_well:
  assumes "worker_ok wd now p w t" "phase t = AtEnd"
  shows "logged_ok wd now \<lparr>sender = v, via = k, request_of = see_bytes c t,
    fate_of = (if asks_close t then ClosedLater else ReturnedToPool)\<rparr>"
proof -
  have "NibPunch wd (seen (see_bytes c t)) (asked t)
      = (target t, report (see_bytes c t), if asks_close t then ClosedLater else ReturnedToPool)"
    using see_bytes_punch worker_okD(1) [OF assms(1)] assms(2) by blast
  then show ?thesis
    using worker_okD(4) [OF assms(1)] assms(2) by (auto simp: logged_ok_def times_ok_def see_bytes_def Let_def)
qed

lemma settled_failed:
  assumes "worker_ok wd now p w t" "phase t = Failed e"
  shows "logged_ok wd now \<lparr>sender = v, via = k, request_of = t\<lparr>report := EndWithError e (report t)\<rparr>,
    fate_of = (if getError (seen t) = None then LeftOpen else NoConnection)\<rparr>"
  using worker_okD(2) [OF assms(1)] assms(2) by (auto simp: logged_ok_def Let_def)

lemma conn_of_Using: "conn_of u = Some k \<longleftrightarrow> (\<exists>h. u = Using h k)"
  by (cases u) auto

lemma failed_place:
  assumes "place_ok (Failed e) u t"
  shows "conn_of u = None \<longleftrightarrow> getError (seen t) \<noteq> None"
  using assms by (auto simp: uses_conn_def split: if_splits)

lemmas step_defs = if_at_def stands_at_def with_pool_def

declare pool_step.simps [simp del]

lemma exchange_send:
  assumes "exchange_ok wd x" "0 \<le> clockNow x" "nib_step wd a x = Some x'"
    "a = Begin w item \<or> a = Ask w b \<or> a = Dial w e \<or> a = Limit w"
  shows "exchange_ok wd x'"
  using assms(4)
proof (elim disjE)
  note d = exchange_okD [OF assms(1)]
  assume "a = Begin w item"
  then show ?thesis
    using assms(2,3) d(2) begin_task_ok
    by (auto simp: step_defs user_is_def begin_task_def worker_ok_def times_ok_def split: if_splits
        intro!: keep_local [OF assms(1)])
next
  note d = exchange_okD [OF assms(1)]
  assume "a = Ask w b"
  then obtain p' where t: "w < length (tasks x)" "phase (tasks x ! w) = AtGet"
      "pool_step (Get w (Address (target (tasks x ! w))) b) (poolOf x) = Some p'"
      "x' = set_task w ((tasks x ! w)\<lparr>phase := if conn_of (users p' ! w) = None then AtDial else AtConnected\<rparr>) (x\<lparr>poolOf := p'\<rparr>)"
    using assms(3) by (auto simp: if_at_def with_pool_def stands_at_def split: if_splits)
  show ?thesis
    unfolding t(4) by (rule keep_workers [OF assms(1) t(3) _ t(1) asked_worker [OF d(3) [OF t(1)] d(1) t(2,3)]]) simp
next
  note d = exchange_okD [OF assms(1)]
  assume "a = Dial w e"
  then show ?thesis
    using assms(3) dialed_worker [OF d(3)]
    by (cases e) (auto simp: step_defs split: if_splits intro!: keep_workers [OF assms(1)])
next
  note d = exchange_okD [OF assms(1)]
  assume "a = Limit w"
  then show ?thesis
    using assms(3) limit_worker [OF d(3) d(1)] d(2)
    by (auto simp: step_defs split: if_splits intro!: keep_workers [OF assms(1)])
qed

lemma if_at_set:
  "if_at x w ph (guard b (set_task w t x)) = Some x' \<longleftrightarrow>
     w < length (tasks x) \<and> phase (tasks x ! w) = ph \<and> b \<and> x' = set_task w t x"
  "if_at x w ph (Some (set_task w t x)) = Some x' \<longleftrightarrow>
     w < length (tasks x) \<and> phase (tasks x ! w) = ph \<and> x' = set_task w t x"
  by (auto simp: if_at_def stands_at_def)

lemma exchange_local:
  assumes "exchange_ok wd x" "nib_step wd a x = Some x'"
    "a = Clock w \<or> a = Deadline w e \<or> a = Write w n e \<or> a = Parsed w r \<or> a = First w \<or> a = Copied w e \<or> a = Total w"
  shows "exchange_ok wd x'"
proof -
  note d = exchange_okD [OF assms(1)]
  have used: "\<exists>h. users (poolOf x) ! w = Using h (the (conn_of (users (poolOf x) ! w)))"
    if "w < length (tasks x)" "phase (tasks x ! w) = AtFirst \<or> phase (tasks x ! w) = AtTotal"
    using worker_okD(3) [OF d(3) [OF that(1)]] that(2) by (auto simp: uses_conn_def)
  have "\<exists>t. w < length (tasks x) \<and> x' = set_task w t x \<and> worker_ok wd (clockNow x) (poolOf x) w t"
    using assms(3)
  proof (elim disjE)
    assume "a = Clock w"
    then show ?thesis using assms(2) clock_turn_worker [OF d(3)] by (auto split: if_splits)
  next
    assume "a = First w"
    then show ?thesis
      using assms(2) local_worker(4) [OF d(3)] used by (auto simp: if_at_set user_conn_def)
  next
    assume "a = Total w"
    then show ?thesis
      using assms(2) local_worker(5) [OF d(3)] used by (auto simp: if_at_set user_conn_def)
  qed (use assms(2) local_worker(1-3,6) [OF d(3)] in \<open>auto simp: if_at_set\<close>)
  then show ?thesis using keep_local [OF assms(1)] by blast
qed

lemma keep_end:
  assumes "exchange_ok wd x" "0 \<le> clockNow x" "pool_step pa (poolOf x) = Some p'"
    "pa \<in> {CloseAfter w, Return w, Abandon w}" "w < length (tasks x)"
    "logged_ok wd (clockNow x) \<lparr>sender = w, via = k, request_of = t, fate_of = f\<rparr>"
  shows "exchange_ok wd (settle w k f t (x\<lparr>poolOf := p'\<rparr>))"
  using assms(2-6) actor_moves(5-7) [of w "poolOf x" p']
  by (intro keep_settled keep_workers [OF assms(1,3)] resting_worker) auto

lemma exchange_settle:
  assumes "exchange_ok wd x" "0 \<le> clockNow x" "nib_step wd (Settle w) x = Some x'"
  shows "exchange_ok wd x'"
proof -
  obtain pa p' where t: "w < length (tasks x)" "phase (tasks x ! w) = AtEnd" "pool_step pa (poolOf x) = Some p'"
      "pa \<in> {CloseAfter w, Return w, Abandon w}"
      "x' = settle w (conn_of (users (poolOf x) ! w)) (if asks_close (tasks x ! w) then ClosedLater else ReturnedToPool)
         (see_bytes (user_conn x w) (tasks x ! w)) (x\<lparr>poolOf := p'\<rparr>)"
    using assms(3) by (fastforce simp: step_defs Let_def split: if_splits)
  show ?thesis
    unfolding t(5)
    by (rule keep_end [OF assms(1,2) t(3,4,1) settled_well [OF exchange_okD(3) [OF assms(1) t(1)] t(2)]])
qed

lemma exchange_give_up:
  assumes "exchange_ok wd x" "0 \<le> clockNow x" "nib_step wd (GiveUp w) x = Some x'"
  shows "exchange_ok wd x'"
proof -
  obtain e where e: "w < length (tasks x)" "phase (tasks x ! w) = Failed e"
    using assms(3) by (auto split: if_splits phase.splits)
  note ok = exchange_okD(3) [OF assms(1) e(1)]
  define t where "t = (tasks x ! w)\<lparr>report := EndWithError e (report (tasks x ! w))\<rparr>"
  have log: "logged_ok wd (clockNow x) \<lparr>sender = w, via = k, request_of = t,
      fate_of = (if getError (seen (tasks x ! w)) = None then LeftOpen else NoConnection)\<rparr>" for k
    unfolding t_def by (rule settled_failed [OF ok e(2)])
  have place: "place_ok (Failed e) (users (poolOf x) ! w) (tasks x ! w)"
    using worker_okD(3) [OF ok] e(2) by simp
  show ?thesis
  proof (cases "conn_of (users (poolOf x) ! w)")
    case None
    then have "x' = settle w None NoConnection t x" "getError (seen (tasks x ! w)) \<noteq> None"
      using assms(3) e failed_place [OF place] by (simp_all add: t_def)
    moreover have "users (poolOf x) ! w = Free" using place calculation(2) by auto
    ultimately show ?thesis
      using log [of None] assms(2) e(1) by (auto intro!: keep_settled keep_local [OF assms(1)] resting_worker)
  next
    case (Some k)
    then obtain p' where "pool_step (Abandon w) (poolOf x) = Some p'"
        "x' = settle w (Some k) LeftOpen t (x\<lparr>poolOf := p'\<rparr>)" "getError (seen (tasks x ! w)) = None"
      using assms(3) e failed_place [OF place] by (auto simp: t_def with_pool_def)
    then show ?thesis using keep_end [OF assms(1,2), of "Abandon w"] log [of "Some k"] e(1) by simp
  qed
qed

lemma exchange_end:
  assumes "exchange_ok wd x" "0 \<le> clockNow x" "nib_step wd a x = Some x'" "a = Settle w \<or> a = GiveUp w"
  shows "exchange_ok wd x'"
  using assms(3,4) exchange_settle [OF assms(1,2)] exchange_give_up [OF assms(1,2)] by blast

lemma exchange_background:
  assumes "exchange_ok wd x" "nib_step wd a x = Some x'" "a = Reads w c \<or> a = Network k c \<or> a = CloseNow k"
  shows "exchange_ok wd x'"
proof -
  have now: "u = clockNow x" if "network_act (clockNow x) c" "data_at (Loop k c) u" for u
    using that by (cases c) auto
  obtain pa p' where t: "pool_step pa (poolOf x) = Some p'" "x' = x\<lparr>poolOf := p'\<rparr>"
      "pool_actor pa = None \<or> (\<exists>w c. pa = Use w c)" "\<And>u. data_at pa u \<Longrightarrow> u = clockNow x"
    using assms(2,3) now by (fastforce simp: with_pool_def split: if_splits)
  show ?thesis unfolding t(2) by (rule keep_background [OF assms(1) t(1,3,4)])
qed

lemma exchange_tick: "exchange_ok wd x \<Longrightarrow> exchange_ok wd (x\<lparr>clockNow := clockNow x + int n\<rparr>)"
  by (simp add: exchange_ok_def worker_ok_tick logged_ok_tick)

lemma clock_forward: "nib_step wd a x = Some x' \<Longrightarrow> clockNow x \<le> clockNow x'"
  by (cases "(wd, a, x)" rule: nib_step.cases)
    (auto simp: step_defs settle_def set_task_def Let_def split: if_splits phase.splits option.splits)

interpretation exchanges: invariant_of "nib_step wd" "\<lambda>_. True" "\<lambda>x. exchange_ok wd x \<and> 0 \<le> clockNow x"
proof
  fix x a x'
  assume x: "exchange_ok wd x \<and> 0 \<le> clockNow x" "nib_step wd a x = Some x'"
  have "clockNow x \<le> clockNow x'" by (rule clock_forward [OF x(2)])
  moreover have "exchange_ok wd x'"
    using x exchange_send [of wd x a x'] exchange_local [of wd x a x'] exchange_end [of wd x a x']
      exchange_background [of wd x a x'] exchange_tick [of wd x]
    by (cases a) auto
  ultimately show "exchange_ok wd x' \<and> 0 \<le> clockNow x'" using x(1) by simp
qed

lemma start_exchange_ok: "exchange_ok wd (start_exchange m n) \<and> 0 \<le> clockNow (start_exchange m n)"
  using new_pool_ok [of m n]
  by (simp add: exchange_ok_def start_exchange_def pool_ok_halves NewConnectionPool_def resting_task_def
      worker_ok_def task_ok_def times_ok_def)

section \<open>What becomes of the connections\<close>

text \<open>Out of everybody's hands; and closed by nothing but its own goroutine after an error of the network.\<close>

definition gone :: "pool \<Rightarrow> nat \<Rightarrow> bool" where
  "gone p k = (k < length (conns p) \<and> (\<forall>a. \<not> owns p a k))"

definition self_closed :: "bconn \<Rightarrow> bool" where
  "self_closed c = (Canceled c \<or> chanClosed c \<or> loop c \<in> {Ending, LoopDone} \<longrightarrow> Err c \<noteq> None)"

definition leaked :: "pool \<Rightarrow> nat \<Rightarrow> bool" where
  "leaked p k = (gone p k \<and> k \<notin> set (closers p) \<and> self_closed (conns p ! k))"

definition disposed :: "pool \<Rightarrow> nat \<Rightarrow> bool" where
  "disposed p k = (gone p k \<and> (k \<in> set (closers p) \<or> chanClosed (conns p ! k)))"

definition held_ok :: "pool \<Rightarrow> bool" where
  "held_ok p = (exclusive p \<and> set (closers p) \<subseteq> {..<length (conns p)}
     \<and> (\<forall>a k. owns p a k \<longrightarrow> k \<notin> set (closers p) \<and> self_closed (conns p ! k)))"

lemma take_idle_owns:
  "owns (take_idle w h q p) a k \<Longrightarrow> k \<in> set q \<or> (\<exists>b. owns p b k)"
  by (auto simp: take_idle_def split: list.splits if_splits)

lemma closers_simps [simp]:
  "closers (set_user w u p) = closers p" "closers (set_queue h q p) = closers p" "closers (set_conn k c p) = closers p"
  "closers (done_with w k p) = closers p" "closers (take_idle w h q p) = closers p"
  by (simp_all add: set_user_def set_queue_def set_conn_def done_with_def take_idle_def split: list.splits)

lemma owns_back:
  assumes "pool_step a p = Some p'" "owns p' b k"
  shows "(\<exists>c. owns p c k) \<or> k = length (conns p) \<and> conns p' = conns p @ [newBufferedConn] \<and> closers p' = closers p"
proof (cases a)
  case (Get w h d)
  show ?thesis
  proof (cases d)
    case None
    then show ?thesis
      using assms Get take_idle_owns [of w h "queue p h" p b k] owns_queue [of k p h] by (auto simp: pool_step.simps)
  next
    case (Some u)
    then obtain j where u: "u < length (users p)" "users p ! u = Blocked h j"
        "p' = take_idle w h (queue p h @ [j]) (set_user u Free p)"
      using assms(1) Get by (auto simp: user_split pool_step.simps split: if_splits)
    have "owns p c k" if "owns (set_user u Free p) c k" for c
      using that by (simp split: if_splits)
    then show ?thesis
      using take_idle_owns [OF assms(2) [unfolded u(3)]] owns_queue [of k p h] owns_worker [OF u(1), of k] u(2) by auto
  qed
next
  case (Return w)
  then obtain h j where w: "w < length (users p)" "users p ! w = Using h j"
    using assms(1) by (auto simp: user_split pool_step.simps split: if_splits)
  then have "owns p (ByWorker w) j" by (intro owns_worker) simp_all
  then show ?thesis
    using Return assms w owns_queue [of k p h] by (auto simp: pool_step.simps Let_def split: if_splits)
qed (use assms in \<open>auto simp: user_split pool_step.simps split: if_splits\<close>)

lemma conn_step_self_closed:
  "conn_step c b = Some b' \<Longrightarrow> loop_act c \<or> user_act c \<or> c = ResetConn \<Longrightarrow> self_closed b \<Longrightarrow> self_closed b'"
  by (cases c) (auto simp: self_closed_def got_data_def close_conn_def Let_def split: option.splits loop_pc.splits if_splits)

lemma conn_step_stays_closed:
  "conn_step c b = Some b' \<Longrightarrow> chanClosed b \<Longrightarrow> chanClosed b'"
  by (cases c) (auto simp: got_data_def close_conn_def Let_def split: option.splits loop_pc.splits)

text \<open>How one connection changes.\<close>

lemma conn_evolves:
  assumes "pool_step a p = Some p'" "k < length (conns p)"
  shows "k < length (conns p')"
    "conns p' ! k = conns p ! k \<or> (\<exists>c. conn_step c (conns p ! k) = Some (conns p' ! k)
       \<and> (loop_act c \<or> user_act c \<or> c = ResetConn \<or> c = CloseConn \<and> k \<in> set (closers p)))"
proof -
  have idle: "k < length (conns (take_idle w h q p0)) \<and> (conns (take_idle w h q p0) ! k = conns p ! k
      \<or> conn_step ResetConn (conns p ! k) = Some (conns (take_idle w h q p0) ! k))"
    if "conns p0 = conns p" for w h q p0
    using that assms(2) by (cases "hd q = k") (auto simp: take_idle_def split: list.splits)
  have "k < length (conns p') \<and> (conns p' ! k = conns p ! k \<or> (\<exists>c. conn_step c (conns p ! k) = Some (conns p' ! k)
       \<and> (loop_act c \<or> user_act c \<or> c = ResetConn \<or> c = CloseConn \<and> k \<in> set (closers p))))"
  proof (cases a)
    case (Get w h b)
    then have "\<exists>q p0. p' = take_idle w h q p0 \<and> conns p0 = conns p"
      using assms(1) by (cases b) (fastforce simp: user_split pool_step.simps split: if_splits)+
    then show ?thesis using idle by blast
  next
    case (Closer j)
    then show ?thesis
      using assms by (auto simp: pool_step.simps nth_list_update intro!: exI [of _ CloseConn])
  next
    case (Loop j c)
    then show ?thesis
      using assms by (auto simp: pool_step.simps nth_list_update split: if_splits)
  next
    case (Use w c)
    then obtain f j z where "conn_step c (conns p ! j) = Some z" "p' = set_conn j z p" "user_act c"
      using assms(1) by (auto simp: pool_step.simps user_split split: if_splits)
    then show ?thesis using assms(2) by (cases "j = k") auto
  qed (use assms in \<open>auto simp: user_split pool_step.simps Let_def split: if_splits\<close>)
  then show "k < length (conns p')" "conns p' ! k = conns p ! k \<or> (\<exists>c. conn_step c (conns p ! k) = Some (conns p' ! k)
       \<and> (loop_act c \<or> user_act c \<or> c = ResetConn \<or> c = CloseConn \<and> k \<in> set (closers p)))" by blast+
qed

lemma conn_stays:
  assumes "pool_step a p = Some p'" "k < length (conns p)"
  shows "k \<notin> set (closers p) \<Longrightarrow> self_closed (conns p ! k) \<Longrightarrow> self_closed (conns p' ! k)"
    "chanClosed (conns p ! k) \<Longrightarrow> chanClosed (conns p' ! k)"
  using conn_evolves(2) [OF assms] conn_step_self_closed conn_step_stays_closed by metis+

lemma closers_from:
  assumes "pool_step a p = Some p'" "k \<in> set (closers p')"
  shows "k \<in> set (closers p) \<or> (\<exists>w. a = CloseAfter w \<and> owns p (ByWorker w) k)"
proof (cases a)
  case (Get w h b)
  then show ?thesis
    using assms by (cases b) (auto simp: user_split pool_step.simps split: if_splits)
next
  case (Closer j)
  then show ?thesis using assms set_remove1_subset by (fastforce simp: pool_step.simps)
qed (use assms in \<open>auto simp: user_split pool_step.simps Let_def owns.simps split: if_splits\<close>)

lemma closers_kept:
  assumes "pool_step a p = Some p'" "k \<in> set (closers p)" "k < length (conns p)"
  shows "k \<in> set (closers p') \<or> chanClosed (conns p' ! k)"
proof (cases a)
  case (Get w h b)
  then show ?thesis
    using assms by (cases b) (auto simp: user_split pool_step.simps split: if_splits)
next
  case (Closer j)
  then show ?thesis
    using assms by (cases "j = k") (auto simp: pool_step.simps close_conn_def)
qed (use assms in \<open>auto simp: user_split pool_step.simps Let_def split: if_splits\<close>)

text \<open>The pool keeps its word for all connections that somebody holds, and for those that nobody does.\<close>

lemma gone_stays:
  assumes "pool_step a p = Some p'" "gone p k"
  shows "gone p' k"
  using owns_back [OF assms(1)] conn_evolves(1) [OF assms(1), of k] assms(2) by (auto simp: gone_def)

lemma leaked_stays:
  assumes "pool_step a p = Some p'" "leaked p k"
  shows "leaked p' k"
  using gone_stays [OF assms(1)] closers_from [OF assms(1), of k] conn_stays(1) [OF assms(1), of k] assms(2)
  by (auto simp: leaked_def gone_def)

lemma disposed_stays:
  assumes "pool_step a p = Some p'" "disposed p k"
  shows "disposed p' k"
  using gone_stays [OF assms(1)] closers_kept [OF assms(1), of k] conn_stays(2) [OF assms(1), of k] assms(2)
  by (auto simp: disposed_def gone_def)

lemma new_self_closed: "self_closed newBufferedConn"
  by (simp add: self_closed_def newBufferedConn_def)

lemma owned_here: "exclusive p \<Longrightarrow> owns p a k \<Longrightarrow> k < length (conns p)"
  by (rule exclusiveD(2))

lemma closed_after_gone:
  assumes "exclusive p" "pool_step a p = Some p'" "a = CloseAfter w \<or> a = Abandon w" "owns p (ByWorker w) k"
  shows "gone p' k" "a = CloseAfter w \<Longrightarrow> k \<in> set (closers p')" "a = Abandon w \<Longrightarrow> closers p' = closers p \<and> conns p' = conns p"
proof -
  obtain h j where w: "w < length (users p)" "users p ! w = Using h j"
    using assms(2,3) by (auto simp: pool_step.simps user_split split: if_splits)
  then have j: "j = k" using assms(4) by (simp add: owns.simps)
  have "owns p' b k \<Longrightarrow> b \<noteq> ByWorker w \<and> owns p b k" for b
    using assms(2,3) w by (auto simp: pool_step.simps split: if_splits)
  then show "gone p' k"
    using exclusiveD(1) [OF assms(1) assms(4)] owned_here [OF assms(1,4)] conn_evolves(1) [OF assms(2)]
    by (auto simp: gone_def)
  show "a = CloseAfter w \<Longrightarrow> k \<in> set (closers p')"
    "a = Abandon w \<Longrightarrow> closers p' = closers p \<and> conns p' = conns p"
    using assms(2,3) w j by (auto simp: pool_step.simps)
qed

lemma held_ok_step:
  assumes "held_ok p" "pool_step a p = Some p'"
  shows "held_ok p'"
proof -
  have ex: "exclusive p" "exclusive p'" using assms pool_step_exclusive by (auto simp: held_ok_def)
  have "k < length (conns p')" if "k \<in> set (closers p')" for k
    using closers_from [OF assms(2) that] conn_evolves(1) [OF assms(2)] owned_here [OF ex(1)] assms(1)
    by (auto simp: held_ok_def)
  moreover have "k \<notin> set (closers p') \<and> self_closed (conns p' ! k)" if o: "owns p' b k" for b k
    using owns_back [OF assms(2) o]
  proof
    assume "\<exists>c. owns p c k"
    then have k: "k < length (conns p)" "k \<notin> set (closers p)" "self_closed (conns p ! k)"
      using assms(1) owned_here [OF ex(1)] by (auto simp: held_ok_def)
    have "\<not> (\<exists>w. a = CloseAfter w \<and> owns p (ByWorker w) k)"
      using closed_after_gone(1) [OF ex(1) assms(2)] o by (auto simp: gone_def)
    then show ?thesis
      using closers_from [OF assms(2)] conn_stays(1) [OF assms(2) k(1,2,3)] k(2) by blast
  next
    assume "k = length (conns p) \<and> conns p' = conns p @ [newBufferedConn] \<and> closers p' = closers p"
    then show ?thesis using assms(1) new_self_closed by (auto simp: held_ok_def)
  qed
  ultimately show ?thesis using ex(2) by (auto simp: held_ok_def)
qed

definition fate_ok :: "pool \<Rightarrow> settled \<Rightarrow> bool" where
  "fate_ok p s =
     (case fate_of s of
        LeftOpen \<Rightarrow> (\<exists>k. via s = Some k \<and> leaked p k)
      | ClosedLater \<Rightarrow> (\<exists>k. via s = Some k \<and> disposed p k)
      | _ \<Rightarrow> True)"

lemma fate_ok_stays: "pool_step a p = Some p' \<Longrightarrow> fate_ok p s \<Longrightarrow> fate_ok p' s"
  using leaked_stays disposed_stays by (fastforce simp: fate_ok_def split: conn_fate.splits)

text \<open>An action does one thing with the pool, and logs at most the end of its request.\<close>

definition ends_with :: "exchange \<Rightarrow> settled \<Rightarrow> pool \<Rightarrow> bool" where
  "ends_with x s p' =
     (fate_of s = NoConnection \<or> fate_of s = ReturnedToPool
      \<or> (\<exists>a k. pool_step a (poolOf x) = Some p' \<and> owns (poolOf x) (ByWorker (sender s)) k \<and> via s = Some k
           \<and> (fate_of s = LeftOpen \<and> a = Abandon (sender s) \<or> fate_of s = ClosedLater \<and> a = CloseAfter (sender s))))"

lemma nib_pool:
  assumes "nib_step wd a x = Some x'"
  shows "poolOf x' = poolOf x \<or> (\<exists>pa. pool_step pa (poolOf x) = Some (poolOf x'))"
  using assms by (cases "(wd, a, x)" rule: nib_step.cases)
    (auto simp: step_defs settle_def set_task_def Let_def split: if_splits phase.splits option.splits)

lemma conn_of_owned: "conn_of (users p ! w) = Some k \<Longrightarrow> w < length (users p) \<Longrightarrow> owns p (ByWorker w) k"
  by (auto simp: conn_of_Using owns.simps)

lemma ends_using:
  "pool_step (CloseAfter w) p = Some p' \<or> pool_step (Abandon w) p = Some p' \<Longrightarrow>
     \<exists>k. conn_of (users p ! w) = Some k \<and> w < length (users p)"
  by (auto simp: pool_step.simps user_split split: if_splits)

lemma ends_withI:
  "pool_step (CloseAfter w) (poolOf x) = Some p' \<Longrightarrow>
     ends_with x \<lparr>sender = w, via = conn_of (users (poolOf x) ! w), request_of = t, fate_of = ClosedLater\<rparr> p'"
  "pool_step (Abandon w) (poolOf x) = Some p' \<Longrightarrow> conn_of (users (poolOf x) ! w) = Some k \<Longrightarrow>
     ends_with x \<lparr>sender = w, via = Some k, request_of = t, fate_of = LeftOpen\<rparr> p'"
  "ends_with x \<lparr>sender = w, via = v, request_of = t, fate_of = ReturnedToPool\<rparr> p'"
  "ends_with x \<lparr>sender = w, via = v, request_of = t, fate_of = NoConnection\<rparr> p'"
  using ends_using [of w "poolOf x" p'] conn_of_owned [of "poolOf x" w]
  by (fastforce simp: ends_with_def)+

lemma nib_log:
  assumes "nib_step wd a x = Some x'"
  shows "punched x' = punched x \<or> (\<exists>s. punched x' = punched x @ [s] \<and> ends_with x s (poolOf x'))"
proof (cases "(\<exists>w. a = Settle w) \<or> (\<exists>w. a = GiveUp w)")
  case True
  then show ?thesis
    using assms ends_withI [where x = x]
    by (auto simp: step_defs settle_def set_task_def Let_def split: if_splits phase.splits option.splits)
next
  case False
  then show ?thesis
    using assms by (cases "(wd, a, x)" rule: nib_step.cases)
      (auto simp: step_defs settle_def set_task_def Let_def split: if_splits)
qed

definition fates_ok :: "exchange \<Rightarrow> bool" where
  "fates_ok x = (held_ok (poolOf x) \<and> (\<forall>s \<in> set (punched x). fate_ok (poolOf x) s))"

lemma ends_fate_ok:
  assumes "held_ok (poolOf x)" "ends_with x s p'"
  shows "fate_ok p' s"
proof -
  have ex: "exclusive (poolOf x)" using assms(1) by (simp add: held_ok_def)
  have "leaked p' k" if "pool_step (Abandon w) (poolOf x) = Some p'" "owns (poolOf x) (ByWorker w) k" for w k
    using closed_after_gone [OF ex that(1) _ that(2)] assms(1) that(2) by (auto simp: leaked_def held_ok_def)
  moreover have "disposed p' k" if "pool_step (CloseAfter w) (poolOf x) = Some p'" "owns (poolOf x) (ByWorker w) k" for w k
    using closed_after_gone [OF ex that(1) _ that(2)] by (simp add: disposed_def)
  ultimately show ?thesis
    using assms(2) by (auto simp: ends_with_def fate_ok_def)
qed

interpretation fates: invariant_of "nib_step wd" "\<lambda>_. True" fates_ok
proof
  fix x a x'
  assume x: "fates_ok x" "nib_step wd a x = Some x'"
  have "held_ok (poolOf x') \<and> (\<forall>s \<in> set (punched x). fate_ok (poolOf x') s)"
    using nib_pool [OF x(2)] x(1) held_ok_step fate_ok_stays by (auto simp: fates_ok_def)
  moreover have "\<forall>s \<in> set (punched x') - set (punched x). fate_ok (poolOf x') s"
    using nib_log [OF x(2)] ends_fate_ok [of x _ "poolOf x'"] x(1) by (auto simp: fates_ok_def)
  ultimately show "fates_ok x'" by (auto simp: fates_ok_def)
qed

lemma start_fates_ok: "fates_ok (start_exchange m n)"
proof -
  have "\<not> owns (NewConnectionPool m n) a k" for a k
    by (cases a) (auto simp: owns.simps NewConnectionPool_def queue_def)
  moreover have "exclusive (NewConnectionPool m n)" using new_pool_ok by (simp add: pool_ok_halves)
  ultimately show ?thesis
    by (simp add: fates_ok_def held_ok_def start_exchange_def, simp add: NewConnectionPool_def)
qed

section \<open>Requests over the pool\<close>

lemma punch_success:
  assumes "NibPunch wd env item = (i, r, f)" "Error r = None"
  shows "f \<in> {ClosedLater, ReturnedToPool}" "ConnectTime r = Sub (connectedAt env) (beforeGet env)"
    "SentTime r = Sub (sentAt env) (connectedAt env)" "Elapsed r = Sub (finishAt env) (startTime env)"
    "ReadTime r = (case firstReadAtEnd env of Some u \<Rightarrow> Sub (finishAt env) u | None \<Rightarrow> 2 ^ 63 - 1)"
  using assms by (auto simp: punch_defs new_result_def split: option.splits sum.splits prod.splits if_splits)

lemma Sub_in_run: "0 \<le> b \<Longrightarrow> b \<le> a \<Longrightarrow> a < 2 ^ 63 \<Longrightarrow> Sub a b = a - b"
  by (simp add: Sub_def sat64_id)

text \<open>A request that gets its response, byte by byte.\<close>

definition sample_run :: "nib_act list" where
  "sample_run = [Begin 0 get_item, Clock 0, Ask 0 None, Tick 2, Dial 0 None, Clock 0, Limit 0, Deadline 0 None,
     Write 0 64 None, Clock 0, Clock 0, Network 0 Head, Tick 3, Network 0 (NetData ''200 OK'' 5),
     Reads 0 (StartRead 4096), Reads 0 Receive, Parsed 0 (Inr (200, False)), Clock 0, First 0, Copied 0 None, Tick 4,
     Clock 0, Total 0, Settle 0]"

lemma get_item_fields: "fill_length wd get_item = get_item" "Address get_item = ''''"
    "record_limit get_item = 1048576"
  by (simp_all add: fill_length_def get_item_def new_item_def record_limit_def split: prod.splits)

lemmas exchange_run_simps = start_exchange_def resting_task_def step_defs begin_task_def get_item_fields
  set_task_def pool_step.simps pool_run_simps conn_run_simps guard_def written_def deadline_set_def see_first_def
  copied_def see_total_def see_bytes_def asks_close_def get_item_scanned settle_def user_conn_def nothing_seen_def
  new_result_def Sub_def sat64_def

lemma sample_run_done:
  "\<exists>x s. run_steps (nib_step wd) sample_run (start_exchange 1 1) = Some x \<and> punched x = [s] \<and> clockNow x = 9
     \<and> Error (report (request_of s)) = None \<and> firstRead (seen (request_of s)) = Some 5
     \<and> finishAt (seen (request_of s)) = 9 \<and> Elapsed (report (request_of s)) = 9"
  unfolding sample_run_def by (simp add: exchange_run_simps)

text \<open>
  C20: in every interleaving of the workers, the servers, the reading goroutines and the closers, each
  request of each worker does what \<open>Punch\<close> does by itself in the environment that the pool, its
  connection and the clock have been to it.  The times of a request that has got its response are in
  order; connecting and sending take no more than the whole, and, if the first byte was there when
  the headers had been read, that byte came in after the connection was asked for and reading took no
  more than the whole.
\<close>
theorem requests_over_pool:
  assumes "run_steps (nib_step wd) as (start_exchange m n) = Some x" "s \<in> set (punched x)" "clockNow x < 2 ^ 63"
    "t = request_of s" "r = report t"
  shows "NibPunch wd (seen t) (asked t) = (target t, r, fate_of s)
    \<and> (Error r = None \<longrightarrow> clock_ok (seen t)
         \<and> 0 \<le> ConnectTime r \<and> 0 \<le> SentTime r \<and> ConnectTime r + SentTime r \<le> Elapsed r
         \<and> (\<forall>u. firstRead (seen t) = Some u \<longrightarrow>
              beforeGet (seen t) \<le> u \<and> ReadTime r = finishAt (seen t) - u \<and> 0 \<le> ReadTime r \<and> ReadTime r \<le> Elapsed r))"
proof -
  have "exchange_ok wd x \<and> 0 \<le> clockNow x"
    by (rule exchanges.run_holds [OF assms(1) _ start_exchange_ok]) (simp add: list_all_iff)
  then have log: "logged_ok wd (clockNow x) s" using assms(2) by (simp add: exchange_ok_def)
  define env where "env = seen t"
  have p: "NibPunch wd env (asked t) = (target t, r, fate_of s)"
    using log assms(4,5) by (simp add: logged_ok_def Let_def env_def)
  have "clock_ok env \<and> 0 \<le> ConnectTime r \<and> 0 \<le> SentTime r \<and> ConnectTime r + SentTime r \<le> Elapsed r
      \<and> (\<forall>u. firstRead env = Some u \<longrightarrow>
              beforeGet env \<le> u \<and> ReadTime r = finishAt env - u \<and> 0 \<le> ReadTime r \<and> ReadTime r \<le> Elapsed r)"
    if ok: "Error r = None"
  proof -
    note q = punch_success [OF p ok]
    have o: "sorted (0 # stamps AtEnd env @ [clockNow x])" "first_ok (clockNow x) AtEnd env"
      using log q(1) assms(4) by (auto simp: logged_ok_def Let_def env_def)
    then have ord: "0 \<le> startTime env" "startTime env \<le> beforeGet env" "beforeGet env \<le> connectedAt env"
        "connectedAt env \<le> sentAt env" "sentAt env \<le> finishAt env" "finishAt env \<le> clockNow x"
      by simp_all
    have "clock_ok env" using o(1) assms(3) by (simp add: clock_ok_def)
    moreover have "ConnectTime r = connectedAt env - beforeGet env" "SentTime r = sentAt env - connectedAt env"
        "Elapsed r = finishAt env - startTime env"
      using q(2-4) ord assms(3) by (simp_all add: Sub_in_run)
    moreover have "beforeGet env \<le> u \<and> ReadTime r = finishAt env - u \<and> u \<le> finishAt env" if "firstRead env = Some u" for u
      using q(5) o(2) that ord assms(3) by (simp add: Sub_in_run)
    ultimately show ?thesis using ord by fastforce
  qed
  then show ?thesis using p unfolding env_def by blast
qed

theorem requests_over_pool_witness:
  "\<exists>x s. run_steps (nib_step (\<lambda>_. 0)) sample_run (start_exchange 1 1) = Some x \<and> punched x = [s]
     \<and> clock_ok (seen (request_of s)) \<and> ReadTime (report (request_of s)) = 4 \<and> Elapsed (report (request_of s)) = 9"
proof -
  obtain x s where x: "run_steps (nib_step (\<lambda>_. 0)) sample_run (start_exchange 1 1) = Some x" "punched x = [s]"
      "clockNow x = 9" "Error (report (request_of s)) = None" "firstRead (seen (request_of s)) = Some 5"
      "finishAt (seen (request_of s)) = 9" "Elapsed (report (request_of s)) = 9"
    using sample_run_done by blast
  show ?thesis
    using requests_over_pool [OF x(1), of s "request_of s" "report (request_of s)"] x by auto
qed


definition failing_run :: "nib_act list" where
  "failing_run = [Begin 0 get_item, Clock 0, Ask 0 None, Dial 0 None, Clock 0, Limit 0, Deadline 0 None,
     Write 0 0 (Some ''broken pipe''), Clock 0, GiveUp 0]"

lemma failing_run_done:
  "\<exists>x s. run_steps (nib_step wd) failing_run (start_exchange 1 1) = Some x \<and> punched x = [s]
     \<and> fate_of s = LeftOpen \<and> via s = Some 0 \<and> Err (conns (poolOf x) ! 0) = None"
  unfolding failing_run_def by (simp add: exchange_run_simps EndWithError_def)


end
