(* ===== verification/Worker_System.thy ===== *)
theory Worker_System
  imports Status_Counters
begin

text \<open>
  The workers of \<open>pkg/core/worker.go\<close> all together, interleaved, on the shared status counters,
  schedule and input.
\<close>

section \<open>The system\<close>

text \<open>
  The workers of either workload: one schedule channel, and one input shared by all or, with
  \<open>enableregexes\<close>, one for each worker.  The open workload hands out the offsets of its schedule and
  then closes the channel; a goroutine of the closed workload sends it zeros without end, so that a
  receive never waits, just as with a closed channel.  \<open>pc\<close> says where a worker stands in \<open>Run\<close>, \<open>Iteration\<close> and
  \<open>DoBusy\<close>; each constructor names what is to come or what it has done last.  \<open>Exhausted\<close> is a worker
  that returned because the item it received was nil, the input having been closed.
\<close>

datatype pc =
    Top
  | AwaitOffset | AwaitItem | HaveItem | LeftWaiting
  | Working | Sleeping | Awake
  | Busy | Punched | LeftBusy | Recorded
  | Stopped | Exhausted

record sys =
  status :: Status
  pcs :: "pc list"
  stopped :: "bool list"
  offers :: nat \<comment> \<open>offsets the workload has still to hand out\<close>
  schedClosed :: bool \<comment> \<open>a receive from the schedule gives 0 at once\<close>
  spawning :: bool \<comment> \<open>the loop of the workload is not over\<close>
  perWorker :: "nat option" \<comment> \<open>how many items the input of each worker gives, if each has its own\<close>
  inputs :: nat \<comment> \<open>items the shared input has still to give\<close>
  ownInputs :: "nat list" \<comment> \<open>items the input of a worker has still to give\<close>
  inputClosed :: bool
  sent :: nat \<comment> \<open>requests made\<close>
  logged :: "health list"
  crashed :: bool

text \<open>
  The actions: those of a worker (\<open>Sleep\<close> and \<open>NoSleep\<close> are the two outcomes of the test of the
  delay, \<open>Skip\<close> and \<open>EnterBusy\<close> of the test of \<open>stopped\<close>), those of the workload (\<open>SpawnWorker\<close>,
  closing the schedule at the end of the open loop, the end of the closed loop, telling one worker to
  stop) and the tick of the status.
\<close>

datatype act =
    Begin nat | Leave nat | TakeOffset nat | TakeItem nat | NoItem nat | EndWaiting nat | StartWork nat
  | Sleep nat | NoSleep nat | Wake nat | Skip nat | EnterBusy nat | Punch nat | EndBusy nat
  | Record nat duration | EndWork nat
  | Spawn | CloseSched | EndSpawn | Stop nat | Tick

definition goto :: "nat \<Rightarrow> pc \<Rightarrow> sys \<Rightarrow> sys" where
  "goto k c s = s\<lparr>pcs := (pcs s)[k := c]\<rparr>"

definition on_status :: "(Status \<Rightarrow> Status) \<Rightarrow> sys \<Rightarrow> sys" where
  "on_status f s = s\<lparr>status := f (status s)\<rparr>"

definition try_status :: "(Status \<Rightarrow> Status go) \<Rightarrow> sys \<Rightarrow> sys" where
  "try_status f s = (case f (status s) of Inl _ \<Rightarrow> s\<lparr>crashed := True\<rparr> | Inr st \<Rightarrow> s\<lparr>status := st\<rparr>)"

definition stands :: "sys \<Rightarrow> nat \<Rightarrow> pc \<Rightarrow> bool" where
  "stands s k c = (k < length (pcs s) \<and> pcs s ! k = c)"

definition available :: "sys \<Rightarrow> nat \<Rightarrow> nat" where
  "available s k = (if perWorker s = None then inputs s else ownInputs s ! k)"

definition take_input :: "nat \<Rightarrow> sys \<Rightarrow> sys" where
  "take_input k s = (if perWorker s = None then s\<lparr>inputs := inputs s - 1\<rparr>
     else s\<lparr>ownInputs := (ownInputs s)[k := ownInputs s ! k - 1]\<rparr>)"

lemma take_input_sel [simp]:
  "status (take_input k s) = status s" "pcs (take_input k s) = pcs s" "stopped (take_input k s) = stopped s"
  "offers (take_input k s) = offers s" "schedClosed (take_input k s) = schedClosed s"
  "spawning (take_input k s) = spawning s" "sent (take_input k s) = sent s" "logged (take_input k s) = logged s"
  "crashed (take_input k s) = crashed s" "perWorker (take_input k s) = perWorker s"
  "inputClosed (take_input k s) = inputClosed s" "length (ownInputs (take_input k s)) = length (ownInputs s)"
  by (simp_all add: take_input_def)

text \<open>No machine holds more workers than this; it keeps the counters within 64 bits.\<close>

definition max_workers :: nat where "max_workers = 2 ^ 62"

text \<open>
  What each action does where it is enabled; a receive from a closed schedule gives a zero offset.
  The workload may leave its loop early (interrupt, cutoff), so the schedule may close at any time.
\<close>

fun act_step :: "act \<Rightarrow> sys \<Rightarrow> sys option" where
  "act_step (Begin k) s = guard (stands s k Top \<and> \<not> stopped s ! k) (on_status IncWaiting (goto k AwaitOffset s))"
| "act_step (Leave k) s = guard (stands s k Top \<and> stopped s ! k) (goto k Stopped s)"
| "act_step (TakeOffset k) s =
     guard (stands s k AwaitOffset \<and> (0 < offers s \<or> schedClosed s)) (goto k AwaitItem (s\<lparr>offers := offers s - 1\<rparr>))"
| "act_step (TakeItem k) s =
     guard (stands s k AwaitItem \<and> 0 < available s k) (goto k HaveItem (take_input k s))"
| "act_step (NoItem k) s = guard (stands s k AwaitItem \<and> available s k = 0 \<and> inputClosed s) (goto k Exhausted s)"
| "act_step (EndWaiting k) s = guard (stands s k HaveItem) (on_status DecWaiting (goto k LeftWaiting s))"
| "act_step (StartWork k) s = guard (stands s k LeftWaiting) (on_status IncWorking (goto k Working s))"
| "act_step (Sleep k) s = guard (stands s k Working) (try_status IncSleeping (goto k Sleeping s))"
| "act_step (NoSleep k) s = guard (stands s k Working) (goto k Awake s)"
| "act_step (Wake k) s = guard (stands s k Sleeping) (on_status DecSleeping (goto k Awake s))"
| "act_step (Skip k) s = guard (stands s k Awake \<and> stopped s ! k) (goto k Recorded s)"
| "act_step (EnterBusy k) s = guard (stands s k Awake \<and> \<not> stopped s ! k) (on_status IncBusy (goto k Busy s))"
| "act_step (Punch k) s = guard (stands s k Busy) (goto k Punched (s\<lparr>sent := sent s + 1\<rparr>))"
| "act_step (EndBusy k) s = guard (stands s k Punched) (try_status DecBusy (goto k LeftBusy s))"
| "act_step (Record k d) s = guard (stands s k LeftBusy) (on_status (StartMissed d) (goto k Recorded s))"
| "act_step (EndWork k) s = guard (stands s k Recorded) (try_status DecWorking (goto k Top s))"
| "act_step Spawn s = guard (spawning s \<and> length (pcs s) < max_workers)
     (s\<lparr>pcs := pcs s @ [Top], stopped := stopped s @ [False],
        ownInputs := ownInputs s @ [case perWorker s of None \<Rightarrow> 0 | Some m \<Rightarrow> m]\<rparr>)"
| "act_step CloseSched s = guard (\<not> schedClosed s) (s\<lparr>offers := 0, schedClosed := True, spawning := False\<rparr>)"
| "act_step EndSpawn s = guard (schedClosed s \<and> spawning s) (s\<lparr>spawning := False\<rparr>)"
| "act_step (Stop k) s = guard (\<not> spawning s \<and> k < length (pcs s)) (s\<lparr>stopped := (stopped s)[k := True]\<rparr>)"
| "act_step Tick s = Some (s\<lparr>status := fst (tick (status s)), logged := logged s @ [snd (tick (status s))]\<rparr>)"

text \<open>A panic ends the process.\<close>

definition exec :: "act \<Rightarrow> sys \<Rightarrow> sys option" where
  "exec a s = (if crashed s then None else act_step a s)"

text \<open>
  The start of the closed workload (\<open>cl\<close>), or of the open one with a schedule of \<open>offs\<close> offsets; an input
  gives \<open>ins\<close> items, to all workers or to each (\<open>ow\<close>).
\<close>

definition start_sys :: "bool \<Rightarrow> bool \<Rightarrow> nat \<Rightarrow> nat \<Rightarrow> bool \<Rightarrow> sys" where
  "start_sys cl ow offs ins shut =
     \<lparr>status = NewStatus, pcs = [], stopped = [], offers = (if cl then 0 else offs), schedClosed = cl, spawning = True,
      perWorker = (if ow then Some ins else None), inputs = (if ow then 0 else ins), ownInputs = [],
      inputClosed = shut, sent = 0, logged = [], crashed = False\<rparr>"

text \<open>The workload is over: its loop and the one that tells the workers to stop.\<close>

definition all_told :: "sys \<Rightarrow> bool" where
  "all_told s = (\<not> spawning s \<and> list_all id (stopped s))"

section \<open>The counters count\<close>

definition holding :: "(pc \<Rightarrow> bool) \<Rightarrow> sys \<Rightarrow> int" where
  "holding P s = int (length (filter P (pcs s)))"

text \<open>Between which actions a worker is counted as waiting, working or busy.\<close>

definition in_waiting :: "pc \<Rightarrow> bool" where
  "in_waiting c = (c \<in> {AwaitOffset, AwaitItem, HaveItem, Exhausted})"

definition in_working :: "pc \<Rightarrow> bool" where
  "in_working c = (c \<in> {Working, Sleeping, Awake, Busy, Punched, LeftBusy, Recorded})"

definition in_busy :: "pc \<Rightarrow> bool" where
  "in_busy c = (c \<in> {Busy, Punched})"

lemmas counted = in_waiting_def in_working_def in_busy_def

definition counters_ok :: "sys \<Rightarrow> bool" where
  "counters_ok s =
     (\<not> crashed s \<and> length (pcs s) \<le> max_workers \<and> length (stopped s) = length (pcs s)
      \<and> waiting (status s) = holding in_waiting s
      \<and> working (status s) = holding in_working s
      \<and> sleeping (status s) = holding (\<lambda>c. c = Sleeping) s
      \<and> busy (status s) = holding in_busy s)"

lemma filter_update_count:
  assumes "k < length xs"
  shows "int (length (filter P (xs[k := y]))) =
    int (length (filter P xs)) - (if P (xs ! k) then 1 else 0) + (if P y then 1 else 0)"
proof -
  have "xs = take k xs @ xs ! k # drop (Suc k) xs" using assms by (simp add: id_take_nth_drop)
  then have "length (filter P xs) = length (filter P (take k xs @ xs ! k # drop (Suc k) xs))" by simp
  then show ?thesis using assms by (simp add: upd_conv_take_nth_drop)
qed

lemma holding_goto:
  "stands s k c \<Longrightarrow> holding P (goto k d s) = holding P s - (if P c then 1 else 0) + (if P d then 1 else 0)"
  by (simp add: holding_def goto_def stands_def filter_update_count del: of_nat_add)

lemma holding_simps [simp]:
  "holding P (on_status f s) = holding P s"
  "holding P (s\<lparr>offers := n\<rparr>) = holding P s" "holding P (s\<lparr>inputs := n\<rparr>) = holding P s"
  "holding P (s\<lparr>sent := n\<rparr>) = holding P s" "holding P (s\<lparr>schedClosed := b\<rparr>) = holding P s"
  "holding P (s\<lparr>spawning := b\<rparr>) = holding P s"
  "holding P (s\<lparr>stopped := bs\<rparr>) = holding P s" "holding P (s\<lparr>status := st\<rparr>) = holding P s"
  "holding P (s\<lparr>logged := hs\<rparr>) = holding P s"
  "holding P (s\<lparr>pcs := pcs s @ [c]\<rparr>) = holding P s + (if P c then 1 else 0)"
  "holding P (s\<lparr>ownInputs := xs\<rparr>) = holding P s"
  by (simp_all add: holding_def on_status_def)

lemma holding_take [simp]: "holding P (take_input k s) = holding P s"
  by (simp add: holding_def)

lemma holding_le: "holding P s \<le> int (length (pcs s))"
  by (simp add: holding_def)

lemma holding_pos: "stands s k c \<Longrightarrow> P c \<Longrightarrow> 0 < holding P s"
  by (auto simp: holding_def stands_def filter_empty_conv)

lemma holding_nonneg: "0 \<le> holding P s"
  by (simp add: holding_def)


lemma goto_simps [simp]:
  "status (goto k c s) = status s" "stopped (goto k c s) = stopped s" "crashed (goto k c s) = crashed s"
  "length (pcs (goto k c s)) = length (pcs s)" "sent (goto k c s) = sent s" "offers (goto k c s) = offers s"
  "logged (goto k c s) = logged s" "schedClosed (goto k c s) = schedClosed s"
  "spawning (goto k c s) = spawning s"
  by (simp_all add: goto_def)

lemma stands_simps [simp]:
  "stands (s\<lparr>offers := n\<rparr>) k c = stands s k c" "stands (s\<lparr>inputs := n\<rparr>) k c = stands s k c"
  "stands (s\<lparr>sent := n\<rparr>) k c = stands s k c"
  "stands (take_input j s) k c = stands s k c"
  by (simp_all add: stands_def)

lemma counts_fit:
  assumes "counters_ok s"
  shows "fits64 (holding P s + 1)" "fits64 (holding P s - 1)"
proof -
  have "holding P s \<le> 2 ^ 62" "0 \<le> holding P s"
    using assms holding_le [of P s] holding_nonneg [of P s] by (auto simp: counters_ok_def max_workers_def)
  then show "fits64 (holding P s + 1)" "fits64 (holding P s - 1)" by (simp_all add: fits64_def)
qed

lemmas status_ops = IncWaiting_def DecWaiting_def IncWorking_def DecWorking_def IncSleeping_def
  DecSleeping_def IncBusy_def DecBusy_def StartMissed_def tick_def not_negative_def Let_def

text \<open>One step keeps the counts and panics nowhere.\<close>

lemma exec_counters:
  assumes "counters_ok s" "exec a s = Some s'"
  shows "counters_ok s'"
proof -
  have ok: "\<not> crashed s" "length (pcs s) \<le> max_workers" "length (stopped s) = length (pcs s)"
      "waiting (status s) = holding in_waiting s" "working (status s) = holding in_working s"
      "sleeping (status s) = holding (\<lambda>c. c = Sleeping) s" "busy (status s) = holding in_busy s"
    using assms(1) by (simp_all add: counters_ok_def)
  note fit = counts_fit [OF assms(1)]
  have pos: "stands s k c \<Longrightarrow> P c \<Longrightarrow> 0 < holding P s" for k c P by (rule holding_pos)
  have st: "act_step a s = Some s'" using assms(2) ok(1) by (simp add: exec_def)
  show ?thesis
  proof (cases a)
    case (EndBusy k)
    then have "0 < holding in_busy s" using st pos [of k Punched in_busy] by (simp add: counted)
    then show ?thesis using st ok fit EndBusy
      by (auto simp: counters_ok_def try_status_def on_status_def status_ops holding_goto counted)
  next
    case (EndWork k)
    then have "0 < holding in_working s" using st pos [of k Recorded in_working] by (simp add: counted)
    then show ?thesis using st ok fit EndWork
      by (auto simp: counters_ok_def try_status_def on_status_def status_ops holding_goto counted)
  next
    case (Sleep k)
    have "0 \<le> holding (\<lambda>c. c = Sleeping) s" by (rule holding_nonneg)
    then show ?thesis using st ok fit Sleep
      by (auto simp: counters_ok_def try_status_def on_status_def status_ops holding_goto counted)
  qed (use st ok fit in \<open>auto simp: counters_ok_def on_status_def status_ops holding_goto counted\<close>)
qed

lemma reachable_exec: "exec a s = Some s' \<Longrightarrow> reachable exec s0 s \<Longrightarrow> reachable exec s0 s'"
  by (rule reachable.step)

interpretation counters: invariant_of exec "\<lambda>_. True" counters_ok
  by unfold_locales (rule exec_counters)

lemma start_counters: "counters_ok (start_sys cl ow n m b)"
  by (simp add: counters_ok_def start_sys_def NewStatus_def holding_def)

text \<open>
  C5: in every state any interleaving of the workers, the workload and the ticks can reach, the
  counters of the status are what their names say: \<open>busy\<close> the workers between \<open>IncBusy\<close> and
  \<open>DecBusy\<close>, \<open>sleeping\<close> those asleep, \<open>working\<close> those with an item in hand, \<open>waiting\<close> those that wait
  for an offset or an item, and those that left because the input had ended, which are counted as
  waiting for ever.  No counter becomes negative, so none of the three panics of \<open>status.go\<close>
  happens.
\<close>
theorem counters_count:
  assumes "reachable exec (start_sys cl ow n m b) s"
  shows "\<not> crashed s \<and> waiting (status s) = holding in_waiting s \<and> working (status s) = holding in_working s
    \<and> sleeping (status s) = holding (\<lambda>c. c = Sleeping) s \<and> busy (status s) = holding in_busy s"
proof -
  have "counters_ok s"
    using counters.reachable_holds [OF assms start_counters] by simp
  then show ?thesis by (simp add: counters_ok_def)
qed


lemmas run_simps = start_sys_def available_def take_input_def NewStatus_def exec_def guard_def stands_def goto_def on_status_def try_status_def
  status_ops wrap64_def max_workers_def

theorem counters_count_witness:
  "let s = the (run_steps exec [Spawn, Begin 0, TakeOffset 0, Spawn, Begin 1, TakeItem 0, EndWaiting 0, StartWork 0, NoSleep 0,
       EnterBusy 0, Tick] (start_sys True False 1 1 True)) in \<not> crashed s \<and> busy (status s) = 1 \<and> waiting (status s) = 1"
proof -
  define as where "as = [Spawn, Begin 0, TakeOffset 0, Spawn, Begin 1, TakeItem 0, EndWaiting 0, StartWork 0, NoSleep 0,
    EnterBusy 0, Tick]"
  define s where "s = the (run_steps exec as (start_sys True False 1 1 True))"
  have e: "run_steps exec as (start_sys True False 1 1 True) = Some s \<and> pcs s = [Busy, AwaitOffset]"
    unfolding s_def as_def by (simp add: run_simps)
  then have "reachable exec (start_sys True False 1 1 True) s"
    by (auto intro: run_reachable reachable.start)
  from counters_count [OF this] e show ?thesis
    unfolding as_def [symmetric] s_def [symmetric] by (simp add: holding_def counted)
qed

section \<open>Where the offsets and the items go\<close>

text \<open>The worker has an offset, an item, a request that the lag does not know of yet.\<close>

definition has_offset :: "pc \<Rightarrow> bool" where
  "has_offset c = (c \<in> {AwaitItem, HaveItem, LeftWaiting, Working, Sleeping, Awake, Busy})"

definition has_item :: "pc \<Rightarrow> bool" where
  "has_item c = (c \<in> {HaveItem, LeftWaiting, Working, Sleeping, Awake, Busy})"

definition has_result :: "pc \<Rightarrow> bool" where
  "has_result c = (c \<in> {Punched, LeftBusy})"

definition left_early :: "pc \<Rightarrow> bool" where
  "left_early c = (c = Exhausted)"

lemmas held = has_offset_def has_item_def has_result_def left_early_def

definition in_stock :: "sys \<Rightarrow> nat" where
  "in_stock s = inputs s + sum_list (ownInputs s)"

definition given :: "bool \<Rightarrow> nat \<Rightarrow> sys \<Rightarrow> nat" where
  "given ow m s = (if ow then m * length (pcs s) else m)"

definition supply_ok :: "bool \<Rightarrow> nat \<Rightarrow> nat \<Rightarrow> sys \<Rightarrow> bool" where
  "supply_ok ow n m s =
     (\<not> schedClosed s \<longrightarrow> spawning s \<and> True \<notin> set (stopped s)
       \<and> int n = int (sent s) + int (offers s) + holding has_offset s + holding left_early s
       \<and> length (ownInputs s) = length (pcs s) \<and> perWorker s = (if ow then Some m else None)
       \<and> int (given ow m s) = int (sent s) + int (in_stock s) + holding has_item s)"

lemma closed_stays: "act_step a s = Some s' \<Longrightarrow> schedClosed s \<Longrightarrow> schedClosed s'"
  by (cases a) (auto simp: on_status_def try_status_def goto_def split: sum.splits)

lemma goto_inputs [simp]:
  "inputs (goto k c s) = inputs s" "inputClosed (goto k c s) = inputClosed s" "ownInputs (goto k c s) = ownInputs s"
  "perWorker (goto k c s) = perWorker s"
  by (simp_all add: goto_def)

lemma in_stock_simps [simp]:
  "in_stock (goto k c s) = in_stock s" "in_stock (on_status f s) = in_stock s" "in_stock (try_status g s) = in_stock s"
  "in_stock (s\<lparr>offers := n\<rparr>) = in_stock s" "in_stock (s\<lparr>sent := n\<rparr>) = in_stock s"
  "in_stock (s\<lparr>status := st\<rparr>) = in_stock s" "in_stock (s\<lparr>logged := hs\<rparr>) = in_stock s"
  by (simp_all add: in_stock_def goto_def on_status_def try_status_def split: sum.splits)

lemma given_simps [simp]:
  "given ow m (goto k c s) = given ow m s" "given ow m (on_status f s) = given ow m s"
  "given ow m (try_status g s) = given ow m s" "given ow m (take_input k s) = given ow m s"
  "given ow m (s\<lparr>offers := n\<rparr>) = given ow m s" "given ow m (s\<lparr>sent := n\<rparr>) = given ow m s"
  "given ow m (s\<lparr>status := st\<rparr>) = given ow m s" "given ow m (s\<lparr>logged := hs\<rparr>) = given ow m s"
  by (simp_all add: given_def on_status_def try_status_def split: sum.splits)

lemma take_input_stock:
  assumes "0 < available s k" "k < length (ownInputs s)"
  shows "int (in_stock (take_input k s)) = int (in_stock s) - 1"
proof -
  have "ownInputs s ! k \<le> sum_list (ownInputs s)"
    using assms(2) by (rule elem_le_sum_list)
  then show ?thesis
    using assms by (auto simp: available_def take_input_def in_stock_def sum_list_update split: if_splits)
qed

lemma on_status_simps [simp]:
  "schedClosed (on_status f s) = schedClosed s" "spawning (on_status f s) = spawning s" "stopped (on_status f s) = stopped s"
  "sent (on_status f s) = sent s" "offers (on_status f s) = offers s" "inputs (on_status f s) = inputs s"
  "logged (on_status f s) = logged s" "status (on_status f s) = f (status s)" "ownInputs (on_status f s) = ownInputs s"
  "perWorker (on_status f s) = perWorker s" "pcs (on_status f s) = pcs s"
  by (simp_all add: on_status_def)

lemma try_status_simps [simp]:
  "schedClosed (try_status f s) = schedClosed s" "spawning (try_status f s) = spawning s" "stopped (try_status f s) = stopped s"
  "sent (try_status f s) = sent s" "offers (try_status f s) = offers s" "inputs (try_status f s) = inputs s"
  "logged (try_status f s) = logged s" "holding P (try_status f s) = holding P s"
  "ownInputs (try_status f s) = ownInputs s" "perWorker (try_status f s) = perWorker s" "pcs (try_status f s) = pcs s"
  by (auto simp: try_status_def holding_def split: sum.splits)

lemma exec_supply:
  assumes "counters_ok s" "supply_ok ow n m s" "exec a s = Some s'"
  shows "supply_ok ow n m s'"
proof -
  have len: "length (stopped s) = length (pcs s)" and st: "act_step a s = Some s'"
    using assms(1,3) by (simp_all add: counters_ok_def exec_def split: if_splits)
  show ?thesis
  proof (cases "schedClosed s")
    case True
    then show ?thesis using closed_stays [OF st] by (simp add: supply_ok_def)
  next
    case False
    then have "True \<notin> set (stopped s)" using assms(2) by (simp add: supply_ok_def)
    then have "\<not> stopped s ! k" if "k < length (pcs s)" for k
      using that len nth_mem [of k "stopped s"] by (metis (full_types))
    moreover have own: "length (ownInputs s) = length (pcs s)"
      using assms(2) False by (simp add: supply_ok_def)
    ultimately show ?thesis
    proof (cases a)
      case (TakeItem k)
      then have "0 < available s k" "k < length (ownInputs s)"
        using st own by (auto simp: stands_def)
      from take_input_stock [OF this] show ?thesis
        using st assms(2) False TakeItem by (auto simp: supply_ok_def holding_goto held stands_def [of s])
    next
      case Spawn
      then show ?thesis
        using st assms(2) False by (auto simp: supply_ok_def held given_def in_stock_def)
    qed (use st assms(2) False in \<open>auto simp: supply_ok_def holding_goto held stands_def [of s]\<close>)
  qed
qed

lemma start_supply: "supply_ok ow n m (start_sys cl ow n m b)"
  by (simp add: supply_ok_def given_def in_stock_def start_sys_def holding_def)

interpretation stock: invariant_of exec "\<lambda>_. True" "\<lambda>s. counters_ok s \<and> supply_ok ow n m s"
  by unfold_locales (blast intro: exec_counters exec_supply)

text \<open>
  C6: until the schedule channel is closed nothing is lost and nothing is made up: each of the \<open>n\<close>
  offsets is still to be handed out, or with a worker, or was spent on a request, or was taken by a
  worker that found the input ended; each of the \<open>m\<close> items is still in the input, or with a worker, or
  was sent (\<open>given\<close> is how many items the inputs give altogether, where each worker has its own).  So
  there are never more requests than offsets, whatever the interleaving.
\<close>
theorem no_request_without_offset:
  assumes "reachable exec (start_sys False ow n m b) s" "\<not> schedClosed s"
  shows "int n = int (sent s) + int (offers s) + holding has_offset s + holding left_early s
    \<and> int (given ow m s) = int (sent s) + int (in_stock s) + holding has_item s
    \<and> sent s \<le> n \<and> sent s \<le> given ow m s"
proof -
  have "counters_ok s \<and> supply_ok ow n m s"
    by (rule stock.reachable_holds [OF assms(1)])
      (simp_all add: start_counters start_supply)
  then have "int n = int (sent s) + int (offers s) + holding has_offset s + holding left_early s"
    "int (given ow m s) = int (sent s) + int (in_stock s) + holding has_item s"
    using assms(2) by (simp_all add: supply_ok_def)
  moreover have "0 \<le> holding P s" for P by (rule holding_nonneg)
  ultimately show ?thesis by (smt (verit) of_nat_le_iff of_nat_0_le_iff)
qed


theorem no_request_without_offset_witness:
  "let s = the (run_steps exec [Spawn, Begin 0, TakeOffset 0, TakeItem 0, EndWaiting 0, StartWork 0, NoSleep 0,
       EnterBusy 0, Punch 0] (start_sys False False 3 5 False)) in (3::int) = int (sent s) + int (offers s) + 0 \<and> sent s \<le> 3"
proof -
  define as where "as = [Spawn, Begin 0, TakeOffset 0, TakeItem 0, EndWaiting 0, StartWork 0, NoSleep 0,
    EnterBusy 0, Punch 0]"
  define s where "s = the (run_steps exec as (start_sys False False 3 5 False))"
  have e: "run_steps exec as (start_sys False False 3 5 False) = Some s \<and> pcs s = [Punched] \<and> \<not> schedClosed s"
    unfolding s_def as_def by (simp add: run_simps)
  then have "reachable exec (start_sys False False 3 5 False) s"
    by (auto intro: run_reachable reachable.start)
  from no_request_without_offset [OF this] e show ?thesis
    unfolding as_def [symmetric] s_def [symmetric] by (simp add: holding_def held)
qed

section \<open>Every request reaches the health lines\<close>

definition reqs_ok :: "sys \<Rightarrow> bool" where
  "reqs_ok s =
     (0 \<le> reqs (status s) \<and> int (sent s) = sum_list (map hReqs (logged s)) + reqs (status s) + holding has_result s
      \<and> (\<forall>h \<in> set (logged s). 0 \<le> hReqs h))"

lemma exec_sent_mono: "act_step a s = Some s' \<Longrightarrow> sent s \<le> sent s'"
  by (cases a) auto

lemma reqs_le_sent: "reqs_ok s \<Longrightarrow> reqs (status s) + holding has_result s \<le> int (sent s)"
  using sum_list_nonneg [of "map hReqs (logged s)"] by (auto simp: reqs_ok_def)

lemma exec_reqs:
  assumes "reqs_ok s" "exec a s = Some s'" "sent s' < 2 ^ 63" "counters_ok s'"
  shows "reqs_ok s'"
proof -
  have st: "act_step a s = Some s'" using assms(2) by (simp add: exec_def split: if_splits)
  have small: "reqs (status s) + holding has_result s < 2 ^ 63"
  proof -
    have "int (sent s') < int (2 ^ 63)" using assms(3) by (simp only: of_nat_less_iff)
    then show ?thesis using reqs_le_sent [OF assms(1)] exec_sent_mono [OF st] by simp
  qed
  show ?thesis
  proof (cases a)
    case (Record k d)
    then have "0 < holding has_result s"
      using st by (auto intro!: holding_pos [of _ k LeftBusy] simp: held)
    then have "fits64 (reqs (status s) + 1)"
      using small assms(1) by (simp add: fits64_def reqs_ok_def)
    then show ?thesis using st assms(1) Record
      by (auto simp: reqs_ok_def StartMissed_def holding_goto held)
  next
    case Tick
    then show ?thesis using st assms(1) by (auto simp: reqs_ok_def tick_def Let_def)
  qed (use st assms(1,4) in \<open>auto simp: reqs_ok_def counters_ok_def try_status_def on_status_def status_ops
         holding_goto held split: if_splits\<close>)
qed

interpretation requests: invariant_of exec "\<lambda>_. True" "\<lambda>s. counters_ok s \<and> (sent s < 2 ^ 63 \<longrightarrow> reqs_ok s)"
proof
  fix s a s'
  assume ok: "counters_ok s \<and> (sent s < 2 ^ 63 \<longrightarrow> reqs_ok s)" and st: "exec a s = Some s'"
  then have "sent s \<le> sent s'" using exec_sent_mono by (simp add: exec_def split: if_splits)
  then show "counters_ok s' \<and> (sent s' < 2 ^ 63 \<longrightarrow> reqs_ok s')"
    using ok exec_counters [OF _ st] exec_reqs [OF _ st] by (meson le_less_trans)
qed

text \<open>
  The health lines lose no request: whenever fewer than \<open>2 ^ 63\<close> have been made, those that
  the lines printed so far report, those the next tick will report and those whose results are being
  evaluated add up to the requests made.
\<close>
theorem health_lines_count_requests:
  assumes "reachable exec (start_sys cl ow n m b) s" "sent s < 2 ^ 63"
  shows "int (sent s) = sum_list (map hReqs (logged s)) + reqs (status s) + holding has_result s"
proof -
  have "counters_ok s \<and> (sent s < 2 ^ 63 \<longrightarrow> reqs_ok s)"
    by (rule requests.reachable_holds [OF assms(1)])
      (simp_all add: start_counters, simp add: reqs_ok_def start_sys_def NewStatus_def holding_def)
  then show ?thesis using assms(2) by (simp add: reqs_ok_def)
qed

theorem health_lines_count_requests_witness:
  "let s = the (run_steps exec [Spawn, Begin 0, TakeOffset 0, TakeItem 0, EndWaiting 0, StartWork 0, NoSleep 0,
       EnterBusy 0, Punch 0, EndBusy 0, Record 0 7, Tick] (start_sys False False 3 5 False)) in
     1 = sum_list (map hReqs (logged s)) + reqs (status s)"
proof -
  define as where "as = [Spawn, Begin 0, TakeOffset 0, TakeItem 0, EndWaiting 0, StartWork 0, NoSleep 0,
    EnterBusy 0, Punch 0, EndBusy 0, Record 0 7, Tick]"
  define s where "s = the (run_steps exec as (start_sys False False 3 5 False))"
  have e: "run_steps exec as (start_sys False False 3 5 False) = Some s \<and> pcs s = [Recorded] \<and> sent s = 1"
    unfolding s_def as_def by (simp add: run_simps)
  then have "reachable exec (start_sys False False 3 5 False) s"
    by (auto intro: run_reachable reachable.start)
  from health_lines_count_requests [OF this] e show ?thesis
    unfolding as_def [symmetric] s_def [symmetric] by (simp add: holding_def held)
qed

section \<open>Requests after the schedule has ended\<close>

definition extra_cycle :: "act list" where
  "extra_cycle = [Begin 0, TakeOffset 0, TakeItem 0, EndWaiting 0, StartWork 0, NoSleep 0, EnterBusy 0,
     Punch 0, EndBusy 0, Record 0 0, EndWork 0]"

definition alone :: "nat \<Rightarrow> nat \<Rightarrow> sys \<Rightarrow> bool" where
  "alone i t s = (perWorker s = None \<and> pcs s = [Top] \<and> stopped s = [False] \<and> counters_ok s \<and> inputs s = i \<and> sent s = t)"


lemma extra_cycle_once:
  assumes "alone (Suc i) t s" "schedClosed s \<or> 0 < offers s"
  shows "\<exists>s'. run_steps exec extra_cycle s = Some s' \<and> alone i (Suc t) s' \<and> schedClosed s' = schedClosed s
    \<and> spawning s' = spawning s \<and> offers s' = offers s - 1"
proof -
  have z: "busy (status s) = 0" "working (status s) = 0" "\<not> crashed s"
    using assms(1) by (simp_all add: alone_def counters_ok_def holding_def counted)
  obtain s' where s': "run_steps exec extra_cycle s = Some s'" "pcs s' = [Top]" "stopped s' = [False]"
      "perWorker s' = None" "inputs s' = i" "sent s' = Suc t" "schedClosed s' = schedClosed s" "spawning s' = spawning s" "offers s' = offers s - 1"
  proof -
    obtain sl wa mi re off sc spn ow ic lg where eq: "s = \<lparr>status = \<lparr>sleeping = sl, busy = 0, working = 0, waiting = wa,
        missed = mi, reqs = re\<rparr>, pcs = [Top], stopped = [False], offers = off, schedClosed = sc, spawning = spn,
        perWorker = None, inputs = Suc i, ownInputs = ow, inputClosed = ic, sent = t, logged = lg, crashed = False\<rparr>"
      using assms(1) z by (cases s; cases "status s") (simp add: alone_def)
    have "0 < off \<or> sc" using assms(2) eq by auto
    then have "\<exists>s'. run_steps exec extra_cycle s = Some s' \<and> pcs s' = [Top] \<and> stopped s' = [False]
      \<and> perWorker s' = None \<and> inputs s' = i \<and> sent s' = Suc t \<and> schedClosed s' = schedClosed s \<and> spawning s' = spawning s \<and> offers s' = offers s - 1"
      unfolding eq by (simp add: extra_cycle_def exec_def available_def take_input_def guard_def stands_def goto_def on_status_def
          try_status_def IncWaiting_def DecWaiting_def IncWorking_def DecWorking_def IncBusy_def DecBusy_def
          StartMissed_def not_negative_def wrap64_id fits64_def)
    then show thesis using that by blast
  qed
  moreover have "counters_ok s'"
    using counters.run_holds [OF s'(1)] assms(1) by (simp add: alone_def list_all_iff)
  ultimately show ?thesis by (simp add: alone_def)
qed

lemma extra_cycles:
  assumes "alone (x + i) t s" "schedClosed s \<or> x \<le> offers s"
  shows "\<exists>s'. run_steps exec (concat (replicate x extra_cycle)) s = Some s' \<and> alone i (t + x) s'
    \<and> schedClosed s' = schedClosed s \<and> spawning s' = spawning s \<and> offers s' = offers s - x"
  using assms
proof (induction x arbitrary: t s)
  case (Suc x)
  then obtain s1 where s1: "run_steps exec extra_cycle s = Some s1" "alone (x + i) (Suc t) s1"
      "schedClosed s1 = schedClosed s" "spawning s1 = spawning s" "offers s1 = offers s - 1"
    using extra_cycle_once [of "x + i" t s] by auto
  moreover have "schedClosed s1 \<or> x \<le> offers s1" using s1(3,5) Suc.prems(2) by auto
  ultimately show ?case using Suc.IH [of "Suc t" s1] by (auto simp: run_steps_append)
qed simp

text \<open>
  After the last offset the schedule is closed before the workers are told to stop, and a worker
  does not look whether the offset it received came from an open channel: with one worker, \<open>n\<close>
  offsets and any number \<open>x\<close> of further items, the whole schedule can be sent and then \<open>x\<close> requests
  more, at once, before the worker is stopped.
\<close>
theorem unscheduled_requests_after_close:
  "\<exists>s. run_steps exec (Spawn # concat (replicate n extra_cycle) @ CloseSched # concat (replicate x extra_cycle) @ [Stop 0])
         (start_sys False False n (n + x) b) = Some s \<and> sent s = n + x"
proof -
  define s1 where "s1 = the (exec Spawn (start_sys False False n (n + x) b))"
  have s1: "exec Spawn (start_sys False False n (n + x) b) = Some s1" "alone (n + x) 0 s1" "offers s1 = n" "\<not> schedClosed s1"
    by (simp_all add: s1_def alone_def exec_def start_sys_def NewStatus_def counters_ok_def holding_def counted guard_def
        max_workers_def)
  obtain s2 where s2: "run_steps exec (concat (replicate n extra_cycle)) s1 = Some s2" "alone x n s2" "\<not> schedClosed s2"
    using extra_cycles [of n x 0 s1] s1 by auto
  define s3 where "s3 = the (exec CloseSched s2)"
  have s3: "exec CloseSched s2 = Some s3" "alone (x + 0) n s3" "schedClosed s3" "\<not> spawning s3"
    using s2 by (simp_all add: s3_def alone_def exec_def counters_ok_def guard_def holding_def max_workers_def)
  obtain s4 where s4: "run_steps exec (concat (replicate x extra_cycle)) s3 = Some s4" "alone 0 (n + x) s4" "schedClosed s4" "\<not> spawning s4"
    using extra_cycles [of x 0 n s3] s3 by auto
  then have "\<exists>s. exec (Stop 0) s4 = Some s \<and> sent s = n + x"
    by (auto simp: alone_def exec_def counters_ok_def guard_def)
  then show ?thesis using s1(1) s2(1) s3(1) s4(1) by (auto simp: run_steps_append)
qed

section \<open>The end of a worker\<close>

fun worker_of :: "act \<Rightarrow> nat option" where
  "worker_of (Begin k) = Some k"
| "worker_of (Leave k) = Some k"
| "worker_of (TakeOffset k) = Some k"
| "worker_of (TakeItem k) = Some k"
| "worker_of (NoItem k) = Some k"
| "worker_of (EndWaiting k) = Some k"
| "worker_of (StartWork k) = Some k"
| "worker_of (Sleep k) = Some k"
| "worker_of (NoSleep k) = Some k"
| "worker_of (Wake k) = Some k"
| "worker_of (Skip k) = Some k"
| "worker_of (EnterBusy k) = Some k"
| "worker_of (Punch k) = Some k"
| "worker_of (EndBusy k) = Some k"
| "worker_of (Record k d) = Some k"
| "worker_of (EndWork k) = Some k"
| "worker_of _ = None"

text \<open>The control points an action of a worker goes between.\<close>

fun move :: "act \<Rightarrow> pc \<times> pc" where
  "move (Begin k) = (Top, AwaitOffset)"
| "move (Leave k) = (Top, Stopped)"
| "move (TakeOffset k) = (AwaitOffset, AwaitItem)"
| "move (TakeItem k) = (AwaitItem, HaveItem)"
| "move (NoItem k) = (AwaitItem, Exhausted)"
| "move (EndWaiting k) = (HaveItem, LeftWaiting)"
| "move (StartWork k) = (LeftWaiting, Working)"
| "move (Sleep k) = (Working, Sleeping)"
| "move (NoSleep k) = (Working, Awake)"
| "move (Wake k) = (Sleeping, Awake)"
| "move (Skip k) = (Awake, Recorded)"
| "move (EnterBusy k) = (Awake, Busy)"
| "move (Punch k) = (Busy, Punched)"
| "move (EndBusy k) = (Punched, LeftBusy)"
| "move (Record k d) = (LeftBusy, Recorded)"
| "move (EndWork k) = (Recorded, Top)"
| "move _ = (Top, Top)"

lemma exec_worker:
  assumes "exec a s = Some s'" "worker_of a = Some k"
  shows "k < length (pcs s)" "pcs s ! k = fst (move a)" "pcs s' = (pcs s)[k := snd (move a)]"
  using assms by (cases a; auto simp: exec_def stands_def goto_def split: if_splits)+

lemma exec_no_worker:
  assumes "exec a s = Some s'" "worker_of a = None"
  shows "pcs s' = (if a = Spawn then pcs s @ [Top] else pcs s)"
  using assms by (cases a) (auto simp: exec_def split: if_splits)

text \<open>How many actions a worker that was told to stop can still do, from where it stands.\<close>

fun rank :: "pc \<Rightarrow> nat" where
  "rank AwaitOffset = 12"
| "rank AwaitItem = 11"
| "rank HaveItem = 10"
| "rank LeftWaiting = 9"
| "rank Working = 8"
| "rank Sleeping = 7"
| "rank Awake = 6"
| "rank Busy = 5"
| "rank Punched = 4"
| "rank LeftBusy = 3"
| "rank Recorded = 2"
| "rank Top = 1"
| "rank Stopped = 0"
| "rank Exhausted = 0"

lemma rank_le: "rank c \<le> 12"
  by (cases c) simp_all

lemma rank_move: "exec a s = Some s' \<Longrightarrow> worker_of a = Some k \<Longrightarrow> stopped s ! k \<Longrightarrow> Suc (rank (snd (move a))) \<le> rank (fst (move a))"
  by (cases a) (auto simp: exec_def stands_def split: if_splits)

lemma exec_stopped_list:
  "exec a s = Some s' \<Longrightarrow> stopped s' =
     (case a of Spawn \<Rightarrow> stopped s @ [False] | Stop j \<Rightarrow> (stopped s)[j := True] | _ \<Rightarrow> stopped s)"
  by (cases a) (auto simp: exec_def split: if_splits)

lemma update_stays: "k < length bs \<Longrightarrow> bs ! k \<Longrightarrow> bs[j := True] ! k"
  by (cases "j = k") simp_all

lemma exec_stopped:
  assumes "exec a s = Some s'" "k < length (stopped s)" "stopped s ! k"
  shows "k < length (stopped s')" "stopped s' ! k"
  unfolding exec_stopped_list [OF assms(1)]
  using assms(2,3) by (auto simp: nth_append update_stays split: act.splits)

lemma run_stopped:
  "run_steps exec as s = Some s' \<Longrightarrow> k < length (stopped s) \<Longrightarrow> stopped s ! k \<Longrightarrow> k < length (stopped s') \<and> stopped s' ! k"
  by (induction as arbitrary: s) (auto split: bind_splits dest: exec_stopped)

lemma exec_rank:
  assumes "exec a s = Some s'" "k < length (pcs s)" "k < length (stopped s)" "stopped s ! k"
  shows "rank (pcs s' ! k) + (if worker_of a = Some k then 1 else 0) \<le> rank (pcs s ! k)"
proof (cases "worker_of a")
  case None
  then show ?thesis using exec_no_worker [OF assms(1) None] assms(2) by (simp add: nth_append)
next
  case (Some j)
  then show ?thesis
    using exec_worker [OF assms(1) Some] rank_move [OF assms(1) Some] assms(2-4)
    by (cases "j = k") (simp_all add: nth_list_update)
qed

lemma exec_pcs_length: "exec a s = Some s' \<Longrightarrow> length (pcs s) \<le> length (pcs s')"
  using exec_no_worker [of a s s'] exec_worker [of a s s'] by (cases "worker_of a") auto

lemma run_rank:
  "run_steps exec as s = Some s' \<Longrightarrow> k < length (pcs s) \<Longrightarrow> k < length (stopped s) \<Longrightarrow> stopped s ! k
    \<Longrightarrow> rank (pcs s' ! k) + length (filter (\<lambda>a. worker_of a = Some k) as) \<le> rank (pcs s ! k)"
proof (induction as arbitrary: s)
  case (Cons a as)
  then obtain s1 where s1: "exec a s = Some s1" "run_steps exec as s1 = Some s'"
    by (auto split: bind_splits)
  have "k < length (pcs s1)" using exec_pcs_length [OF s1(1)] Cons.prems(2) by simp
  from Cons.IH [OF s1(2) this exec_stopped [OF s1(1) Cons.prems(3,4)]] exec_rank [OF s1(1) Cons.prems(2-4)]
  show ?case by (auto split: if_splits)
qed simp

text \<open>A worker that was told to stop can go on unless it has ended or waits for its input.\<close>

lemma stopped_goes_on:
  assumes "k < length (pcs s)" "stopped s ! k" "schedClosed s" "\<not> crashed s" "0 < rank (pcs s ! k)"
    "pcs s ! k = AwaitItem \<longrightarrow> 0 < available s k \<or> inputClosed s"
  shows "\<exists>a s'. worker_of a = Some k \<and> exec a s = Some s'"
proof -
  have st: "stands s k (pcs s ! k)" using assms(1) by (simp add: stands_def)
  define a where "a = (case pcs s ! k of AwaitOffset \<Rightarrow> TakeOffset k
      | AwaitItem \<Rightarrow> if 0 < available s k then TakeItem k else NoItem k
      | HaveItem \<Rightarrow> EndWaiting k | LeftWaiting \<Rightarrow> StartWork k | Working \<Rightarrow> NoSleep k | Sleeping \<Rightarrow> Wake k
      | Awake \<Rightarrow> Skip k | Busy \<Rightarrow> Punch k | Punched \<Rightarrow> EndBusy k | LeftBusy \<Rightarrow> Record k 0 | Recorded \<Rightarrow> EndWork k
      | _ \<Rightarrow> Leave k)"
  have "worker_of a = Some k \<and> (\<exists>s'. exec a s = Some s')"
    using assms(2-6) st by (cases "pcs s ! k") (auto simp: a_def exec_def guard_def)
  then show ?thesis by blast
qed



end
