(* ===== verification/Worker_Timing.thy ===== *)
theory Worker_Timing
  imports Worker_System "HOL-Library.Multiset"
begin

text \<open>
  When the requests are sent: the workers of \<open>Worker_System\<close> with a clock, the offsets of the schedule
  and what \<open>Iteration\<close> of \<open>pkg/core/worker.go\<close> makes of them.  Times are nanoseconds since the start time
  of the workload, which all workers have.
\<close>

section \<open>The system with a clock\<close>

text \<open>
  What a worker knows of time: \<open>due\<close> is \<open>expectedStart\<close>, \<open>wakes\<close> the end of its sleep, \<open>startedAt\<close> the
  start time of its result.
\<close>

record timer =
  due :: int
  wakes :: int
  startedAt :: int

text \<open>
  \<open>offsets\<close> are those the schedule has still to hand out; \<open>sends\<close> records, for every request, when it was
  due and when it was sent.
\<close>

record timed =
  wsys :: sys
  wallClock :: int
  offsets :: "duration list"
  timers :: "timer list"
  sends :: "(int \<times> int) list"

definition start_timed :: "bool \<Rightarrow> bool \<Rightarrow> duration list \<Rightarrow> nat \<Rightarrow> bool \<Rightarrow> timed" where
  "start_timed cl ow sched ins shut =
     \<lparr>wsys = start_sys cl ow (length sched) ins shut, wallClock = 0, offsets = (if cl then [] else sched),
      timers = [], sends = []\<rparr>"

text \<open>Time passes between the actions, as much as it will.\<close>

datatype timed_act = Do act | Pass nat

definition delay_of :: "nat \<Rightarrow> timed \<Rightarrow> duration" where
  "delay_of k t = sat64 (due (timers t ! k) - wallClock t)"

text \<open>
  What each action needs of time, and what it does with it.  A receive from a closed schedule, or from
  that of the closed workload, gives 0; \<open>Sleep\<close> and \<open>NoSleep\<close> are the outcomes of the test of the delay;
  a sleep ends at its end or later; \<open>Record\<close> has the lag of the request.
\<close>

fun in_time :: "act \<Rightarrow> timed \<Rightarrow> bool" where
  "in_time (Sleep k) t = (0 < delay_of k t)"
| "in_time (NoSleep k) t = (delay_of k t \<le> 0)"
| "in_time (Wake k) t = (wakes (timers t ! k) \<le> wallClock t)"
| "in_time (Record k d) t = (d = sat64 (startedAt (timers t ! k) - due (timers t ! k)))"
| "in_time _ t = True"

fun on_timer :: "act \<Rightarrow> timed \<Rightarrow> timer \<Rightarrow> timer" where
  "on_timer (TakeOffset k) t w = w\<lparr>due := (case offsets t of [] \<Rightarrow> 0 | offset # _ \<Rightarrow> offset)\<rparr>"
| "on_timer (Sleep k) t w = w\<lparr>wakes := wallClock t + delay_of k t\<rparr>"
| "on_timer (Punch k) t w = w\<lparr>startedAt := wallClock t\<rparr>"
| "on_timer _ t w = w"

definition on_time :: "act \<Rightarrow> timed \<Rightarrow> timed" where
  "on_time a t = t\<lparr>
     offsets := (case a of TakeOffset k \<Rightarrow> tl (offsets t) | CloseSched \<Rightarrow> [] | _ \<Rightarrow> offsets t),
     timers := (case worker_of a of
         Some k \<Rightarrow> (timers t)[k := on_timer a t (timers t ! k)]
       | None \<Rightarrow> if a = Spawn then timers t @ [\<lparr>due = 0, wakes = 0, startedAt = 0\<rparr>] else timers t),
     sends := (case a of Punch k \<Rightarrow> sends t @ [(due (timers t ! k), wallClock t)] | _ \<Rightarrow> sends t)\<rparr>"

fun timed_step :: "timed_act \<Rightarrow> timed \<Rightarrow> timed option" where
  "timed_step (Pass n) t = Some (t\<lparr>wallClock := wallClock t + int n\<rparr>)"
| "timed_step (Do a) t =
     (if in_time a t then map_option (\<lambda>s. (on_time a t)\<lparr>wsys := s\<rparr>) (exec a (wsys t)) else None)"

section \<open>No request before its time\<close>

definition timer_ok :: "int \<Rightarrow> pc \<Rightarrow> timer \<Rightarrow> bool" where
  "timer_ok now c w =
     (0 \<le> due w \<and> due w < 2 ^ 63
      \<and> (c = Sleeping \<longrightarrow> due w \<le> wakes w)
      \<and> (c \<in> {Awake, Busy} \<longrightarrow> due w \<le> now)
      \<and> (c \<in> {Punched, LeftBusy} \<longrightarrow> due w \<le> startedAt w \<and> startedAt w \<le> now))"

definition timed_ok :: "bool \<Rightarrow> bool \<Rightarrow> nat \<Rightarrow> nat \<Rightarrow> bool \<Rightarrow> timed \<Rightarrow> bool" where
  "timed_ok cl ow n m b t =
     (reachable exec (start_sys cl ow n m b) (wsys t) \<and> length (timers t) = length (pcs (wsys t)) \<and> 0 \<le> wallClock t
      \<and> list_all (\<lambda>x. 0 \<le> x \<and> x < 2 ^ 63) (offsets t)
      \<and> (\<forall>k < length (timers t). timer_ok (wallClock t) (pcs (wsys t) ! k) (timers t ! k))
      \<and> list_all (\<lambda>(d, at). d \<le> at) (sends t))"

lemma delay_id: "0 \<le> now \<Longrightarrow> d < 2 ^ 63 \<Longrightarrow> 0 < sat64 (d - now) \<Longrightarrow> now + sat64 (d - now) = d"
  by (simp add: sat64_def max_def min_def split: if_splits)

lemma no_delay: "sat64 (d - now) \<le> 0 \<Longrightarrow> d \<le> now"
  by (simp add: sat64_def max_def min_def split: if_splits)

lemma timer_ok_later: "timer_ok now c w \<Longrightarrow> now \<le> later \<Longrightarrow> timer_ok later c w"
  by (auto simp: timer_ok_def)

lemma on_timer_ok:
  assumes "worker_of a = Some k" "timer_ok (wallClock t) (fst (move a)) (timers t ! k)" "0 \<le> wallClock t"
    "in_time a t" "list_all (\<lambda>x. 0 \<le> x \<and> x < 2 ^ 63) (offsets t)"
  shows "timer_ok (wallClock t) (snd (move a)) (on_timer a t (timers t ! k))"
  using assms
  by (cases a) (auto simp: timer_ok_def delay_of_def delay_id no_delay split: list.splits)

lemma timed_ok_step:
  assumes "timed_ok cl ow n m b t" "timed_step a t = Some t'"
  shows "timed_ok cl ow n m b t'"
proof (cases a)
  case (Pass n)
  then show ?thesis
    using assms timer_ok_later by (auto simp: timed_ok_def)
next
  case (Do c)
  then obtain s where s: "in_time c t" "exec c (wsys t) = Some s" "t' = (on_time c t)\<lparr>wsys := s\<rparr>"
    using assms(2) by (auto split: if_splits)
  have "reachable exec (start_sys cl ow n m b) s"
    using assms(1) reachable_exec [OF s(2)] by (simp add: timed_ok_def)
  moreover have "length (timers (on_time c t)) = length (pcs s)
    \<and> (\<forall>k < length (pcs s). timer_ok (wallClock t) (pcs s ! k) (timers (on_time c t) ! k))"
  proof (cases "worker_of c")
    case None
    then show ?thesis
      using assms(1) exec_no_worker [OF s(2) None]
      by (auto simp: timed_ok_def on_time_def nth_append timer_ok_def less_Suc_eq)
  next
    case (Some k)
    note w = exec_worker [OF s(2) Some]
    have "timer_ok (wallClock t) (snd (move c)) (on_timer c t (timers t ! k))"
      using on_timer_ok [OF Some _ _ s(1)] assms(1) w(1) w(2) [symmetric] by (simp add: timed_ok_def)
    then show ?thesis
      using assms(1) w Some by (auto simp: timed_ok_def on_time_def nth_list_update)
  qed
  moreover have "list_all (\<lambda>(d, at). d \<le> at) (sends (on_time c t))"
    using assms(1) exec_worker [OF s(2)]
    by (cases c) (auto simp: timed_ok_def on_time_def timer_ok_def)
  moreover have "list_all (\<lambda>x. 0 \<le> x \<and> x < 2 ^ 63) (offsets (on_time c t))"
    using assms(1) by (cases "offsets t"; cases c) (auto simp: timed_ok_def on_time_def)
  ultimately show ?thesis
    using assms(1) s(3) by (simp add: timed_ok_def) (simp add: on_time_def)
qed

interpretation timing: invariant_of timed_step "\<lambda>_. True" "timed_ok cl ow n m b"
  by unfold_locales (rule timed_ok_step)

section \<open>Where the offsets go\<close>

definition holds_due :: "pc \<times> timer \<Rightarrow> bool" where
  "holds_due x = (has_offset (fst x) \<or> left_early (fst x))"

text \<open>The due times of the workers that have an offset and have not sent yet.\<close>

definition pending_dues :: "timed \<Rightarrow> int multiset" where
  "pending_dues t = mset (map (due \<circ> snd) (filter holds_due (zip (pcs (wsys t)) (timers t))))"

definition spent_ok :: "duration list \<Rightarrow> timed \<Rightarrow> bool" where
  "spent_ok sched t =
     (\<not> schedClosed (wsys t) \<longrightarrow>
       length (offsets t) = offers (wsys t)
       \<and> mset (map fst (sends t)) + pending_dues t + mset (offsets t) = mset sched)"

lemma mset_filter_update:
  assumes "k < length xs"
  shows "mset (map f (filter P (xs[k := y]))) + (if P (xs ! k) then {#f (xs ! k)#} else {#}) =
    mset (map f (filter P xs)) + (if P y then {#f y#} else {#})"
proof -
  have xs: "xs = take k xs @ xs ! k # drop (Suc k) xs" using assms by (simp add: id_take_nth_drop)
  then have "mset (map f (filter P xs)) = mset (map f (filter P (take k xs @ xs ! k # drop (Suc k) xs)))" by simp
  then show ?thesis using assms by (simp add: upd_conv_take_nth_drop)
qed

lemma pending_dues_move:
  assumes "timed_ok cl ow n m b t" "exec a (wsys t) = Some s" "worker_of a = Some k"
  shows "pending_dues ((on_time a t)\<lparr>wsys := s\<rparr>)
      + (if holds_due (fst (move a), timers t ! k) then {#due (timers t ! k)#} else {#})
    = pending_dues t
      + (if holds_due (snd (move a), on_timer a t (timers t ! k)) then {#due (on_timer a t (timers t ! k))#} else {#})"
proof -
  note w = exec_worker [OF assms(2,3)]
  have len: "length (timers t) = length (pcs (wsys t))"
    using assms(1) by (simp add: timed_ok_def)
  let ?x = "(snd (move a), on_timer a t (timers t ! k))"
  let ?z = "zip (pcs (wsys t)) (timers t)"
  have "zip (pcs s) (timers (on_time a t)) = ?z[k := ?x]"
    by (simp add: w(3) on_time_def assms(3) update_zip)
  then have new: "pending_dues ((on_time a t)\<lparr>wsys := s\<rparr>) = mset (map (due \<circ> snd) (filter holds_due (?z[k := ?x])))"
    by (simp add: pending_dues_def del: mset_map mset_filter)
  have nth: "?z ! k = (fst (move a), timers t ! k)" "k < length ?z"
    using w(1,2) len by simp_all
  show ?thesis
    using mset_filter_update [OF nth(2), of "due \<circ> snd" holds_due ?x]
    unfolding new nth(1) pending_dues_def [of t] o_apply snd_conv .
qed

lemma exec_offers:
  "exec a s = Some s' \<Longrightarrow> \<not> schedClosed s' \<Longrightarrow> offers s' = (if \<exists>k. a = TakeOffset k then offers s - 1 else offers s)"
  by (cases a) (auto simp: exec_def split: if_splits)

lemma spent_ok_step:
  assumes ok: "timed_ok cl ow n m b t" "spent_ok sched t" and "timed_step a t = Some t'"
  shows "spent_ok sched t'"
proof (cases a)
  case (Pass n)
  then show ?thesis using assms by (auto simp: spent_ok_def pending_dues_def)
next
  case (Do c)
  then obtain s where s: "exec c (wsys t) = Some s" "t' = (on_time c t)\<lparr>wsys := s\<rparr>"
    using assms(3) by (auto split: if_splits)
  show ?thesis
  proof (cases "schedClosed s")
    case True
    then show ?thesis by (simp add: spent_ok_def s(2))
  next
    case False
    then have op: "\<not> schedClosed (wsys t)"
      using closed_stays s(1) by (auto simp: exec_def split: if_splits)
    then have spent: "length (offsets t) = offers (wsys t)"
      "mset (map fst (sends t)) + pending_dues t + mset (offsets t) = mset sched"
      using ok(2) by (simp_all add: spent_ok_def)
    have "supply_ok ow n m (wsys t)" and counters: "counters_ok (wsys t)"
      using ok(1) stock.reachable_holds [of "start_sys cl ow n m b" "wsys t" ow n m] start_counters start_supply
      by (simp_all add: timed_ok_def)
    then have "True \<notin> set (stopped (wsys t))"
      using op by (simp add: supply_ok_def)
    then have going: "\<not> stopped (wsys t) ! k" if "k < length (stopped (wsys t))" for k
      using that nth_mem by (metis (full_types))
    show ?thesis
    proof (cases "worker_of c")
      case None
      then have "pending_dues t' = pending_dues t \<and> offsets t' = offsets t \<and> sends t' = sends t"
        using ok(1) False exec_no_worker [OF s(1) None] op s(1)
        by (cases c) (auto simp: s(2) on_time_def pending_dues_def holds_due_def held timed_ok_def exec_def split: if_splits)
      moreover have "offers s = offers (wsys t)"
        using exec_offers [OF s(1) False] None by auto
      ultimately show ?thesis using spent s(2) by (simp add: spent_ok_def)
    next
      case (Some k)
      note move = pending_dues_move [OF ok(1) s(1) Some, folded s(2)]
      show ?thesis
      proof (cases c)
        case (TakeOffset j)
        then have "0 < offers (wsys t)" using s(1) op by (auto simp: exec_def split: if_splits)
        then obtain o' rest where "offsets t = o' # rest"
          using spent(1) by (cases "offsets t") auto
        then show ?thesis
          using move spent exec_offers [OF s(1) False] TakeOffset
          by (auto simp: spent_ok_def s(2) on_time_def holds_due_def held)
      next
        case (Skip j)
        then have "k < length (stopped (wsys t))" "stopped (wsys t) ! k"
          using Some s(1) counters by (auto simp: exec_def stands_def counters_ok_def split: if_splits)
        then show ?thesis using going by blast
      next
        case (Punch j)
        then have "pending_dues t = pending_dues t' + {#due (timers t ! k)#}"
          using move by (simp add: holds_due_def held)
        then show ?thesis
          using spent exec_offers [OF s(1) False] Punch Some
          by (simp add: spent_ok_def s(2) on_time_def)
      qed (use Some move spent exec_offers [OF s(1) False] s(1) False in
          \<open>auto simp: spent_ok_def s(2) on_time_def holds_due_def held\<close>)
    qed
  qed
qed

interpretation spending: invariant_of timed_step "\<lambda>_. True" "\<lambda>t. timed_ok cl ow n m b t \<and> spent_ok sched t"
  by unfold_locales (blast intro: timed_ok_step spent_ok_step)

lemma start_timed_ok:
  assumes "list_all (\<lambda>x. 0 \<le> x \<and> x < 2 ^ 63) sched"
  shows "timed_ok cl ow (length sched) m b (start_timed cl ow sched m b)"
    "spent_ok sched (start_timed cl ow sched m b)"
proof -
  show "timed_ok cl ow (length sched) m b (start_timed cl ow sched m b)"
    using assms by (simp add: timed_ok_def start_timed_def reachable.start) (simp add: start_sys_def)
  show "spent_ok sched (start_timed cl ow sched m b)"
    by (simp add: spent_ok_def start_timed_def pending_dues_def start_sys_def)
qed

section \<open>Properties\<close>

text \<open>
  C7: no request is sent before its time: in every interleaving, and however much time passes between
  the actions, each request goes out at the offset its worker received or later, so that every lag
  that is counted is at least 0; and until the schedule is closed the requests sent were due at
  different offsets of the schedule, each offset used for one request at most.
\<close>

theorem requests_on_schedule:
  assumes "reachable timed_step (start_timed cl ow sched m b) t" "list_all (\<lambda>x. 0 \<le> x \<and> x < 2 ^ 63) sched"
  shows "list_all (\<lambda>(d, at). d \<le> at) (sends t)
    \<and> (\<forall>k lag t'. timed_step (Do (Record k lag)) t = Some t' \<longrightarrow> 0 \<le> lag)
    \<and> (\<not> schedClosed (wsys t) \<longrightarrow> mset (map fst (sends t)) \<subseteq># mset sched)"
proof -
  have ok: "timed_ok cl ow (length sched) m b t" "spent_ok sched t"
    using spending.reachable_holds [OF assms(1), of cl ow "length sched" m b sched] start_timed_ok [OF assms(2)] by simp_all
  have "0 \<le> lag" if rec: "timed_step (Do (Record k lag)) t = Some t'" for k lag t'
  proof -
    obtain s where s: "exec (Record k lag) (wsys t) = Some s"
      and lag: "lag = sat64 (startedAt (timers t ! k) - due (timers t ! k))"
      using rec by (auto split: if_splits)
    have "k < length (timers t)" "pcs (wsys t) ! k = LeftBusy"
      using exec_worker [OF s] ok(1) by (simp_all add: timed_ok_def)
    then have "due (timers t ! k) \<le> startedAt (timers t ! k)"
      using ok(1) by (auto simp: timed_ok_def timer_ok_def)
    then show ?thesis by (simp add: lag sat64_def)
  qed
  moreover have "mset (map fst (sends t)) \<subseteq># mset sched" if "\<not> schedClosed (wsys t)"
    using ok(2) that by (metis spent_ok_def mset_subset_eq_add_left add.assoc)
  ultimately show ?thesis using ok(1) by (simp add: timed_ok_def)
qed

theorem requests_on_schedule_witness:
  "let t = the (run_steps timed_step (map Do [Spawn, Begin 0, TakeOffset 0, TakeItem 0, EndWaiting 0, StartWork 0, Sleep 0]
        @ [Pass 9] @ map Do [Wake 0, EnterBusy 0, Punch 0]) (start_timed False False [7, 8] 5 False)) in
     sends t = [(7, 9)] \<and> mset (map fst (sends t)) \<subseteq># mset [7, 8]"
proof -
  define as where "as = map Do [Spawn, Begin 0, TakeOffset 0, TakeItem 0, EndWaiting 0, StartWork 0, Sleep 0]
        @ [Pass 9] @ map Do [Wake 0, EnterBusy 0, Punch 0]"
  define t where "t = the (run_steps timed_step as (start_timed False False [7, 8] 5 False))"
  have e: "run_steps timed_step as (start_timed False False [7, 8] 5 False) = Some t
    \<and> sends t = [(7, 9)] \<and> \<not> schedClosed (wsys t)"
    unfolding t_def as_def by (simp add: run_simps start_timed_def on_time_def delay_of_def sat64_def)
  then have "reachable timed_step (start_timed False False [7, 8] 5 False) t"
    by (auto intro: run_reachable reachable.start)
  from requests_on_schedule [OF this] e show ?thesis
    unfolding as_def [symmetric] t_def [symmetric] by simp
qed

end
