(* ===== verification/Payload_Json.thy ===== *)
theory Payload_Json
  imports Json_Decode Payload_Item
begin

text \<open>
  \<open>json.Unmarshal\<close> into a \<open>PayloadItem\<close>: the fields with their tags, \<open>ExtractRegex\<close>, \<open>AssertItem\<close> and
  \<open>RegexpProxy\<close> of \<open>pkg/core/input.go\<close>, decoded as \<open>encoding/json\<close> decodes into a value that is
  there already.
\<close>

section \<open>Decoding into a value\<close>

text \<open>
  A value of the wrong type is remembered as the error and decoding goes on; the error of an
  \<open>UnmarshalText\<close> ends it at once.
\<close>

datatype outcome = Fine | Saved | Aborted

type_synonym 'a decoder = "json \<Rightarrow> 'a \<Rightarrow> 'a \<times> outcome"

fun worse :: "outcome \<Rightarrow> outcome \<Rightarrow> outcome" where
  "worse Aborted e = Aborted"
| "worse Saved Aborted = Aborted"
| "worse Saved e = Saved"
| "worse Fine e = e"

text \<open>Null leaves a value that is no pointer, map or slice as it is.\<close>

fun decode_string :: "string decoder" where
  "decode_string (JStr s) x = (s, Fine)"
| "decode_string JNull x = (x, Fine)"
| "decode_string j x = (x, Saved)"

fun decode_bool :: "bool decoder" where
  "decode_bool (JBool b) x = (b, Fine)"
| "decode_bool JNull x = (x, Fine)"
| "decode_bool j x = (x, Saved)"

fun decode_int :: "int decoder" where
  "decode_int (JNum s) x = (if snd (Atoi s) then (fst (Atoi s), Fine) else (x, Saved))"
| "decode_int JNull x = (x, Fine)"
| "decode_int j x = (x, Saved)"

text \<open>\<open>strconv.ParseUint\<close> with the bound of the type: no sign, no fraction, no exponent.\<close>

fun decode_nat :: "nat \<Rightarrow> nat decoder" where
  "decode_nat bound (JNum s) x =
     (if s \<noteq> [] \<and> list_all ascii_digit s \<and> decimal s < bound then (decimal s, Fine) else (x, Saved))"
| "decode_nat bound JNull x = (x, Fine)"
| "decode_nat bound j x = (x, Saved)"

definition decode_u16 :: "u16 decoder" where
  "decode_u16 j x = map_prod of_nat id (decode_nat 65536 j (unat x))"

definition decode_u8 :: "char decoder" where
  "decode_u8 j x = map_prod char_of id (decode_nat 256 j (code x))"

text \<open>
  A slice is filled from its start: an element is decoded into what its place in the array behind
  the slice holds already, also beyond the length of the slice; the second list is that part.
\<close>

fun decode_elems :: "'a decoder \<Rightarrow> 'a \<Rightarrow> json list \<Rightarrow> 'a list \<Rightarrow> 'a list \<times> 'a list \<times> outcome" where
  "decode_elems d z [] places = ([], places, Fine)"
| "decode_elems d z (j # js) places =
     (case d j (case places of [] \<Rightarrow> z | y # _ \<Rightarrow> y) of (x, e) \<Rightarrow>
        if e = Aborted then ([x], tl places, Aborted)
        else case decode_elems d z js (tl places) of (xs, rest, e') \<Rightarrow> (x # xs, rest, worse e e'))"

fun decode_slice :: "'a decoder \<Rightarrow> 'a \<Rightarrow> ('a list \<times> 'a list) decoder" where
  "decode_slice d z JNull s = (([], []), Fine)"
| "decode_slice d z (JArr []) s = (([], []), Fine)"
| "decode_slice d z (JArr js) (xs, spare) =
     (case decode_elems d z js (xs @ spare) of (ys, rest, e) \<Rightarrow> ((ys, rest), e))"
| "decode_slice d z j s = (s, Saved)"

text \<open>A pointer to a struct: null makes it nil.\<close>

definition decode_pointer :: "'a \<Rightarrow> 'a decoder \<Rightarrow> 'a decoder" where
  "decode_pointer z d j x = (if j = JNull then (z, Fine) else d j x)"

section \<open>Structs and maps\<close>

text \<open>
  A member goes to the field whose name it has, whatever the case of its letters; the letter s
  may also be the long s of Unicode (and k the sign of the Kelvin, but no field has a k).
\<close>

definition lower :: "char \<Rightarrow> nat" where
  "lower c = (if between 65 90 c then code c + 32 else code c)"

fun fold_eq :: "string \<Rightarrow> string \<Rightarrow> bool" where
  "fold_eq [] t = (t = [])"
| "fold_eq (c # s) t =
     ((case t of [] \<Rightarrow> False | d # u \<Rightarrow> lower c = lower d \<and> fold_eq s u)
      \<or> lower c = 115 \<and> take 2 t = [CHR 0xC5, CHR 0xBF] \<and> fold_eq s (drop 2 t))"

fun field_for :: "(string \<times> 's decoder) list \<Rightarrow> string \<Rightarrow> 's decoder option" where
  "field_for [] k = None"
| "field_for ((name, d) # fs) k = (if fold_eq name k then Some d else field_for fs k)"

fun decode_members :: "(string \<times> 's decoder) list \<Rightarrow> (string \<times> json) list \<Rightarrow> 's \<Rightarrow> 's \<times> outcome" where
  "decode_members fs [] x = (x, Fine)"
| "decode_members fs ((k, j) # ms) x =
     (case (case field_for fs k of None \<Rightarrow> (x, Fine) | Some d \<Rightarrow> d j x) of (y, e) \<Rightarrow>
        if e = Aborted then (y, Aborted)
        else case decode_members fs ms y of (y', e') \<Rightarrow> (y', worse e e'))"

fun decode_struct :: "(string \<times> 's decoder) list \<Rightarrow> 's decoder" where
  "decode_struct fs (JObj ms) x = decode_members fs ms x"
| "decode_struct fs JNull x = (x, Fine)"
| "decode_struct fs j x = (x, Saved)"

fun decode_entries ::
  "'a \<Rightarrow> 'a decoder \<Rightarrow> (string \<times> json) list \<Rightarrow> (string \<Rightarrow> 'a option) \<Rightarrow> (string \<Rightarrow> 'a option) \<times> outcome" where
  "decode_entries z d [] m = (m, Fine)"
| "decode_entries z d ((k, j) # ms) m =
     (case d j z of (x, e) \<Rightarrow>
        if e = Aborted then (m, Aborted)
        else case decode_entries z d ms (m(k \<mapsto> x)) of (m', e') \<Rightarrow> (m', worse e e'))"

text \<open>A map, with whether it is nil.\<close>

fun decode_map :: "'a \<Rightarrow> 'a decoder \<Rightarrow> ((string \<Rightarrow> 'a option) \<times> bool) decoder" where
  "decode_map z d (JObj ms) m = (case decode_entries z d ms (fst m) of (m', e) \<Rightarrow> ((m', False), e))"
| "decode_map z d JNull m = ((Map.empty, True), Fine)"
| "decode_map z d j m = (m, Saved)"

definition on :: "('s \<Rightarrow> 'a) \<Rightarrow> ('a \<Rightarrow> 's \<Rightarrow> 's) \<Rightarrow> 'a decoder \<Rightarrow> 's decoder" where
  "on get put d j s = (case d j (get s) of (x, e) \<Rightarrow> (put x s, e))"

section \<open>The types of \<open>input.go\<close>\<close>

text \<open>\<open>RegexpProxy.UnmarshalText\<close>, through a pointer to the proxy.\<close>

fun decode_re :: "regexp_pkg \<Rightarrow> regexp option decoder" where
  "decode_re rx (JStr s) x = (case compile rx s of Some r \<Rightarrow> (Some r, Fine) | None \<Rightarrow> (x, Aborted))"
| "decode_re rx JNull x = (None, Fine)"
| "decode_re rx j x = (x, Saved)"

text \<open>\<open>RegexpProxy.MarshalText\<close>: the text of the expression, from which \<open>UnmarshalText\<close> compiles it again.\<close>

definition MarshalText :: "regexp option \<Rightarrow> bytes" where
  "MarshalText r = (case r of Some e \<Rightarrow> reSource e | None \<Rightarrow> [])"

lemma MarshalText_read_back:
  "compile rx p = Some r \<Longrightarrow> reSource r = p \<Longrightarrow> decode_re rx (JStr (MarshalText (Some r))) x = (Some r, Fine)"
  by (simp add: MarshalText_def)

definition no_extract :: ExtractRegex where
  "no_extract = \<lparr>Re = None, GroupNo = 0, MatchNo = 0\<rparr>"

definition extract_fields :: "regexp_pkg \<Rightarrow> (string \<times> ExtractRegex decoder) list" where
  "extract_fields rx =
     [(''re'', on Re (\<lambda>v x. x\<lparr>Re := v\<rparr>) (decode_re rx)),
      (''groupNo'', on GroupNo (\<lambda>v x. x\<lparr>GroupNo := v\<rparr>) (decode_nat (2 ^ 64))),
      (''matchNo'', on MatchNo (\<lambda>v x. x\<lparr>MatchNo := v\<rparr>) decode_int)]"

definition no_assert :: AssertItem where
  "no_assert = \<lparr>AssertRe = None, Invert = False\<rparr>"

definition assert_fields :: "regexp_pkg \<Rightarrow> (string \<times> AssertItem decoder) list" where
  "assert_fields rx =
     [(''Re'', on AssertRe (\<lambda>v x. x\<lparr>AssertRe := v\<rparr>) (decode_re rx)),
      (''Invert'', on Invert (\<lambda>v x. x\<lparr>Invert := v\<rparr>) decode_bool)]"

text \<open>
  A \<open>[]byte\<close> in a string is base64 (\<open>base64.StdEncoding\<close>: line ends are skipped, padding is
  required, bits that are left over are not checked).  What a payload given in the metadata
  leaves behind its slice is not kept: the payload is overwritten when it is read.
\<close>

definition sextet :: "char \<Rightarrow> nat option" where
  "sextet c =
     (if between 65 90 c then Some (code c - 65)
      else if between 97 122 c then Some (code c - 71)
      else if ascii_digit c then Some (code c + 4)
      else if c = CHR ''+'' then Some 62
      else if c = CHR ''/'' then Some 63
      else None)"

definition quantum :: "nat \<Rightarrow> nat \<Rightarrow> nat \<Rightarrow> nat \<Rightarrow> bytes" where
  "quantum a b c d = (let n = ((a * 64 + b) * 64 + c) * 64 + d in map byte [n div 65536, n div 256 mod 256, n mod 256])"

fun base64 :: "bytes \<Rightarrow> bytes option" where
  "base64 [] = Some []"
| "base64 (a # b # c # d # s) =
     (case (sextet a, sextet b, sextet c, sextet d) of
        (Some w, Some x, Some y, Some z) \<Rightarrow> map_option ((@) (quantum w x y z)) (base64 s)
      | (Some w, Some x, Some y, None) \<Rightarrow>
          if d = CHR ''='' \<and> s = [] then Some (take 2 (quantum w x y 0)) else None
      | (Some w, Some x, None, None) \<Rightarrow>
          if c = CHR ''='' \<and> d = CHR ''='' \<and> s = [] then Some (take 1 (quantum w x 0 0)) else None
      | _ \<Rightarrow> None)"
| "base64 _ = None"

fun decode_bytes :: "bytes decoder" where
  "decode_bytes (JStr s) x =
     (case base64 (filter (\<lambda>c. c \<noteq> LF \<and> c \<noteq> CR) s) of Some b \<Rightarrow> (b, Fine) | None \<Rightarrow> (x, Saved))"
| "decode_bytes j x = map_prod fst id (decode_slice decode_u8 (CHR 0x00) j (x, []))"

text \<open>The item with what lies behind its slices.\<close>

record target =
  item_of :: PayloadItem
  spareReplacesIdx :: "u16 list"
  spareReplaces :: "string list"
  spareRegexOutIdx :: "u16 list"
  spareAssertsIdx :: "u16 list"
  spareAsserts :: "AssertItem list"

definition on_item :: "(PayloadItem \<Rightarrow> 'a) \<Rightarrow> ('a \<Rightarrow> PayloadItem \<Rightarrow> PayloadItem) \<Rightarrow> 'a decoder \<Rightarrow> target decoder" where
  "on_item get put = on (\<lambda>t. get (item_of t)) (\<lambda>v t. t\<lparr>item_of := put v (item_of t)\<rparr>)"

definition payload_fields :: "regexp_pkg \<Rightarrow> (string \<times> target decoder) list" where
  "payload_fields rx =
     [(''l'', on_item LabelIdx (\<lambda>v i. i\<lparr>LabelIdx := v\<rparr>) decode_u16),
      (''label'', on_item Label (\<lambda>v i. i\<lparr>Label := v\<rparr>) decode_string),
      (''a'', on_item AddressIdx (\<lambda>v i. i\<lparr>AddressIdx := v\<rparr>) decode_u16),
      (''address'', on_item Address (\<lambda>v i. i\<lparr>Address := v\<rparr>) decode_string),
      (''plen'', on_item PayloadLen (\<lambda>v i. i\<lparr>PayloadLen := v\<rparr>) decode_int),
      (''Payload'', on_item Payload (\<lambda>v i. i\<lparr>Payload := v\<rparr>) decode_bytes),
      (''r'', on (\<lambda>t. (ReplacesIdx (item_of t), spareReplacesIdx t))
         (\<lambda>(v, w) t. t\<lparr>item_of := (item_of t)\<lparr>ReplacesIdx := v\<rparr>, spareReplacesIdx := w\<rparr>) (decode_slice decode_u16 0)),
      (''replaces'', on (\<lambda>t. (Replaces (item_of t), spareReplaces t))
         (\<lambda>(v, w) t. t\<lparr>item_of := (item_of t)\<lparr>Replaces := v\<rparr>, spareReplaces := w\<rparr>) (decode_slice decode_string [])),
      (''e'', on (\<lambda>t. (RegexOutIdx (item_of t), spareRegexOutIdx t))
         (\<lambda>(v, w) t. t\<lparr>item_of := (item_of t)\<lparr>RegexOutIdx := v\<rparr>, spareRegexOutIdx := w\<rparr>) (decode_slice decode_u16 0)),
      (''extracts'', on_item (\<lambda>i. (RegexOut i, RegexOutNil i)) (\<lambda>(v, w) i. i\<lparr>RegexOut := v, RegexOutNil := w\<rparr>)
         (decode_map no_extract (decode_pointer no_extract (decode_struct (extract_fields rx))))),
      (''c'', on (\<lambda>t. (AssertsIdx (item_of t), spareAssertsIdx t))
         (\<lambda>(v, w) t. t\<lparr>item_of := (item_of t)\<lparr>AssertsIdx := v\<rparr>, spareAssertsIdx := w\<rparr>) (decode_slice decode_u16 0)),
      (''asserts'', on (\<lambda>t. (Asserts (item_of t), spareAsserts t))
         (\<lambda>(v, w) t. t\<lparr>item_of := (item_of t)\<lparr>Asserts := v\<rparr>, spareAsserts := w\<rparr>)
         (decode_slice (decode_pointer no_assert (decode_struct (assert_fields rx))) no_assert))]"

text \<open>
  A text that is no JSON leaves the item as it was.  The result is the item and whether there was
  no error.
\<close>

definition Unmarshal :: "regexp_pkg \<Rightarrow> bytes \<Rightarrow> PayloadItem \<Rightarrow> PayloadItem \<times> bool" where
  "Unmarshal rx s i =
     (case parse_json s of
        None \<Rightarrow> (i, False)
      | Some j \<Rightarrow>
          (case decode_struct (payload_fields rx) j \<lparr>item_of = i, spareReplacesIdx = [], spareReplaces = [],
              spareRegexOutIdx = [], spareAssertsIdx = [], spareAsserts = []\<rparr> of
             (t, e) \<Rightarrow> (item_of t, e = Fine)))"

section \<open>The text of an item is UTF-8\<close>

text \<open>A decoder that keeps a property of the values it is given.\<close>

definition keeps :: "('a \<Rightarrow> bool) \<Rightarrow> 'a decoder \<Rightarrow> bool" where
  "keeps P d = (\<forall>j x. json_utf8 j \<longrightarrow> P x \<longrightarrow> P (fst (d j x)))"

lemma keepsD: "keeps P d \<Longrightarrow> json_utf8 j \<Longrightarrow> P x \<Longrightarrow> P (fst (d j x))"
  by (simp add: keeps_def)

lemma keeps_string: "keeps is_utf8 decode_string"
proof -
  have "json_utf8 j \<Longrightarrow> is_utf8 x \<Longrightarrow> is_utf8 (fst (decode_string j x))" for j x
    by (cases "(j, x)" rule: decode_string.cases) simp_all
  then show ?thesis by (simp add: keeps_def)
qed

lemma keeps_elems:
  assumes "keeps P d" "P z"
  shows "list_all json_utf8 js \<Longrightarrow> list_all P places \<Longrightarrow> decode_elems d z js places = (xs, rest, e)
    \<Longrightarrow> list_all P xs \<and> list_all P rest"
proof (induction js arbitrary: places xs e)
  case (Cons j js)
  let ?y = "case places of [] \<Rightarrow> z | y # _ \<Rightarrow> y"
  have "P ?y" "list_all P (tl places)" using Cons.prems(2) assms(2) by (cases places; simp)+
  moreover from this have "P (fst (d j ?y))" using keepsD [OF assms(1)] Cons.prems(1) by simp
  ultimately have "P ?y" "list_all P (tl places)" "P (fst (d j ?y))" by simp_all
  note j = this
  show ?case
  proof (cases "snd (d j ?y) = Aborted")
    case True
    then show ?thesis using Cons.prems(3) j by (auto split: prod.splits)
  next
    case False
    then obtain ys e' where "decode_elems d z js (tl places) = (ys, rest, e')" "xs = fst (d j ?y) # ys"
      using Cons.prems(3) by (auto split: prod.splits)
    then show ?thesis using Cons.IH Cons.prems(1) j by simp
  qed
qed auto

lemma keeps_slice:
  assumes "keeps P d" "P z"
  shows "keeps (\<lambda>(xs, ys). list_all P xs \<and> list_all P ys) (decode_slice d z)"
proof -
  have el: "list_all P (fst (decode_elems d z js ps)) \<and> list_all P (fst (snd (decode_elems d z js ps)))"
    if "list_all json_utf8 js" "list_all P ps" for js ps
    using keeps_elems [OF assms that] by (cases "decode_elems d z js ps") simp
  have "list_all P (fst (fst (decode_slice d z j s))) \<and> list_all P (snd (fst (decode_slice d z j s)))"
    if "json_utf8 j" "list_all P (fst s)" "list_all P (snd s)" for j s
    using that el
    by (cases "(d, z, j, s)" rule: decode_slice.cases) (simp_all add: split_def del: decode_elems.simps)
  then show ?thesis by (auto simp: keeps_def split_def)
qed

definition names_utf8 :: "(string \<Rightarrow> 'b option) \<Rightarrow> bool" where
  "names_utf8 m = (\<forall>k. m k \<noteq> None \<longrightarrow> is_utf8 k)"

lemma names_utf8_upd: "names_utf8 m \<Longrightarrow> is_utf8 k \<Longrightarrow> names_utf8 (m(k \<mapsto> x))"
  by (simp add: names_utf8_def)

lemma keeps_entries:
  "list_all (\<lambda>(k, j). is_utf8 k) ms \<Longrightarrow> names_utf8 m \<Longrightarrow> names_utf8 (fst (decode_entries z d ms m))"
proof (induction ms arbitrary: m)
  case (Cons kj ms)
  then show ?case by (cases kj) (simp add: split_def names_utf8_upd)
qed simp

lemma keeps_map: "keeps (\<lambda>(m, nil). names_utf8 m) (decode_map z d)"
proof -
  have "names_utf8 (fst (fst (decode_map z d j s)))" if "json_utf8 j" "names_utf8 (fst s)" for j s
  proof (cases j)
    case (JObj ms)
    have "list_all (\<lambda>(k, j). is_utf8 k) ms" using that(1) by (auto simp: JObj list_all_iff)
    from keeps_entries [OF this that(2)] show ?thesis by (simp add: JObj split_def)
  qed (use that in \<open>simp_all add: names_utf8_def\<close>)
  then show ?thesis by (auto simp: keeps_def split_def)
qed

lemma keeps_members:
  assumes "\<forall>(k, d) \<in> set fs. keeps P d"
  shows "json_utf8 (JObj ms) \<Longrightarrow> P x \<Longrightarrow> P (fst (decode_members fs ms x))"
proof (induction ms arbitrary: x)
  case (Cons kj ms)
  obtain k j where kj: "kj = (k, j)" by (cases kj)
  have "field_for gs k = Some d \<Longrightarrow> \<exists>n. (n, d) \<in> set gs" for gs :: "(string \<times> 'a decoder) list" and d
    by (induction gs k rule: field_for.induct) (auto split: if_splits)
  then have "P (fst (case field_for fs k of None \<Rightarrow> (x, Fine) | Some d \<Rightarrow> d j x))"
    using assms keepsD Cons.prems by (fastforce simp: kj split: option.splits)
  with Cons show ?case by (auto simp: kj split_def)
qed simp

lemma keeps_on:
  assumes "keeps Q d" "\<And>s. P s \<Longrightarrow> Q (get s)" "\<And>s v. P s \<Longrightarrow> Q v \<Longrightarrow> P (put v s)"
  shows "keeps P (on get put d)"
  using assms by (auto simp: keeps_def on_def split_def)

definition item_utf8 :: "PayloadItem \<Rightarrow> bool" where
  "item_utf8 i = (is_utf8 (Label i) \<and> is_utf8 (Address i) \<and> list_all is_utf8 (Replaces i) \<and> names_utf8 (RegexOut i))"

definition target_utf8 :: "target \<Rightarrow> bool" where
  "target_utf8 t = (item_utf8 (item_of t) \<and> list_all is_utf8 (spareReplaces t))"

lemma keeps_anything: "keeps (\<lambda>_. True) d"
  by (simp add: keeps_def)

lemma is_utf8_Nil: "is_utf8 []"
  by (simp add: is_utf8_def)

lemma payload_fields_keep: "\<forall>(k, d) \<in> set (payload_fields rx). keeps target_utf8 d"
proof -
  have other: "keeps target_utf8 (on get put d)" if "\<And>t v. target_utf8 t \<Longrightarrow> target_utf8 (put v t)" for get put d
    by (rule keeps_on [OF keeps_anything]) (use that in auto)
  show ?thesis
    unfolding payload_fields_def on_item_def
    by (simp, intro conjI;
        (rule keeps_on [OF keeps_string] keeps_on [OF keeps_slice [OF keeps_string is_utf8_Nil]] keeps_on [OF keeps_map] other);
        auto simp: target_utf8_def item_utf8_def split: prod.splits)
qed



end
