(* ===== verification/Input_Reader.thy ===== *)
theory Input_Reader
  imports Payload_Json Workload_Conf
begin

text \<open>
  The reader of the payload file (\<open>pkg/core/input.go\<close>): one record is a line of JSON metadata
  and the payload it announces.  The file is its contents and a position.
\<close>

section \<open>State and environment\<close>

record reader =
  rcache :: cache
  rpos :: nat

record input_env =
  content :: bytes
  strings :: "StrIndex option"
  rx :: regexp_pkg
  IterationLimit :: int

definition buf_size :: nat where "buf_size = 4096"

section \<open>Reading a record\<close>

definition separator :: "char \<Rightarrow> bool" where
  "separator c = (c = LF \<or> c = CR)"

definition re_space :: "char \<Rightarrow> bool" where
  "re_space c = (c \<in> {CHR 0x09, LF, CHR 0x0C, CR, CHR '' ''})"

text \<open>
  \<open>pLenRe\<close>, the expression \<open>"plen":\s*(\d+)\<close>: the digits of the first match.
\<close>

definition plen_at :: "bytes \<Rightarrow> bytes option" where
  "plen_at s =
     (let key = CHR 0x22 # ''plen'' @ [CHR 0x22, CHR '':''];
          ds = takeWhile ascii_digit (dropWhile re_space (drop (length key) s))
      in if take (length key) s = key \<and> ds \<noteq> [] then Some ds else None)"

fun find_plen :: "bytes \<Rightarrow> bytes option" where
  "find_plen [] = None"
| "find_plen (c # s) = (case plen_at (c # s) of Some ds \<Rightarrow> Some ds | None \<Rightarrow> find_plen s)"

text \<open>
  \<open>readMeta\<close>: the metadata line, and how many of the bytes in the buffer come after it (they are
  given back by seeking).
\<close>

definition readMeta :: "bytes \<Rightarrow> (bytes \<times> nat) go" where
  "readMeta buf =
     (case cut LF buf of
        (meta, rest, found) \<Rightarrow>
          if found then Inr (meta, length rest)
          else Inl (PanicMsg ''Meta information line did not contain the newline''))"

text \<open>
  \<open>readPayload\<close> at a position: the payload, the new position and whether all of it was there.
  A negative length cannot be allocated.
\<close>

definition readPayload :: "bytes \<Rightarrow> nat \<Rightarrow> int \<Rightarrow> (bytes \<times> nat \<times> bool) go" where
  "readPayload file pos plen =
     (if plen < 0 then Inl (PanicMsg ''makeslice: len out of range'')
      else
        let got = take (nat plen) (drop pos file)
        in Inr (got @ replicate (nat plen - length got) (CHR 0x00), pos + length got, length got = nat plen))"

datatype read_result = ReadEOF | ReadError | ReadItem PayloadItem

definition decode_item :: "regexp_pkg \<Rightarrow> cache \<Rightarrow> PayloadItem \<Rightarrow> (cache \<times> read_result) go" where
  "decode_item rxp c item =
     go_bind (decodeReplaces item) (\<lambda>item.
     go_bind (decodeExtracts rxp (c, item)) (\<lambda>d.
       case d of
         Inl c \<Rightarrow> Inr (c, ReadError)
       | Inr (c, item) \<Rightarrow>
           go_bind (decodeAsserts rxp (c, item)) (\<lambda>d.
             Inr (case d of Inl c \<Rightarrow> (c, ReadError) | Inr (c, item) \<Rightarrow> (c, ReadItem item)))))"

text \<open>What follows the metadata line; \<open>pos\<close> is where its payload starts.\<close>

definition read_after_meta :: "input_env \<Rightarrow> reader \<Rightarrow> bytes \<Rightarrow> nat \<Rightarrow> (reader \<times> read_result) go" where
  "read_after_meta env r meta pos =
     (let (item, meta_ok) = Unmarshal (rx env) meta (new_item (strings env))
      in go_bind
          (if meta_ok then Inr (PayloadLen item)
           else case find_plen meta of
                  None \<Rightarrow> Inl IndexOutOfRange
                | Some ds \<Rightarrow> Inr (if snd (Atoi ds) then fst (Atoi ds) else PayloadLen item)) (\<lambda>plen.
        go_bind (readPayload (content env) pos plen) (\<lambda>(payload, pos', payload_ok).
          let item = item\<lparr>Payload := payload\<rparr>
          in if \<not> meta_ok then Inr (r\<lparr>rpos := pos'\<rparr>, ReadError)
             else if \<not> payload_ok
               then Inl (PanicMsg (if pos' = pos then ''EOF'' else ''unexpected EOF''))
             else go_bind (decode_item (rx env) (rcache r) item) (\<lambda>(c, res).
               Inr (\<lparr>rcache = c, rpos = pos'\<rparr>, res)))))"

definition readPayloadRecord :: "input_env \<Rightarrow> reader \<Rightarrow> (reader \<times> read_result) go" where
  "readPayloadRecord env r =
     (let buf = take buf_size (drop (rpos r) (content env));
          body = dropWhile separator buf;
          after_read = rpos r + length buf
      in if body = [] then Inr (r\<lparr>rpos := after_read\<rparr>, ReadEOF)
         else go_bind (readMeta body) (\<lambda>(meta, back).
           read_after_meta env r meta (after_read - back)))"

section \<open>The loop of \<open>NewInput\<close>\<close>

record input_loop =
  rd :: reader
  iterations :: int
  good :: int
  bad :: int

definition input_start :: input_loop where
  "input_start = \<lparr>rd = \<lparr>rcache = Map.empty, rpos = 0\<rparr>, iterations = 0, good = 0, bad = 0\<rparr>"

datatype input_turn = InputClose | InputPanic panic | InputSend PayloadItem input_loop | InputNext input_loop

definition too_many_bad :: "input_loop \<Rightarrow> bool" where
  "too_many_bad st = (f64_of_int (good st) / f64_of_int (good st + bad st) < f64_of_int 1 / f64_of_int 2)"

definition input_turn :: "input_env \<Rightarrow> input_loop \<Rightarrow> input_turn" where
  "input_turn env st =
     (case readPayloadRecord env (rd st) of
        Inl p \<Rightarrow> InputPanic p
      | Inr (r, ReadEOF) \<Rightarrow>
          let n = iterations st + 1
          in if 0 < IterationLimit env \<and> IterationLimit env \<le> n then InputClose
             else if too_many_bad st then InputPanic (PanicMsg ''Payload input file is problematic'')
             else InputNext (st\<lparr>rd := r\<lparr>rpos := 0\<rparr>, iterations := n\<rparr>)
      | Inr (r, ReadError) \<Rightarrow> InputNext (st\<lparr>rd := r, bad := bad st + 1\<rparr>)
      | Inr (r, ReadItem item) \<Rightarrow> InputSend item (st\<lparr>rd := r, good := good st + 1\<rparr>))"

datatype input_end = InputMore | InputClosed | InputPanicked panic

text \<open>What the first turns of the loop send.\<close>

fun input_run :: "input_env \<Rightarrow> nat \<Rightarrow> input_loop \<Rightarrow> PayloadItem list \<times> input_end" where
  "input_run env 0 st = ([], InputMore)"
| "input_run env (Suc n) st =
     (case input_turn env st of
        InputClose \<Rightarrow> ([], InputClosed)
      | InputPanic p \<Rightarrow> ([], InputPanicked p)
      | InputNext st' \<Rightarrow> input_run env n st'
      | InputSend item st' \<Rightarrow> (let (xs, e) = input_run env n st' in (item # xs, e)))"

section \<open>Files of well-formed records\<close>

text \<open>A record as it stands in the file: separators, a metadata line, the payload.\<close>

type_synonym file_record = "bytes \<times> bytes \<times> bytes"

definition render :: "file_record \<Rightarrow> bytes" where
  "render = (\<lambda>(sep, meta, payload). sep @ meta @ LF # payload)"

text \<open>
  What makes a record good, and the item it stands for: the line fits the buffer, the metadata
  decodes and announces the length of the payload, and the strings it names resolve.
\<close>

definition line_ok :: "file_record \<Rightarrow> bool" where
  "line_ok = (\<lambda>(sep, meta, payload). list_all separator sep \<and> meta \<noteq> [] \<and> \<not> separator (hd meta)
     \<and> LF \<notin> set meta \<and> length sep + length meta < buf_size)"

definition record_ok :: "input_env \<Rightarrow> file_record \<Rightarrow> PayloadItem \<Rightarrow> bool" where
  "record_ok env = (\<lambda>(sep, meta, payload) item.
     line_ok (sep, meta, payload)
     \<and> (let (it, ok) = Unmarshal (rx env) meta (new_item (strings env))
        in ok \<and> PayloadLen it = int (length payload)
           \<and> (\<forall>c. cache_sound (rx env) c \<longrightarrow>
                (\<exists>c'. cache_sound (rx env) c' \<and> decode_item (rx env) c (it\<lparr>Payload := payload\<rparr>)
                   = Inr (c', ReadItem item)))))"

lemma dropWhile_separators:
  "list_all separator sep \<Longrightarrow> m \<noteq> [] \<Longrightarrow> \<not> separator (hd m) \<Longrightarrow> dropWhile separator (sep @ m) = m"
  by (induction sep) (auto simp: neq_Nil_conv)

lemma read_buffer:
  assumes "length sep + length meta < buf_size"
  shows "\<exists>t. take buf_size (sep @ meta @ LF # rest) = sep @ meta @ LF # t"
proof -
  obtain k where k: "buf_size = Suc (length sep + length meta + k)"
    using less_imp_Suc_add [OF assms] by auto
  show ?thesis
    by (intro exI [of _ "take k rest"]) (simp add: k)
qed

lemma read_line:
  assumes "line_ok (sep, meta, payload)"
    and "content env = pre @ render (sep, meta, payload) @ post" "rpos r = length pre"
  shows "readPayloadRecord env r = read_after_meta env r meta (Suc (length pre + (length sep + length meta)))"
    and "readPayload (content env) (Suc (length pre + (length sep + length meta))) (int (length payload))
      = Inr (payload, length pre + length (render (sep, meta, payload)), True)"
proof -
  have meta: "list_all separator sep" "meta \<noteq> []" "\<not> separator (hd meta)" "LF \<notin> set meta"
    "length sep + length meta < buf_size"
    using assms(1) by (simp_all add: line_ok_def)
  obtain t where buf: "take buf_size (drop (length pre) (content env)) = sep @ meta @ LF # t"
    using read_buffer [OF meta(5), of "payload @ post"] by (auto simp: assms(2) render_def)
  have body: "dropWhile separator (sep @ meta @ LF # t) = meta @ LF # t"
    using meta by (intro dropWhile_separators) auto
  show "readPayloadRecord env r = read_after_meta env r meta (Suc (length pre + (length sep + length meta)))"
    using meta(2,4) by (simp add: readPayloadRecord_def assms(3) buf body readMeta_def Let_def
        del: dropWhile_eq_Nil_conv)
  have "drop (Suc (length pre + (length sep + length meta))) (content env) = payload @ post"
    by (simp add: assms(2) render_def)
  then show "readPayload (content env) (Suc (length pre + (length sep + length meta))) (int (length payload))
      = Inr (payload, length pre + length (render (sep, meta, payload)), True)"
    by (simp add: readPayload_def render_def add.assoc)
qed

lemma read_good_record:
  assumes "record_ok env (sep, meta, payload) item"
    and "content env = pre @ render (sep, meta, payload) @ post" "rpos r = length pre"
    and "cache_sound (rx env) (rcache r)"
  shows "\<exists>c'. cache_sound (rx env) c' \<and> readPayloadRecord env r
    = Inr (\<lparr>rcache = c', rpos = length pre + length (render (sep, meta, payload))\<rparr>, ReadItem item)"
proof -
  obtain it where it: "Unmarshal (rx env) meta (new_item (strings env)) = (it, True)"
      "PayloadLen it = int (length payload)"
    using assms(1) by (auto simp: record_ok_def split: prod.splits)
  then obtain c' where c': "cache_sound (rx env) c'"
      "decode_item (rx env) (rcache r) (it\<lparr>Payload := payload\<rparr>) = Inr (c', ReadItem item)"
    using assms(1,4) by (auto simp: record_ok_def)
  have "line_ok (sep, meta, payload)" using assms(1) by (simp add: record_ok_def)
  from read_line [OF this assms(2,3)] show ?thesis
    using c' it by (intro exI [of _ c']) (simp add: read_after_meta_def)
qed

text \<open>The turns that read the rest of a file: each sends its item.\<close>

lemma input_run_records:
  assumes "list_all2 (record_ok env) recs items"
    and "content env = pre @ concat (map render recs) @ post" "rpos (rd st) = length pre"
    and "cache_sound (rx env) (rcache (rd st))"
  shows "\<exists>c'. cache_sound (rx env) c' \<and> (\<forall>n. input_run env (length recs + n) st
    = (let (xs, e) = input_run env n (st\<lparr>rd := \<lparr>rcache = c', rpos = length (pre @ concat (map render recs))\<rparr>,
          good := good st + int (length recs)\<rparr>) in (items @ xs, e)))"
  using assms
proof (induction arbitrary: pre st rule: list_all2_induct)
  case Nil
  have "st\<lparr>rd := \<lparr>rcache = rcache (rd st), rpos = length pre\<rparr>\<rparr> = st"
    using Nil.prems(2) by (cases st; cases "rd st") simp
  then show ?case
    using Nil.prems(3) by (intro exI [of _ "rcache (rd st)"]) simp
next
  case (Cons rec recs item items)
  obtain sep meta payload where rec: "rec = (sep, meta, payload)" by (cases rec)
  have "content env = pre @ render rec @ (concat (map render recs) @ post)"
    using Cons.prems(1) by simp
  from read_good_record [OF Cons.hyps(1) [unfolded rec] this [unfolded rec] Cons.prems(2,3)]
  obtain c where c: "cache_sound (rx env) c"
      "readPayloadRecord env (rd st)
        = Inr (\<lparr>rcache = c, rpos = length pre + length (render rec)\<rparr>, ReadItem item)"
    by (auto simp: rec)
  let ?st = "st\<lparr>rd := \<lparr>rcache = c, rpos = length (pre @ render rec)\<rparr>, good := good st + 1\<rparr>"
  have turn: "input_turn env st = InputSend item ?st"
    by (simp add: input_turn_def c)
  have "content env = (pre @ render rec) @ concat (map render recs) @ post"
    using Cons.prems(1) by simp
  from Cons.IH [OF this, of ?st] c(1) obtain c' where
    c': "cache_sound (rx env) c'" "\<forall>n. input_run env (length recs + n) ?st
      = (let (xs, e) = input_run env n (?st\<lparr>rd := \<lparr>rcache = c', rpos = length ((pre @ render rec)
            @ concat (map render recs))\<rparr>, good := good ?st + int (length recs)\<rparr>) in (items @ xs, e))"
    by auto
  show ?case
    using c' by (intro exI [of _ c']) (simp add: turn add.assoc split: prod.splits)
qed

text \<open>At the end of the file.\<close>

definition tail_ok :: "bytes \<Rightarrow> bool" where
  "tail_ok t = (list_all separator t \<and> length t < buf_size)"

lemma read_tail:
  assumes "content env = pre @ t" "tail_ok t" "rpos r = length pre"
  shows "readPayloadRecord env r = Inr (r\<lparr>rpos := length (content env)\<rparr>, ReadEOF)"
proof -
  have "take buf_size (drop (rpos r) (content env)) = t"
    using assms by (simp add: tail_ok_def)
  moreover have "dropWhile separator t = []"
    using assms(2) by (auto simp: tail_ok_def list_all_iff)
  ultimately show ?thesis
    using assms(1,3) by (simp add: readPayloadRecord_def Let_def)
qed

lemma good_only_ratio:
  assumes "0 < g" "g < 2 ^ 53"
  shows "\<not> (f64_of_int g / f64_of_int (g + 0) < f64_of_int 1 / f64_of_int 2)"
proof -
  from assms obtain m e where g: "f64_of_int g = FFin False m e" "0 < m"
      "fval (FFin False m e) = real_of_int g"
    using f64_of_int_nonneg [of g] by (metis less_imp_le)
  from f64_div_fval [OF g(1) g(1)] g(2,3) assms(1) obtain a b where
    ab: "f64_of_int g / f64_of_int g = fround False a b" "0 \<le> a" "0 < b" "real_of_int a / real_of_int b = 1"
    by (auto simp: g)
  have one: "(1::real) < 2 powi 1023" using power_int_strict_increasing [of 0 1023 "2::real"] by simp
  have "finite_f64 (fround False a b)"
    using ab one by (intro fround_finite) auto
  moreover from this have "fval (fround False a b) = 1"
    using fval_fround [OF ab(2,3), of False] rnd_exact [of 1 0] ab(4) by simp
  moreover have half: "f64_of_int 1 / f64_of_int 2 = FFin False (2 ^ 52) (-53)"
    by code_simp
  moreover have "fval (FFin False (2 ^ 52) (-53)) = 1 / 2"
    by (simp add: fval_def sg_def power_int_minus)
  ultimately show ?thesis
    using f64_cmp_fval(1) [of "fround False a b" "FFin False (2 ^ 52) (-53)"]
    by (simp add: ab(1) finite_f64_def)
qed

text \<open>One pass over the file, and what the turn at its end does.\<close>

lemma input_pass:
  assumes "list_all2 (record_ok env) recs items" "recs \<noteq> []"
    and "content env = concat (map render recs) @ t" "tail_ok t"
    and "rpos (rd st) = 0" "cache_sound (rx env) (rcache (rd st))"
    and "bad st = 0" "0 \<le> good st" "good st + int (length recs) < 2 ^ 53"
  shows "\<exists>c'. cache_sound (rx env) c' \<and> (\<forall>n. input_run env (length recs + Suc n) st
    = (if 0 < IterationLimit env \<and> IterationLimit env \<le> iterations st + 1 then (items, InputClosed)
       else let (xs, e) = input_run env n \<lparr>rd = \<lparr>rcache = c', rpos = 0\<rparr>, iterations = iterations st + 1,
              good = good st + int (length recs), bad = 0\<rparr> in (items @ xs, e)))"
proof -
  from input_run_records [OF assms(1), of "[]" t st] assms(3,5,6) obtain c' where
    c': "cache_sound (rx env) c'" "\<forall>n. input_run env (length recs + n) st
      = (let (xs, e) = input_run env n (st\<lparr>rd := \<lparr>rcache = c', rpos = length (concat (map render recs))\<rparr>,
          good := good st + int (length recs)\<rparr>) in (items @ xs, e))"
    by auto
  let ?st = "st\<lparr>rd := \<lparr>rcache = c', rpos = length (concat (map render recs))\<rparr>,
    good := good st + int (length recs)\<rparr>"
  have "0 < good st + int (length recs)" using assms(2,8) by (cases recs) auto
  from good_only_ratio [OF this assms(9)] assms(7)
  have ratio: "\<not> too_many_bad (?st\<lparr>iterations := k\<rparr>)" "\<not> too_many_bad ?st" for k
    by (simp_all add: too_many_bad_def)
  have read: "readPayloadRecord env (rd ?st) = Inr ((rd ?st)\<lparr>rpos := length (content env)\<rparr>, ReadEOF)"
    by (rule read_tail [OF assms(3,4)]) simp
  have turn: "input_turn env ?st
      = (if 0 < IterationLimit env \<and> IterationLimit env \<le> iterations st + 1 then InputClose
         else InputNext \<lparr>rd = \<lparr>rcache = c', rpos = 0\<rparr>, iterations = iterations st + 1,
              good = good st + int (length recs), bad = 0\<rparr>)"
    unfolding input_turn_def read using ratio assms(7) by (cases st) (simp add: Let_def)
  have "input_run env (length recs + Suc n) st
    = (if 0 < IterationLimit env \<and> IterationLimit env \<le> iterations st + 1 then (items, InputClosed)
       else let (xs, e) = input_run env n \<lparr>rd = \<lparr>rcache = c', rpos = 0\<rparr>, iterations = iterations st + 1,
              good = good st + int (length recs), bad = 0\<rparr> in (items @ xs, e))" for n
    unfolding c'(2) [rule_format, of "Suc n"] input_run.simps(2) turn by simp
  with c'(1) show ?thesis by blast
qed

lemma input_all_passes:
  assumes "list_all2 (record_ok env) recs items" "recs \<noteq> []"
    and "content env = concat (map render recs) @ t" "tail_ok t"
  shows "rpos (rd st) = 0 \<Longrightarrow> cache_sound (rx env) (rcache (rd st)) \<Longrightarrow> bad st = 0 \<Longrightarrow> 0 \<le> good st \<Longrightarrow>
      good st + int (k * length recs) < 2 ^ 53 \<Longrightarrow>
      (IterationLimit env \<le> 0 \<longrightarrow>
        input_run env (k * Suc (length recs)) st = (concat (replicate k items), InputMore))
      \<and> (0 < k \<and> iterations st + int k = IterationLimit env \<and> 0 < IterationLimit env \<and> k * Suc (length recs) \<le> n \<longrightarrow>
        input_run env n st = (concat (replicate k items), InputClosed))"
proof (induction k arbitrary: st n)
  case (Suc k)
  let ?l = "length recs"
  have "0 \<le> int k * int ?l" by simp
  then have "good st + int ?l < 2 ^ 53" using Suc.prems(5) by (simp only: mult_Suc of_nat_add of_nat_mult)
  from input_pass [OF assms Suc.prems(1-4) this] obtain c' where
    c': "cache_sound (rx env) c'" "\<forall>n. input_run env (?l + Suc n) st
      = (if 0 < IterationLimit env \<and> IterationLimit env \<le> iterations st + 1 then (items, InputClosed)
         else let (xs, e) = input_run env n \<lparr>rd = \<lparr>rcache = c', rpos = 0\<rparr>, iterations = iterations st + 1,
                good = good st + int ?l, bad = 0\<rparr> in (items @ xs, e))"
    by auto
  let ?st = "\<lparr>rd = \<lparr>rcache = c', rpos = 0\<rparr>, iterations = iterations st + 1, good = good st + int ?l, bad = 0\<rparr>"
  have st: "rpos (rd ?st) = 0" "cache_sound (rx env) (rcache (rd ?st))" "bad ?st = 0" "0 \<le> good ?st"
    "good ?st + int (k * ?l) < 2 ^ 53"
    using c'(1) Suc.prems(4,5) by simp_all
  have no_limit: "IterationLimit env \<le> 0 \<longrightarrow>
      input_run env (Suc k * Suc ?l) st = (concat (replicate (Suc k) items), InputMore)"
  proof
    assume lim: "IterationLimit env \<le> 0"
    have "Suc k * Suc ?l = ?l + Suc (k * Suc ?l)" by simp
    then have "input_run env (Suc k * Suc ?l) st
        = (let (xs, e) = input_run env (k * Suc ?l) ?st in (items @ xs, e))"
      using c'(2) lim by (simp only: simp_thms if_False not_less [symmetric])
    then show "input_run env (Suc k * Suc ?l) st = (concat (replicate (Suc k) items), InputMore)"
      using Suc.IH [OF st, of 0] lim by simp
  qed
  have limit: "input_run env n st = (concat (replicate (Suc k) items), InputClosed)"
    if it: "iterations st + int (Suc k) = IterationLimit env" "0 < IterationLimit env" "Suc k * Suc ?l \<le> n"
  proof -
    obtain n' where n: "n = ?l + Suc n'" "k * Suc ?l \<le> n'"
    proof
      show "n = ?l + Suc (n - Suc ?l)" "k * Suc ?l \<le> n - Suc ?l" using it(3) by simp_all
    qed
    show ?thesis
    proof (cases "k = 0")
      case True
      then show ?thesis using c'(2) it by (simp add: n(1) del: add_Suc_right)
    next
      case False
      then have "\<not> IterationLimit env \<le> iterations st + 1" using it(1) by simp
      then have "input_run env n st = (let (xs, e) = input_run env n' ?st in (items @ xs, e))"
        unfolding n(1) using c'(2) by simp
      also have "input_run env n' ?st = (concat (replicate k items), InputClosed)"
        using Suc.IH [OF st, of n'] False it(1,2) n(2) by simp
      finally show ?thesis by simp
    qed
  qed
  show ?case using no_limit limit by blast
qed simp

section \<open>Properties\<close>

text \<open>
  C31: a file of well-formed records is read as it was written: the channel yields its items in
  order, over and over; with an iteration limit it yields the file that many times and is
  closed, after as many turns as there are records and passes.
\<close>

theorem input_replays_file:
  assumes "list_all2 (record_ok env) recs items" "recs \<noteq> []"
    and "content env = concat (map render recs) @ t" "tail_ok t"
    and "0 < k" "int (k * length recs) < 2 ^ 53" "k * Suc (length recs) \<le> n"
  shows "(IterationLimit env \<le> 0 \<longrightarrow>
       input_run env (k * Suc (length recs)) input_start = (concat (replicate k items), InputMore))
    \<and> (IterationLimit env = int k \<longrightarrow>
       input_run env n input_start = (concat (replicate k items), InputClosed))"
  using input_all_passes [OF assms(1-4), of input_start k n] assms(5-7)
  by (auto simp: input_start_def cache_sound_def)

definition example_env :: "bytes \<Rightarrow> int \<Rightarrow> input_env" where
  "example_env file limit =
     \<lparr>content = file, strings = None, rx = literal_pkg [], IterationLimit = limit\<rparr>"

definition example_meta :: "string \<Rightarrow> bytes" where
  "example_meta l = json_object [(''plen'', ''5''), (''label'', json_string l)]"

definition label_item :: "string \<Rightarrow> bytes \<Rightarrow> PayloadItem" where
  "label_item l p = (new_item None)\<lparr>PayloadLen := 5, Label := l, Payload := p\<rparr>"

lemma Unmarshal_example:
  "Unmarshal rxp (example_meta l) (new_item None) = (label_item (utf8_text l) [], True)"
proof -
  have "reads (example_meta l) (JObj [(''plen'', JNum ''5''), (''label'', JStr (utf8_text l))])"
    unfolding example_meta_def
  proof (rule reads_json_object)
    have "itoa 5 = ''5''" "utf8_text ''plen'' = ''plen''" "utf8_text ''label'' = ''label''" by code_simp+
    then show "list_all2 (\<lambda>(k, v) (k', j). k' = utf8_text k \<and> reads v j)
        [(''plen'', ''5''), (''label'', json_string l)] [(''plen'', JNum ''5''), (''label'', JStr (utf8_text l))]"
      using reads_itoa [of 5] reads_json_string by simp
  qed
  moreover have "Atoi ''5'' = (5, True)" by code_simp
  ultimately show ?thesis
    by (simp add: Unmarshal_def parse_reads payload_fields_def on_item_def on_def label_item_def new_item_def
        lower_def between_def code_def)
qed

lemma decode_plain_item: "decode_item rxp c (label_item l p) = Inr (c, ReadItem (label_item l p))"
  by (simp add: decode_item_def decodeReplaces_def decodeExtracts_def decodeAsserts_def label_item_def new_item_def)

definition example_file :: bytes where
  "example_file = example_meta ''a'' @ LF # ''first'' @ LF # example_meta ''b'' @ LF # ''other'' @ [CR, LF]"

theorem input_replays_file_witness:
  "input_run (example_env example_file 2) 6 input_start
    = ([label_item ''a'' ''first'', label_item ''b'' ''other'',
        label_item ''a'' ''first'', label_item ''b'' ''other''], InputClosed)"
proof -
  let ?env = "example_env example_file 2"
  let ?recs = "[([], example_meta ''a'', ''first''), ([LF], example_meta ''b'', ''other'')]"
  let ?items = "[label_item ''a'' ''first'', label_item ''b'' ''other'']"
  have "(label_item m [])\<lparr>Payload := q\<rparr> = label_item m q" "PayloadLen (label_item m []) = 5" for m q
    by (simp_all add: label_item_def new_item_def)
  moreover have "line_ok ([], example_meta ''a'', ''first'')" "line_ok ([LF], example_meta ''b'', ''other'')"
    "utf8_text ''a'' = ''a''" "utf8_text ''b'' = ''b''"
    by code_simp+
  moreover have "strings ?env = None" by (simp add: example_env_def)
  ultimately have "list_all2 (record_ok ?env) ?recs ?items"
    using decode_plain_item Unmarshal_example by (auto simp: record_ok_def)
  from input_replays_file [OF this, where k = 2 and n = 6 and t = "[CR, LF]"] show ?thesis
    by (simp add: render_def tail_ok_def buf_size_def separator_def)
      (simp add: example_env_def example_file_def numeral_2_eq_2)
qed

text \<open>
  An empty input file (or one with nothing but line ends) is not refused: the share of
  good records is 0 / 0, which is not below one half, so the reader rewinds the file for ever,
  and sends nothing.
\<close>

theorem empty_input_spins:
  assumes "tail_ok (content env)" "IterationLimit env \<le> 0"
  shows "input_run env n input_start = ([], InputMore)"
proof -
  have "\<not> too_many_bad \<lparr>rd = r, iterations = i, good = 0, bad = 0\<rparr>" for r i
    by (simp add: too_many_bad_def f64_of_int_def fround_def fzero_def f64_ops)
  moreover have "readPayloadRecord env \<lparr>rcache = c, rpos = 0\<rparr>
      = Inr (\<lparr>rcache = c, rpos = length (content env)\<rparr>, ReadEOF)" for c
    using read_tail [of env "[]" "content env" "\<lparr>rcache = c, rpos = 0\<rparr>"] assms(1) by simp
  ultimately have "input_run env n \<lparr>rd = \<lparr>rcache = Map.empty, rpos = 0\<rparr>, iterations = i, good = 0, bad = 0\<rparr>
      = ([], InputMore)" for i
    using assms(2) by (induction n arbitrary: i) (simp_all add: input_turn_def Let_def)
  then show ?thesis by (simp add: input_start_def)
qed

theorem empty_input_spins_witness:
  "input_run (example_env '''' 0) 1000 input_start = ([], InputMore)"
  by (rule empty_input_spins) (simp_all add: example_env_def tail_ok_def buf_size_def)

definition broken_meta :: bytes where
  "broken_meta = CHR ''x'' # CHR 0x22 # ''plen'' @ CHR 0x22 # '': 2''"

text \<open>
  C36: a record whose metadata does not decode is skipped cleanly when its length can be found
  in the line: the reader reports an error and stands exactly behind the payload, so the
  records after it are read.
\<close>

theorem broken_record_skipped:
  assumes "line_ok (sep, meta, payload)" "Unmarshal (rx env) meta (new_item (strings env)) = (it, False)"
    and "find_plen meta = Some ds" "Atoi ds = (int (length payload), True)"
    and "content env = pre @ render (sep, meta, payload) @ post" "rpos r = length pre"
  shows "readPayloadRecord env r
    = Inr (r\<lparr>rpos := length pre + length (render (sep, meta, payload))\<rparr>, ReadError)"
  using read_line [OF assms(1,5,6)] assms(2-4) by (simp add: read_after_meta_def)

lemma Unmarshal_syntax: "parse_json m = None \<Longrightarrow> Unmarshal rxp m i = (i, False)"
  by (simp add: Unmarshal_def)

theorem broken_record_skipped_witness:
  "readPayloadRecord (example_env (CR # LF # broken_meta @ LF # ''12{a}'') 1) \<lparr>rcache = Map.empty, rpos = 0\<rparr>
    = Inr (\<lparr>rcache = Map.empty, rpos = 15\<rparr>, ReadError)"
proof -
  have "line_ok ([CR, LF], broken_meta, ''12'')" "find_plen broken_meta = Some ''2''"
      "Atoi ''2'' = (int (length ''12''), True)" "parse_json broken_meta = None"
    by code_simp+
  from broken_record_skipped [OF this(1) Unmarshal_syntax [OF this(4)] this(2,3), where pre = "[]" and post = "''{a}''"
      and env = "example_env (CR # LF # broken_meta @ LF # ''12{a}'') 1"
      and r = "\<lparr>rcache = Map.empty, rpos = 0\<rparr>"]
  show ?thesis by (simp add: render_def) (simp add: broken_meta_def example_env_def)
qed

text \<open>
  A record whose metadata does not decode and has no ``plen'' is not skipped: the reader
  indexes the groups of a match that is not there, and the process ends.
\<close>

theorem metadata_without_plen_panics:
  assumes "line_ok (sep, meta, payload)" "Unmarshal (rx env) meta (new_item (strings env)) = (it, False)"
    and "find_plen meta = None"
    and "content env = pre @ render (sep, meta, payload) @ post" "rpos r = length pre"
  shows "readPayloadRecord env r = Inl IndexOutOfRange"
  using read_line [OF assms(1,4,5)] assms(2,3) by (simp add: read_after_meta_def)

theorem metadata_without_plen_panics_witness:
  "readPayloadRecord (example_env (''GET /'' @ LF # ''rest'') 1) \<lparr>rcache = Map.empty, rpos = 0\<rparr> = Inl IndexOutOfRange"
proof (rule metadata_without_plen_panics)
  show "line_ok ([], ''GET /'', ''rest'')" by code_simp
  show "find_plen ''GET /'' = None" by code_simp
  show "Unmarshal rxp ''GET /'' i = (i, False)" for rxp i
    by (rule Unmarshal_syntax) code_simp
qed (simp_all add: example_env_def render_def)

end
