(* ===== verification/Taurus_Generator.thy ===== *)
theory Taurus_Generator
  imports Input_Reader
begin

text \<open>
  The other end of the input: the module of \<open>taurus/encarno/__init__.py\<close> that writes the payload file
  and the strings file, and the proof that the reader gets back the requests it was given.  The
  Python strings are lists of code points; \<open>json.dumps\<close> is the one of Python's library with its
  defaults.
\<close>

section \<open>\<open>json.dumps\<close>\<close>

type_synonym pystr = "nat list"

definition utf8 :: "pystr \<Rightarrow> string" where
  "utf8 s = concat (map encode_rune s)"

text \<open>A literal of the source.\<close>

definition str :: "string \<Rightarrow> pystr" where
  "str s = map code s"

datatype pyval = PyBool bool | PyInt int | PyStr pystr | PyList "pyval list" | PyDict "(pystr \<times> pyval) list"

definition hex_digits :: "nat \<Rightarrow> bytes" where
  "hex_digits n = [hex_digit (n div 4096), hex_digit (n div 256 mod 16), hex_digit (n div 16 mod 16), hex_digit (n mod 16)]"

definition unicode :: "nat \<Rightarrow> bytes" where
  "unicode n = Backslash # CHR ''u'' # hex_digits n"

definition py_escape :: "nat \<Rightarrow> bytes" where
  "py_escape n =
     (if n = 34 \<or> n = 92 then [Backslash, byte n]
      else if n = 8 then [Backslash, CHR ''b'']
      else if n = 9 then [Backslash, CHR ''t'']
      else if n = 10 then [Backslash, CHR ''n'']
      else if n = 12 then [Backslash, CHR ''f'']
      else if n = 13 then [Backslash, CHR ''r'']
      else if 32 \<le> n \<and> n < 127 then [byte n]
      else if n < 0x10000 then unicode n
      else unicode (0xD800 + (n - 0x10000) div 1024) @ unicode (0xDC00 + (n - 0x10000) mod 1024))"

definition py_string :: "pystr \<Rightarrow> bytes" where
  "py_string s = Quote # concat (map py_escape s) @ [Quote]"

fun dumps :: "pyval \<Rightarrow> bytes" where
  "dumps (PyBool b) = (if b then ''true'' else ''false'')"
| "dumps (PyInt n) = itoa n"
| "dumps (PyStr s) = py_string s"
| "dumps (PyList vs) = CHR ''['' # sep_by '', '' (map dumps vs) @ '']''"
| "dumps (PyDict ms) = CHR ''{'' # sep_by '', '' (map (\<lambda>(k, v). py_string k @ '': '' @ dumps v) ms) @ ''}''"

text \<open>What a value is in JSON.\<close>

fun py_json :: "pyval \<Rightarrow> json" where
  "py_json (PyBool b) = JBool b"
| "py_json (PyInt n) = JNum (itoa n)"
| "py_json (PyStr s) = JStr (utf8 s)"
| "py_json (PyList vs) = JArr (map py_json vs)"
| "py_json (PyDict ms) = JObj (map (\<lambda>(k, v). (utf8 k, py_json v)) ms)"

text \<open>Text that has a UTF-8 encoding: no lone surrogates.\<close>

definition scalars :: "pystr \<Rightarrow> bool" where
  "scalars = list_all (\<lambda>n. n < 0x110000 \<and> \<not> surrogate n)"

fun py_text :: "pyval \<Rightarrow> bool" where
  "py_text (PyStr s) = scalars s"
| "py_text (PyList vs) = list_all py_text vs"
| "py_text (PyDict ms) = list_all (\<lambda>(k, v). scalars k \<and> py_text v) ms"
| "py_text v = True"

lemma hex4_digits: "n < 0x10000 \<Longrightarrow> hex4 (hex_digits n @ x) = Some n"
proof -
  assume n: "n < 0x10000"
  have "n div 4096 = n div 16 div 16 div 16" "n div 256 = n div 16 div 16" by (simp_all add: div_mult2_eq [symmetric])
  then have "((n div 4096 * 16 + n div 256 mod 16) * 16 + n div 16 mod 16) * 16 + n mod 16 = n"
    by (metis div_mult_mod_eq)
  then show ?thesis using n by (simp add: hex_digits_def hex_value_digit)
qed

lemma lex_unicode:
  "n < 0x10000 \<Longrightarrow> \<not> surrogate n \<Longrightarrow> lex_string (unicode n @ x) = emit (encode_rune n) (lex_string x)"
  using lex_escaped [OF hex4_digits] by (simp add: unicode_def hex_digits_def)

lemma lex_pair:
  assumes "h < 1024" "l < 1024"
  shows "lex_string (unicode (0xD800 + h) @ unicode (0xDC00 + l) @ x)
    = emit (encode_rune (0x10000 + h * 1024 + l)) (lex_string x)"
proof -
  have "low_half (unicode (0xDC00 + l) @ x) = Some (0xDC00 + l)"
    using assms by (simp add: low_half_def unicode_def hex4_digits)
  then have "unicode_escape (hex_digits (0xD800 + h) @ unicode (0xDC00 + l) @ x)
      = Some (encode_rune (0x10000 + h * 1024 + l), 10)"
    using assms by (simp add: unicode_escape_def hex4_digits) (simp add: hex_digits_def)
  then show ?thesis
    by (subst unicode_def) (simp add: lex_string.simps(2), simp add: hex_digits_def unicode_def)
qed

lemma control_consts:
  "char_of (8::nat) = CHR 0x08" "char_of (9::nat) = CHR 0x09" "char_of (10::nat) = LF"
  "char_of (12::nat) = CHR 0x0C" "char_of (13::nat) = CR"
  by (simp_all add: char_of_eq_iff)

lemma lex_py_escape:
  assumes "n < 0x110000" "\<not> surrogate n"
  shows "lex_string (py_escape n @ x) = emit (encode_rune n) (lex_string x)"
proof -
  let ?named = "n = 34 \<or> n = 92 \<or> n = 8 \<or> n = 9 \<or> n = 10 \<or> n = 12 \<or> n = 13"
  consider "?named" | "32 \<le> n" "n < 127" "\<not> ?named" | "n < 0x10000" "\<not> ?named" "\<not> (32 \<le> n \<and> n < 127)"
    | "0x10000 \<le> n"
    by (cases "?named"; cases "32 \<le> n \<and> n < 127"; cases "n < 0x10000") auto
  then show ?thesis
  proof cases
    case 1
    then show ?thesis
      by (elim disjE; simp add: py_escape_def lex_string.simps(2) simple_escape_def encode_rune_def byte_def
          char_of_eq_iff control_consts)
  next
    case 2
    have n: "code (byte n) = n" using 2 by (simp add: byte_def code_char_of)
    then have "byte n \<noteq> Quote" "byte n \<noteq> Backslash" using 2 by (auto simp: code_def)
    with 2 n show ?thesis by (simp add: py_escape_def lex_string.simps(2) encode_rune_def)
  next
    case 3
    then have "py_escape n = unicode n" by (auto simp: py_escape_def)
    then show ?thesis using 3 lex_unicode assms(2) by simp
  next
    case 4
    let ?m = "n - 0x10000"
    have "0x10000 + ?m div 1024 * 1024 + ?m mod 1024 = n" using 4 by (simp add: div_mult_mod_eq)
    with 4 assms(1) lex_pair [of "?m div 1024" "?m mod 1024" x] show ?thesis by (simp add: py_escape_def)
  qed
qed

lemma lex_py_string:
  "scalars s \<Longrightarrow> lex_string (concat (map py_escape s) @ Quote # rest) = Some (utf8 s, rest)"
  by (induction s) (simp_all add: scalars_def utf8_def lex_py_escape emit_def lex_string.simps(2))

lemma reads_py_string: "scalars s \<Longrightarrow> reads (py_string s) (JStr (utf8 s))"
  unfolding py_string_def by (rule reads_quoted) (rule lex_py_string)

lemma reads_dumps: "py_text v \<Longrightarrow> reads (dumps v) (py_json v)"
proof (induction v)
  case (PyList vs)
  then have "list_all2 reads (map dumps vs) (map py_json vs)"
    by (auto simp: list_all2_conv_all_nth list_all_length)
  from reads_array [OF this, of "'' ''"] show ?case by (simp add: json_space_def)
next
  case (PyDict ms)
  have mem: "scalars k \<and> reads (dumps v) (py_json v)" if "(k, v) \<in> set ms" for k v
    using PyDict that by (auto simp: list_all_iff)
  have "list_all2 (\<lambda>(k, v) (k', j). reads k (JStr k') \<and> reads v j)
      (map (\<lambda>(k, v). (py_string k, dumps v)) ms) (map (\<lambda>(k, v). (utf8 k, py_json v)) ms)"
    using mem by (auto simp: list.rel_map reads_py_string intro!: list.rel_refl_strong)
  from reads_object [OF this, of "'' ''" "'' ''"] show ?case
    by (simp add: json_space_def comp_def split_def)
qed (simp_all add: reads_words reads_itoa reads_py_string)

section \<open>The files\<close>

text \<open>
  A request as \<open>_build_request\<close>, \<open>_get_consumers\<close>, \<open>_get_extractors\<close> and \<open>_get_asserts\<close> leave it: an
  extractor is a name, the number of the match, the number of the group and an expression, an
  assertion is whether it is inverted and an expression.
\<close>

record py_request =
  host :: pystr
  req_label :: pystr
  tcp_payload :: pystr
  consumes :: "pystr list"
  ext_tpls :: "(pystr \<times> int \<times> int \<times> pystr) list"
  asserts :: "(bool \<times> pystr) list"

definition unless_empty :: "'a list \<Rightarrow> string \<Rightarrow> pyval \<Rightarrow> (pystr \<times> pyval) list" where
  "unless_empty xs key v = (if xs = [] then [] else [(str key, v)])"

definition plen :: "py_request \<Rightarrow> pystr \<times> pyval" where
  "plen r = (str ''plen'', PyInt (int (length (utf8 (tcp_payload r)))))"

definition metadata_strings :: "py_request \<Rightarrow> pyval" where
  "metadata_strings r = PyDict
     ([plen r, (str ''address'', PyStr (host r)), (str ''label'', PyStr (req_label r))]
      @ unless_empty (consumes r) ''replaces'' (PyList (map PyStr (consumes r)))
      @ unless_empty (ext_tpls r) ''extracts''
          (PyDict (map (\<lambda>(name, m, g, re). (name, PyDict [(str ''matchNo'', PyInt m), (str ''groupNo'', PyInt g),
             (str ''re'', PyStr re)])) (ext_tpls r)))
      @ unless_empty (asserts r) ''asserts''
          (PyList (map (\<lambda>(invert, re). PyDict ((str ''re'', PyStr re)
             # (if invert then [(str ''invert'', PyBool True)] else []))) (asserts r))))"

text \<open>\<open>str_list\<close>: a string that is not there is appended; its number is its first place.\<close>

definition add_string :: "pystr \<Rightarrow> pystr list \<Rightarrow> pystr list" where
  "add_string x l = (if x \<in> set l then l else l @ [x])"

fun index_of :: "'a \<Rightarrow> 'a list \<Rightarrow> nat" where
  "index_of x [] = 0"
| "index_of x (y # ys) = (if x = y then 0 else Suc (index_of x ys))"

fun number_each :: "pystr list \<Rightarrow> pystr list \<Rightarrow> nat list \<times> pystr list" where
  "number_each l [] = ([], l)"
| "number_each l (x # xs) =
     (case number_each (add_string x l) xs of (ns, l') \<Rightarrow> (index_of x (add_string x l) # ns, l'))"

definition py_extract_line :: "pystr \<times> int \<times> int \<times> pystr \<Rightarrow> pystr" where
  "py_extract_line = (\<lambda>(name, m, g, re). name @ str '' '' @ str (itoa m) @ str '' '' @ str (itoa g) @ str '' '' @ re)"

definition py_assert_line :: "bool \<times> pystr \<Rightarrow> pystr" where
  "py_assert_line = (\<lambda>(invert, re). str (if invert then ''1'' else ''0'') @ str '' '' @ re)"

definition numbers :: "nat list \<Rightarrow> pyval" where
  "numbers ns = PyList (map (PyInt \<circ> int) ns)"

definition metadata_indexed :: "py_request \<Rightarrow> pystr list \<Rightarrow> pyval \<times> pystr list" where
  "metadata_indexed r l =
     (let l2 = add_string (req_label r) (add_string (host r) l);
          l3 = fold add_string (consumes r) l2;
          (es, l4) = number_each l3 (map py_extract_line (ext_tpls r));
          (cs, l5) = number_each l4 (map py_assert_line (asserts r))
      in (PyDict
            ([plen r, (str ''a'', PyInt (int (index_of (host r) l2))), (str ''l'', PyInt (int (index_of (req_label r) l2)))]
             @ unless_empty (consumes r) ''r'' (numbers (map (\<lambda>x. index_of x l3) (consumes r)))
             @ unless_empty (ext_tpls r) ''e'' (numbers es)
             @ unless_empty (asserts r) ''c'' (numbers cs)), l5))"

fun number_requests :: "pystr list \<Rightarrow> py_request list \<Rightarrow> pyval list \<times> pystr list" where
  "number_requests l [] = ([], l)"
| "number_requests l (r # rs) =
     (case metadata_indexed r l of (m, l') \<Rightarrow>
      case number_requests l' rs of (ms, l'') \<Rightarrow> (m # ms, l''))"

text \<open>The payload file, and the strings file without the empty string that has number 0.\<close>

definition payload_file :: "(pyval \<times> py_request) list \<Rightarrow> bytes" where
  "payload_file = concat \<circ> map (\<lambda>(m, r). dumps m @ [CR, LF] @ utf8 (tcp_payload r) @ [CR, LF])"

definition strings_file :: "pystr list \<Rightarrow> bytes" where
  "strings_file l = unlines (map utf8 (tl l))"

section \<open>Decoding what was written\<close>

definition ext_spec :: "pystr \<times> int \<times> int \<times> pystr \<Rightarrow> string \<times> int \<times> int \<times> string" where
  "ext_spec = (\<lambda>(name, m, g, re). (utf8 name, m, g, utf8 re))"

definition assert_spec :: "bool \<times> pystr \<Rightarrow> bool \<times> string" where
  "assert_spec = (\<lambda>(invert, re). (invert, utf8 re))"

text \<open>The item that a request means.\<close>

definition extract_map :: "regexp_pkg \<Rightarrow> py_request \<Rightarrow> string \<Rightarrow> ExtractRegex option" where
  "extract_map rxp r = foldl (\<lambda>f sp. f(fst sp \<mapsto> spec_extract rxp sp)) Map.empty (map ext_spec (ext_tpls r))"

definition request_item :: "regexp_pkg \<Rightarrow> StrIndex option \<Rightarrow> py_request \<Rightarrow> PayloadItem" where
  "request_item rxp si r = (new_item si)
     \<lparr>Label := utf8 (req_label r), Address := utf8 (host r), PayloadLen := int (length (utf8 (tcp_payload r))),
      Payload := utf8 (tcp_payload r), Replaces := map utf8 (consumes r), RegexOut := extract_map rxp r,
      Asserts := map (spec_assert rxp \<circ> assert_spec) (asserts r)\<rparr>"

definition request_ok :: "regexp_pkg \<Rightarrow> py_request \<Rightarrow> bool" where
  "request_ok rxp r =
     (scalars (host r) \<and> scalars (req_label r) \<and> scalars (tcp_payload r) \<and> list_all scalars (consumes r)
      \<and> length (utf8 (tcp_payload r)) < 2 ^ 63
      \<and> list_all (\<lambda>(name, m, g, re). scalars name \<and> 32 \<notin> set name \<and> fits64 m \<and> 0 \<le> g \<and> g < 2 ^ 63
           \<and> scalars re \<and> compile rxp (utf8 re) \<noteq> None) (ext_tpls r)
      \<and> list_all (\<lambda>(invert, re). scalars re \<and> compile rxp (utf8 re) \<noteq> None) (asserts r))"

lemma utf8_str: "list_all (\<lambda>c. code c < 128) s \<Longrightarrow> utf8 (str s) = s"
  by (induction s) (simp_all add: utf8_def str_def encode_rune_def byte_def code_def)

lemma keys [simp]:
  "utf8 (str ''plen'') = ''plen''" "utf8 (str ''address'') = ''address''" "utf8 (str ''label'') = ''label''"
  "utf8 (str ''replaces'') = ''replaces''" "utf8 (str ''extracts'') = ''extracts''"
  "utf8 (str ''asserts'') = ''asserts''" "utf8 (str ''matchNo'') = ''matchNo''"
  "utf8 (str ''groupNo'') = ''groupNo''" "utf8 (str ''re'') = ''re''" "utf8 (str ''invert'') = ''invert''"
  "utf8 (str ''a'') = ''a''" "utf8 (str ''l'') = ''l''" "utf8 (str ''r'') = ''r''" "utf8 (str ''e'') = ''e''"
  "utf8 (str ''c'') = ''c''"
  by (rule utf8_str, simp add: code_def)+

lemma str_scalars: "scalars (str s)"
proof -
  have "code c < 0x110000 \<and> \<not> surrogate (code c)" for c
    using code_less [of c] by (simp add: surrogate_def)
  then show ?thesis by (simp add: scalars_def str_def list_all_iff)
qed

lemma worse_Fine [simp]: "worse e Fine = e"
  by (cases e) simp_all

lemma decode_nat_itoa: "n < bound \<Longrightarrow> decode_nat bound (JNum (itoa (int n))) x = (n, Fine)"
  by (simp add: itoa_def digits_ascii)

lemma decode_int_itoa: "fits64 n \<Longrightarrow> decode_int (JNum (itoa n)) x = (n, Fine)"
  by (simp add: Atoi_itoa)

lemma decode_u16_itoa: "n < 65536 \<Longrightarrow> decode_u16 (JNum (itoa (int n))) x = (of_nat n, Fine)"
  by (simp only: decode_u16_def decode_nat_itoa map_prod_simp id_apply)

lemma decode_elems_fresh:
  assumes "\<And>x. x \<in> set xs \<Longrightarrow> d (f x) z = (g x, Fine)"
  shows "decode_elems d z (map f xs) [] = (map g xs, [], Fine)"
  using assms by (induction xs) simp_all

lemma decode_slice_fresh:
  assumes "\<And>x. x \<in> set xs \<Longrightarrow> d (f x) z = (g x, Fine)"
  shows "decode_slice d z (JArr (map f xs)) ([], []) = ((map g xs, []), Fine)"
  using decode_elems_fresh [of xs d f z g, OF assms] by (cases xs) simp_all

lemma decode_entries_fresh:
  assumes "\<And>x. x \<in> set xs \<Longrightarrow> d (f x) z = (g x, Fine)"
  shows "decode_entries z d (map (\<lambda>x. (k x, f x)) xs) m = (foldl (\<lambda>m x. m(k x \<mapsto> g x)) m xs, Fine)"
  using assms by (induction xs arbitrary: m) simp_all

lemma lower_consts: "lower c = (if 65 \<le> code c \<and> code c \<le> 90 then code c + 32 else code c)"
  by (simp add: lower_def between_def)

lemma decode_extract:
  assumes "fits64 m" "0 \<le> g" "g < 2 ^ 63" "compile rxp re = Some p"
  shows "decode_pointer no_extract (decode_struct (extract_fields rxp))
      (JObj [(''matchNo'', JNum (itoa m)), (''groupNo'', JNum (itoa g)), (''re'', JStr re)]) no_extract
    = (spec_extract rxp (name, m, g, re), Fine)"
proof -
  have "decode_nat (2 ^ 64) (JNum (itoa g)) 0 = (nat g, Fine)"
    using decode_nat_itoa [of "nat g" "2 ^ 64"] assms(2,3) by (simp add: nat_less_iff)
  then show ?thesis
    using decode_int_itoa [OF assms(1)] assms(4)
    by (simp add: decode_pointer_def extract_fields_def no_extract_def on_def lower_consts code_def spec_extract_def
        del: decode_nat.simps decode_int.simps)
qed

lemma decode_assert:
  assumes "compile rxp re = Some p"
  shows "decode_pointer no_assert (decode_struct (assert_fields rxp))
      (JObj ((''re'', JStr re) # (if v then [(''invert'', JBool True)] else []))) no_assert
    = (spec_assert rxp (v, re), Fine)"
  using assms
  by (simp add: decode_pointer_def assert_fields_def no_assert_def on_def lower_consts code_def spec_assert_def)

text \<open>The line ends with a carriage return, which is a space for the decoder.\<close>

lemma Unmarshal_dumps:
  assumes "py_text m" "decode_struct (payload_fields rxp) (py_json m) \<lparr>item_of = i, spareReplacesIdx = [],
      spareReplaces = [], spareRegexOutIdx = [], spareAssertsIdx = [], spareAsserts = []\<rparr> = (t, Fine)"
  shows "Unmarshal rxp (dumps m @ [CR]) i = (item_of t, True)"
proof -
  have "tokenize (dumps m @ [CR]) = map_option ((@) (toks (py_json m))) (tokenize [CR])"
    using reads_dumps [OF assms(1)] by (simp add: reads_def lexes_def)
  then have "parse_json (dumps m @ [CR]) = Some (py_json m)"
    using run_toks [of "[]" "py_json m" "[]"] by (simp add: parse_json_def tokenize.simps(2) json_space_def)
  then show ?thesis using assms(2) by (simp add: Unmarshal_def)
qed

lemma unless_empty_json:
  "map (\<lambda>(k, v). (utf8 k, py_json v)) (unless_empty xs key v) = (if xs = [] then [] else [(utf8 (str key), py_json v)])"
  by (simp add: unless_empty_def)

lemma decode_asserts_list:
  assumes "list_all (\<lambda>(invert, re). scalars re \<and> compile rxp (utf8 re) \<noteq> None) as"
  shows "decode_slice (decode_pointer no_assert (decode_struct (assert_fields rxp))) no_assert
      (py_json (PyList (map (\<lambda>(invert, re). PyDict ((str ''re'', PyStr re)
             # (if invert then [(str ''invert'', PyBool True)] else []))) as))) ([], [])
    = ((map (spec_assert rxp \<circ> assert_spec) as, []), Fine)"
proof -
  have "decode_slice (decode_pointer no_assert (decode_struct (assert_fields rxp))) no_assert
      (JArr (map (\<lambda>(invert, re). JObj ((''re'', JStr (utf8 re)) # (if invert then [(''invert'', JBool True)] else []))) as))
      ([], []) = ((map (spec_assert rxp \<circ> assert_spec) as, []), Fine)"
  proof (rule decode_slice_fresh)
    fix x assume "x \<in> set as"
    then obtain p where "compile rxp (utf8 (snd x)) = Some p" using assms by (cases x) (auto simp: list_all_iff)
    from decode_assert [OF this, of "fst x"]
    show "decode_pointer no_assert (decode_struct (assert_fields rxp)) (case x of (invert, re) \<Rightarrow>
        JObj ((''re'', JStr (utf8 re)) # (if invert then [(''invert'', JBool True)] else []))) no_assert
      = ((spec_assert rxp \<circ> assert_spec) x, Fine)"
      by (cases x) (simp only: fst_conv snd_conv prod.case o_apply assert_spec_def)
  qed
  moreover have "py_json (PyList (map (\<lambda>(invert, re). PyDict ((str ''re'', PyStr re)
             # (if invert then [(str ''invert'', PyBool True)] else []))) as))
      = JArr (map (\<lambda>(invert, re). JObj ((''re'', JStr (utf8 re)) # (if invert then [(''invert'', JBool True)] else []))) as)"
    by auto
  ultimately show ?thesis by (simp only:)
qed

lemma decode_extracts_map:
  assumes "list_all (\<lambda>(name, m, g, re). scalars name \<and> 32 \<notin> set name \<and> fits64 m \<and> 0 \<le> g \<and> g < 2 ^ 63
           \<and> scalars re \<and> compile rxp (utf8 re) \<noteq> None) es"
  shows "decode_map no_extract (decode_pointer no_extract (decode_struct (extract_fields rxp)))
      (py_json (PyDict (map (\<lambda>(name, m, g, re). (name, PyDict [(str ''matchNo'', PyInt m), (str ''groupNo'', PyInt g),
             (str ''re'', PyStr re)])) es))) (Map.empty, False)
    = ((foldl (\<lambda>f sp. f(fst sp \<mapsto> spec_extract rxp sp)) Map.empty (map ext_spec es), False), Fine)"
proof -
  let ?j = "\<lambda>(name, m, g, re). JObj [(''matchNo'', JNum (itoa m)), (''groupNo'', JNum (itoa g)), (''re'', JStr (utf8 re))]"
  have "decode_entries no_extract (decode_pointer no_extract (decode_struct (extract_fields rxp)))
      (map (\<lambda>x. (fst (ext_spec x), ?j x)) es) Map.empty
    = (foldl (\<lambda>f x. f(fst (ext_spec x) \<mapsto> spec_extract rxp (ext_spec x))) Map.empty es, Fine)"
  proof (rule decode_entries_fresh)
    fix x assume x: "x \<in> set es"
    obtain name m g re where e: "x = (name, m, g, re)" by (cases x)
    obtain p where "fits64 m" "0 \<le> g" "g < 2 ^ 63" "compile rxp (utf8 re) = Some p"
      using assms x by (fastforce simp: list_all_iff e)
    from decode_extract [OF this, of "utf8 name"]
    show "decode_pointer no_extract (decode_struct (extract_fields rxp)) (?j x) no_extract
      = (spec_extract rxp (ext_spec x), Fine)"
      by (simp only: e ext_spec_def prod.case)
  qed
  note dec = this
  have "py_json (PyDict (map (\<lambda>(name, m, g, re). (name, PyDict [(str ''matchNo'', PyInt m), (str ''groupNo'', PyInt g),
             (str ''re'', PyStr re)])) es)) = JObj (map (\<lambda>x. (fst (ext_spec x), ?j x)) es)"
    by (auto simp: ext_spec_def)
  then show ?thesis
    by (simp only: decode_map.simps fst_conv dec prod.case) (simp add: foldl_map)
qed

lemma request_okD:
  assumes "request_ok rxp r"
  shows "scalars (host r)" "scalars (req_label r)" "list_all scalars (consumes r)"
    "fits64 (int (length (utf8 (tcp_payload r))))"
    "list_all (\<lambda>(name, m, g, re). scalars name \<and> 32 \<notin> set name \<and> fits64 m \<and> 0 \<le> g \<and> g < 2 ^ 63
           \<and> scalars re \<and> compile rxp (utf8 re) \<noteq> None) (ext_tpls r)"
    "list_all (\<lambda>(invert, re). scalars re \<and> compile rxp (utf8 re) \<noteq> None) (asserts r)"
  using assms by (simp_all add: request_ok_def fits64_def)

lemma py_text_strings:
  assumes "request_ok rxp r"
  shows "py_text (metadata_strings r)"
  using request_okD [OF assms]
  by (auto simp: metadata_strings_def unless_empty_def plen_def str_scalars list_all_iff)

text \<open>What each member does to the item.\<close>

abbreviation fresh_target :: "PayloadItem \<Rightarrow> target" where
  "fresh_target i \<equiv> \<lparr>item_of = i, spareReplacesIdx = [], spareReplaces = [], spareRegexOutIdx = [],
     spareAssertsIdx = [], spareAsserts = []\<rparr>"

abbreviation members :: "regexp_pkg \<Rightarrow> (string \<times> json) list \<Rightarrow> target \<Rightarrow> target \<times> outcome" where
  "members rxp \<equiv> decode_members (payload_fields rxp)"

lemma fine_member:
  "field_for fs k = Some d \<Longrightarrow> d j t = (u, Fine) \<Longrightarrow> decode_members fs ((k, j) # ms) t = decode_members fs ms u"
  by (simp split: prod.splits)

lemmas field_defs = payload_fields_def lower_consts code_def

lemma members_scalar:
  "fits64 n \<Longrightarrow> members rxp ((''plen'', JNum (itoa n)) # ms) (fresh_target i)
    = members rxp ms (fresh_target (i\<lparr>PayloadLen := n\<rparr>))"
  "members rxp ((''address'', JStr s) # ms) (fresh_target i) = members rxp ms (fresh_target (i\<lparr>Address := s\<rparr>))"
  "members rxp ((''label'', JStr s) # ms) (fresh_target i) = members rxp ms (fresh_target (i\<lparr>Label := s\<rparr>))"
  "m < 65536 \<Longrightarrow> members rxp ((''a'', JNum (itoa (int m))) # ms) (fresh_target i)
    = members rxp ms (fresh_target (i\<lparr>AddressIdx := of_nat m\<rparr>))"
  "m < 65536 \<Longrightarrow> members rxp ((''l'', JNum (itoa (int m))) # ms) (fresh_target i)
    = members rxp ms (fresh_target (i\<lparr>LabelIdx := of_nat m\<rparr>))"
  by (rule fine_member, simp add: field_defs,
      simp add: on_item_def on_def decode_int_itoa decode_u16_itoa del: decode_int.simps)+

lemma members_slice:
  "Replaces i = [] \<Longrightarrow> decode_slice decode_string [] j ([], []) = ((xs, []), Fine) \<Longrightarrow>
    members rxp ((''replaces'', j) # ms) (fresh_target i) = members rxp ms (fresh_target (i\<lparr>Replaces := xs\<rparr>))"
  "ReplacesIdx i = [] \<Longrightarrow> decode_slice decode_u16 0 j ([], []) = ((ns, []), Fine) \<Longrightarrow>
    members rxp ((''r'', j) # ms) (fresh_target i) = members rxp ms (fresh_target (i\<lparr>ReplacesIdx := ns\<rparr>))"
  "RegexOutIdx i = [] \<Longrightarrow> decode_slice decode_u16 0 j ([], []) = ((ns, []), Fine) \<Longrightarrow>
    members rxp ((''e'', j) # ms) (fresh_target i) = members rxp ms (fresh_target (i\<lparr>RegexOutIdx := ns\<rparr>))"
  "AssertsIdx i = [] \<Longrightarrow> decode_slice decode_u16 0 j ([], []) = ((ns, []), Fine) \<Longrightarrow>
    members rxp ((''c'', j) # ms) (fresh_target i) = members rxp ms (fresh_target (i\<lparr>AssertsIdx := ns\<rparr>))"
  "Asserts i = [] \<Longrightarrow>
    decode_slice (decode_pointer no_assert (decode_struct (assert_fields rxp))) no_assert j ([], []) = ((as, []), Fine) \<Longrightarrow>
    members rxp ((''asserts'', j) # ms) (fresh_target i) = members rxp ms (fresh_target (i\<lparr>Asserts := as\<rparr>))"
  "RegexOut i = Map.empty \<Longrightarrow> \<not> RegexOutNil i \<Longrightarrow>
    decode_map no_extract (decode_pointer no_extract (decode_struct (extract_fields rxp))) j (Map.empty, False)
      = ((em, False), Fine) \<Longrightarrow>
    members rxp ((''extracts'', j) # ms) (fresh_target i)
      = members rxp ms (fresh_target (i\<lparr>RegexOut := em, RegexOutNil := False\<rparr>))"
  by (rule fine_member, simp add: field_defs, simp add: on_item_def on_def)+

lemma decode_strings_list:
  "decode_slice decode_string [] (py_json (PyList (map PyStr xs))) ([], []) = ((map utf8 xs, []), Fine)"
  unfolding py_json.simps map_map by (rule decode_slice_fresh) simp

lemma decode_numbers:
  assumes "\<forall>n \<in> set ns. n < 65536"
  shows "decode_slice decode_u16 0 (py_json (numbers ns)) ([], []) = ((map of_nat ns, []), Fine)"
  unfolding numbers_def py_json.simps map_map
  by (rule decode_slice_fresh) (use assms in \<open>simp add: decode_u16_itoa\<close>)

lemma decode_dict:
  "decode_struct fs (py_json (PyDict ms)) t = decode_members fs (map (\<lambda>(k, v). (utf8 k, py_json v)) ms) t"
  by simp

lemma Unmarshal_strings:
  assumes "request_ok rxp r"
  shows "Unmarshal rxp (dumps (metadata_strings r) @ [CR]) (new_item si) = ((request_item rxp si r)\<lparr>Payload := []\<rparr>, True)"
proof -
  note ok = request_okD [OF assms]
  have "decode_struct (payload_fields rxp) (py_json (metadata_strings r)) (fresh_target (new_item si))
    = (fresh_target ((request_item rxp si r)\<lparr>Payload := []\<rparr>), Fine)"
    unfolding metadata_strings_def plen_def decode_dict map_append unless_empty_json
    by (simp add: members_scalar ok(4) members_slice(1) [OF _ decode_strings_list] new_item_def
        members_slice(5) [OF _ decode_asserts_list [OF ok(6)]]
        members_slice(6) [OF _ _ decode_extracts_map [OF ok(5)]] request_item_def extract_map_def
        del: decode_members.simps(2) decode_slice.simps decode_map.simps py_json.simps(4,5))
  from Unmarshal_dumps [OF py_text_strings [OF assms] this] show ?thesis by simp
qed

section \<open>Numbered strings\<close>

definition stands :: "'a list \<Rightarrow> nat \<Rightarrow> 'a \<Rightarrow> bool" where
  "stands l n x = (n < length l \<and> l ! n = x)"

lemma stands_prefix: "stands l n x \<Longrightarrow> prefix l l' \<Longrightarrow> stands l' n x"
  by (auto simp: stands_def prefix_def nth_append)

lemma stands_index_of: "x \<in> set l \<Longrightarrow> stands l (index_of x l) x"
  by (induction l) (auto simp: stands_def)

lemma add_string_ok: "prefix l (add_string x l)" "x \<in> set (add_string x l)"
  by (simp_all add: add_string_def)

lemma fold_add_string: "prefix l (fold add_string xs l)" "set xs \<subseteq> set (fold add_string xs l)"
proof (induction xs arbitrary: l)
  case (Cons x xs)
  case 1
  show ?case using Cons(1) [of "add_string x l"] add_string_ok(1) [of l x] by auto
  case 2
  have "x \<in> set (fold add_string xs (add_string x l))"
    using Cons(1) [of "add_string x l"] add_string_ok(2) [of x l] set_mono_prefix by blast
  then show ?case using Cons(2) [of "add_string x l"] by simp
qed simp_all

lemma number_each_ok:
  "number_each l xs = (ns, l') \<Longrightarrow> prefix l l' \<and> list_all2 (stands l') ns xs"
proof (induction xs arbitrary: l ns)
  case (Cons x xs)
  obtain ms where ms: "number_each (add_string x l) xs = (ms, l')" "ns = index_of x (add_string x l) # ms"
    using Cons.prems by (auto split: prod.splits)
  have "stands (add_string x l) (index_of x (add_string x l)) x"
    by (rule stands_index_of [OF add_string_ok(2)])
  with Cons.IH [OF ms(1)] show ?case
    using add_string_ok(1) [of l x] by (auto simp: ms(2) intro: stands_prefix)
qed simp

text \<open>What the metadata of a request is with its numbers, and what they stand for.\<close>

definition indexed :: "py_request \<Rightarrow> nat \<Rightarrow> nat \<Rightarrow> nat list \<Rightarrow> nat list \<Rightarrow> nat list \<Rightarrow> pyval" where
  "indexed r a n rs es cs = PyDict
     ([plen r, (str ''a'', PyInt (int a)), (str ''l'', PyInt (int n))]
      @ unless_empty (consumes r) ''r'' (numbers rs) @ unless_empty (ext_tpls r) ''e'' (numbers es)
      @ unless_empty (asserts r) ''c'' (numbers cs))"

definition numbers_ok :: "pystr list \<Rightarrow> py_request \<Rightarrow> nat \<Rightarrow> nat \<Rightarrow> nat list \<Rightarrow> nat list \<Rightarrow> nat list \<Rightarrow> bool" where
  "numbers_ok l r a n rs es cs =
     (stands l a (host r) \<and> stands l n (req_label r) \<and> list_all2 (stands l) rs (consumes r)
      \<and> list_all2 (stands l) es (map py_extract_line (ext_tpls r))
      \<and> list_all2 (stands l) cs (map py_assert_line (asserts r)))"

lemma numbers_ok_prefix: "numbers_ok l r a n rs es cs \<Longrightarrow> prefix l l' \<Longrightarrow> numbers_ok l' r a n rs es cs"
  using stands_prefix [of l _ _ l'] by (auto simp: numbers_ok_def intro: list_all2_mono)

lemma metadata_indexed_ok:
  assumes "metadata_indexed r l = (m, l')"
  shows "prefix l l' \<and> (\<exists>a n rs es cs. m = indexed r a n rs es cs \<and> numbers_ok l' r a n rs es cs)"
proof -
  let ?l1 = "add_string (host r) l"
  let ?l2 = "add_string (req_label r) ?l1"
  let ?l3 = "fold add_string (consumes r) ?l2"
  obtain es l4 where es: "number_each ?l3 (map py_extract_line (ext_tpls r)) = (es, l4)" by fastforce
  obtain cs where cs: "number_each l4 (map py_assert_line (asserts r)) = (cs, l')"
    "m = indexed r (index_of (host r) ?l2) (index_of (req_label r) ?l2) (map (\<lambda>x. index_of x ?l3) (consumes r)) es cs"
    using assms es by (auto simp: metadata_indexed_def Let_def indexed_def split: prod.splits)
  have p: "prefix l ?l1" "prefix ?l1 ?l2" "prefix ?l2 ?l3" "prefix ?l3 l4" "prefix l4 l'"
    using add_string_ok(1) fold_add_string(1) number_each_ok [OF es] number_each_ok [OF cs(1)] by auto
  have "stands ?l2 (index_of (host r) ?l2) (host r)"
    using add_string_ok(2) [of "host r" l] set_mono_prefix [OF p(2)] by (intro stands_index_of) auto
  moreover have "stands ?l2 (index_of (req_label r) ?l2) (req_label r)"
    by (rule stands_index_of [OF add_string_ok(2)])
  moreover have "list_all2 (stands ?l3) (map (\<lambda>x. index_of x ?l3) (consumes r)) (consumes r)"
    unfolding list.rel_map
    by (intro list.rel_refl_strong stands_index_of subsetD [OF fold_add_string(2)])
  moreover have "prefix ?l2 l'" "prefix ?l3 l'" using p by auto
  ultimately have "numbers_ok l' r (index_of (host r) ?l2) (index_of (req_label r) ?l2)
      (map (\<lambda>x. index_of x ?l3) (consumes r)) es cs"
    using number_each_ok [OF es] number_each_ok [OF cs(1)] stands_prefix p(5)
    unfolding numbers_ok_def by (meson list_all2_mono)
  moreover have "prefix l l'" using p by auto
  ultimately show ?thesis using cs(2) by blast
qed

section \<open>Reading the files\<close>

definition indexed_item :: "StrIndex option \<Rightarrow> py_request \<Rightarrow> nat \<Rightarrow> nat \<Rightarrow> nat list \<Rightarrow> nat list \<Rightarrow> nat list \<Rightarrow> PayloadItem" where
  "indexed_item si r a n rs es cs = (new_item si)
     \<lparr>LabelIdx := of_nat n, AddressIdx := of_nat a, PayloadLen := int (length (utf8 (tcp_payload r))),
      ReplacesIdx := map of_nat rs, RegexOutIdx := map of_nat es, AssertsIdx := map of_nat cs\<rparr>"

lemma numbers_okD:
  assumes "numbers_ok l r a n rs es cs" "length l \<le> 65536"
  shows "a < 65536" "n < 65536" "\<forall>k \<in> set rs. k < 65536" "\<forall>k \<in> set es. k < 65536" "\<forall>k \<in> set cs. k < 65536"
    "rs = [] \<longleftrightarrow> consumes r = []" "es = [] \<longleftrightarrow> ext_tpls r = []" "cs = [] \<longleftrightarrow> asserts r = []"
proof -
  have small: "\<forall>k \<in> set ks. k < 65536" if "list_all2 (stands l) ks xs" for ks xs
    using that by (induction rule: list_all2_induct) (use assms(2) in \<open>auto simp: stands_def\<close>)
  have "rs = [] \<longleftrightarrow> xs = []" if "list_all2 (stands l) rs xs" for rs xs
    using that by auto
  with small show "a < 65536" "n < 65536" "\<forall>k \<in> set rs. k < 65536" "\<forall>k \<in> set es. k < 65536" "\<forall>k \<in> set cs. k < 65536"
    "rs = [] \<longleftrightarrow> consumes r = []" "es = [] \<longleftrightarrow> ext_tpls r = []" "cs = [] \<longleftrightarrow> asserts r = []"
    using assms by (auto simp: numbers_ok_def stands_def)
qed

lemma Unmarshal_indexed:
  assumes "request_ok rxp r" "numbers_ok l r a n rs es cs" "length l \<le> 65536"
  shows "Unmarshal rxp (dumps (indexed r a n rs es cs) @ [CR]) (new_item si) = (indexed_item si r a n rs es cs, True)"
proof -
  note small = numbers_okD [OF assms(2,3)]
  have "decode_struct (payload_fields rxp) (py_json (indexed r a n rs es cs)) (fresh_target (new_item si))
    = (fresh_target (indexed_item si r a n rs es cs), Fine)"
    unfolding indexed_def plen_def decode_dict map_append unless_empty_json
    using small(6-8)
    by (simp add: members_scalar request_okD(4) [OF assms(1)] small(1,2) new_item_def indexed_item_def
        members_slice(2) [OF _ decode_numbers [OF small(3)]] members_slice(3) [OF _ decode_numbers [OF small(4)]]
        members_slice(4) [OF _ decode_numbers [OF small(5)]]
        del: decode_members.simps(2) decode_slice.simps decode_map.simps py_json.simps(4,5))
  moreover have "py_text (indexed r a n rs es cs)"
    by (simp add: indexed_def plen_def unless_empty_def numbers_def str_scalars list_all_iff)
  ultimately show ?thesis by (simp add: Unmarshal_dumps)
qed

lemma utf8_append: "utf8 (s @ t) = utf8 s @ utf8 t"
  by (simp add: utf8_def)

lemma utf8_itoa: "utf8 (str (itoa n)) = itoa n"
proof (rule utf8_str)
  have "list_all (\<lambda>c. code c < 128) (digits k)" for k
    using digits_ascii [of k] by (auto simp: list_all_iff ascii_digit_def)
  then show "list_all (\<lambda>c. code c < 128) (itoa n)" by (simp add: itoa_def code_def)
qed

lemma utf8_extract_line:
  "utf8 (py_extract_line (name, m, g, re)) = extract_line (utf8 name) m g (utf8 re)"
  using utf8_str [of "'' ''"] by (simp add: py_extract_line_def extract_line_def utf8_append utf8_itoa code_def)

lemma utf8_assert_line: "utf8 (py_assert_line (v, re)) = assert_line v (utf8 re)"
  using utf8_str [of "'' ''"] utf8_str [of "''1''"] utf8_str [of "''0''"]
  by (simp add: py_assert_line_def assert_line_def utf8_append code_def)

lemma space_in_rune: "n < 0x110000 \<Longrightarrow> CHR '' '' \<in> set (encode_rune n) \<Longrightarrow> n = 32"
proof -
  assume n: "n < 0x110000" "CHR '' '' \<in> set (encode_rune n)"
  have sp: "CHR '' '' = byte k \<Longrightarrow> k = 32" if "k < 256" for k
  proof -
    assume "CHR '' '' = byte k"
    then have "code (CHR '' '') = k" using that by (simp add: byte_def code_char_of)
    then show "k = 32" by (simp add: code_def)
  qed
  have "n div 64 mod 64 < 64" "n mod 64 < 64" "n div 4096 mod 64 < 64" "n < 0x800 \<Longrightarrow> n div 64 < 32"
    "n < 0x10000 \<Longrightarrow> n div 4096 < 16" "n div 262144 < 5"
    using n(1) by auto
  then show ?thesis
    using n(2) by (auto simp: encode_rune_def replacement_def split: if_splits dest!: sp [rotated])
qed

lemma space_in_utf8: "scalars s \<Longrightarrow> 32 \<notin> set s \<Longrightarrow> CHR '' '' \<notin> set (utf8 s)"
  using space_in_rune by (force simp: utf8_def scalars_def list_all_iff)

text \<open>The table the strings file is loaded into.\<close>

lemma load_strings_file:
  assumes "files d f = Some (strings_file l)" "f \<noteq> ''''" "can_read d f" "\<forall>x \<in> set l. line_safe (utf8 x)"
    and "NewStringIndex d f True = Inr T" "prefix [[]] l"
  shows "index T = map utf8 l"
proof -
  obtain k where l: "l = [] # k" using assms(6) by (auto simp: prefix_def)
  have "NewStringIndex d f True = Inr (foldl load_line (fresh_index f True) (map utf8 (tl l)))"
    using assms(1-4) by (intro load_unlines) (auto simp: strings_file_def l)
  then show ?thesis using assms(5) by (simp add: l fresh_index_def utf8_def)
qed

lemma get_stands:
  assumes "index T = map utf8 l" "length l \<le> 65536" "stands l k x"
  shows "get_string (Some T) (of_nat k) = Inr (utf8 x)"
proof -
  have "unat (of_nat k :: u16) = k"
    using assms(2,3) by (intro unat_of_nat_u16) (simp add: stands_def u16_values_def)
  then show ?thesis using assms by (simp add: get_string_def Get_def stands_def)
qed

lemma decode_indexed:
  assumes "request_ok rxp r" "numbers_ok l r a n rs es cs" "length l \<le> 65536" "index T = map utf8 l"
    and "cache_sound rxp c"
  defines "i \<equiv> (indexed_item (Some T) r a n rs es cs)\<lparr>Payload := utf8 (tcp_payload r)\<rparr>"
  shows "\<exists>c'. cache_sound rxp c' \<and> decode_item rxp c i = Inr (c', ReadItem
      ((request_item rxp (Some T) r)\<lparr>LabelIdx := of_nat n, AddressIdx := of_nat a, Label := '''', Address := ''''\<rparr>))"
proof -
  note get = get_stands [OF assms(4,3)] and ok = request_okD [OF assms(1)]
  have i: "itemIndex i = Some T" "\<not> RegexOutNil i" "ReplacesIdx i = map of_nat rs" "RegexOutIdx i = map of_nat es"
    "AssertsIdx i = map of_nat cs" "Replaces i = []" "Asserts i = []" "RegexOut i = Map.empty"
    by (simp_all add: i_def indexed_item_def new_item_def)
  have "list_all2 (\<lambda>idx s. get_string (itemIndex i) idx = Inr s) (ReplacesIdx i) (map utf8 (consumes r))"
    using assms(2) get by (auto simp: numbers_ok_def i list.rel_map elim: list_all2_mono)
  from decodeReplaces_ok [OF this] have 1: "decodeReplaces i = Inr (i\<lparr>Replaces := map utf8 (consumes r), ReplacesIdx := []\<rparr>)"
    by (simp add: i)
  let ?i = "i\<lparr>Replaces := map utf8 (consumes r), ReplacesIdx := []\<rparr>"
  have "list_all2 (\<lambda>idx (name, m, g, sre). get_string (itemIndex ?i) idx = Inr (extract_line name m g sre))
      (RegexOutIdx ?i) (map ext_spec (ext_tpls r))"
    using assms(2) get by (auto simp: numbers_ok_def i list.rel_map ext_spec_def utf8_extract_line elim!: list_all2_mono)
  moreover have "list_all (\<lambda>(name, m, g, sre). CHR '' '' \<notin> set name \<and> fits64 m \<and> 0 \<le> g \<and> g < 2 ^ 63
      \<and> compile rxp sre \<noteq> None) (map ext_spec (ext_tpls r))"
    using ok(5) space_in_utf8 by (auto simp: list_all_iff ext_spec_def)
  moreover have "\<not> RegexOutNil ?i" by (simp add: i)
  ultimately obtain c1 where c1: "cache_sound rxp c1" "decodeExtracts rxp (c, ?i) = Inr (Inr (c1, ?i\<lparr>RegexOutIdx := [],
        RegexOut := extract_map rxp r\<rparr>))"
    using decode_extract_lines [OF assms(5), of ?i "map ext_spec (ext_tpls r)"] by (auto simp: i extract_map_def)
  let ?j = "?i\<lparr>RegexOutIdx := [], RegexOut := extract_map rxp r\<rparr>"
  have "list_all2 (\<lambda>idx (v, sre). get_string (itemIndex ?j) idx = Inr (assert_line v sre))
      (AssertsIdx ?j) (map assert_spec (asserts r))"
    using assms(2) get by (auto simp: numbers_ok_def i list.rel_map assert_spec_def utf8_assert_line elim!: list_all2_mono)
  moreover have "list_all (\<lambda>(v, sre). compile rxp sre \<noteq> None) (map assert_spec (asserts r))"
    using ok(6) by (auto simp: list_all_iff assert_spec_def)
  ultimately obtain c2 where c2: "cache_sound rxp c2" "decodeAsserts rxp (c1, ?j) = Inr (Inr (c2, ?j\<lparr>AssertsIdx := [],
        Asserts := map (spec_assert rxp \<circ> assert_spec) (asserts r)\<rparr>))"
    using decode_assert_lines [OF c1(1), of ?j "map assert_spec (asserts r)"] by (auto simp: i)
  have "?j\<lparr>AssertsIdx := [], Asserts := map (spec_assert rxp \<circ> assert_spec) (asserts r)\<rparr>
      = (request_item rxp (Some T) r)\<lparr>LabelIdx := of_nat n, AddressIdx := of_nat a, Label := '''', Address := ''''\<rparr>"
    by (simp add: i_def indexed_item_def request_item_def new_item_def)
  with c2 show ?thesis by (intro exI [of _ c2]) (simp only: decode_item_def 1 c1 c2 go_bind_simps sum.case prod.case simp_thms)
qed

lemma resolve_indexed:
  assumes "numbers_ok l r a n rs es cs" "length l \<le> 65536" "index T = map utf8 l" "prefix [[]] l"
  shows "ResolveStrings ((request_item rxp (Some T) r)\<lparr>LabelIdx := of_nat n, AddressIdx := of_nat a,
      Label := '''', Address := ''''\<rparr>) = Inr (request_item rxp (Some T) r)"
proof -
  have "stands l a (host r)" "stands l n (req_label r)" using assms(1) by (simp_all add: numbers_ok_def)
  note get = this [THEN get_stands [OF assms(3,2)]]
  have zero: "(of_nat k :: u16) \<noteq> 0 \<or> utf8 x = ''''" if "stands l k x" for k x
  proof (cases "k = 0")
    case True
    then show ?thesis using that assms(4) by (auto simp: stands_def prefix_def utf8_def)
  next
    case False
    have "unat (of_nat k :: u16) = k"
      using assms(2) that by (intro unat_of_nat_u16) (simp add: stands_def u16_values_def)
    then show ?thesis using False by (metis unat_0)
  qed
  have ha: "(of_nat a :: u16) = 0 \<Longrightarrow> utf8 (host r) = ''''" and hn: "(of_nat n :: u16) = 0 \<Longrightarrow> utf8 (req_label r) = ''''"
    using zero assms(1) by (auto simp: numbers_ok_def)
  have si: "itemIndex (request_item rxp (Some T) r) = Some T" by (simp add: request_item_def new_item_def)
  show ?thesis
    using get ha hn
    by (cases "(of_nat a :: u16) = 0"; cases "(of_nat n :: u16) = 0")
      (simp_all add: ResolveStrings_def si word_gt_0, simp_all add: request_item_def new_item_def)
qed

text \<open>The file as a list of records: each but the first begins with the line end of the one before.\<close>

fun file_records :: "bytes \<Rightarrow> (pyval \<times> py_request) list \<Rightarrow> file_record list" where
  "file_records sep [] = []"
| "file_records sep ((m, r) # xs) = (sep, dumps m @ [CR], utf8 (tcp_payload r)) # file_records [CR, LF] xs"

lemma payload_file_records:
  "xs \<noteq> [] \<Longrightarrow> sep @ payload_file xs = concat (map render (file_records sep xs)) @ [CR, LF]"
proof (induction xs arbitrary: sep)
  case (Cons x xs)
  obtain m r where x: "x = (m, r)" by (cases x)
  show ?case
  proof (cases "xs = []")
    case False
    from Cons.IH [OF this, of "[CR, LF]"] show ?thesis
      by (simp add: x payload_file_def render_def)
  qed (simp add: x payload_file_def render_def)
qed simp

lemma py_escape_printable: "n < 0x110000 \<Longrightarrow> list_all printable (py_escape n)"
proof -
  assume n: "n < 0x110000"
  have "list_all printable (unicode k)" if "k < 0x10000" for k
    using that by (simp add: unicode_def hex_digits_def hex_digit_printable printable_consts)
  moreover have "printable (byte n)" if "32 \<le> n" "n < 127"
    using that by (simp add: byte_def printable_def code_char_of)
  moreover have "(n - 0x10000) div 1024 < 1024" using n by auto
  ultimately show ?thesis
    by (auto simp: py_escape_def printable_consts printable_def code_def byte_def)
qed

lemma py_string_printable: "scalars s \<Longrightarrow> list_all printable (py_string s)"
  by (auto simp: py_string_def scalars_def list_all_iff printable_consts dest!: bspec py_escape_printable)

lemma sep_by_printable: "list_all printable c \<Longrightarrow> list_all (list_all printable) xs \<Longrightarrow> list_all printable (sep_by c xs)"
  by (induction c xs rule: sep_by.induct) simp_all

lemma bracket_printable: "printable (CHR ''['')" "printable (CHR '']'')" "printable (CHR '' '')"
  "printable (CHR ''a'')" "printable (CHR ''e'')" "printable (CHR ''l'')" "printable (CHR ''s'')"
  by (simp_all add: printable_def code_def)

lemma dumps_printable: "py_text v \<Longrightarrow> list_all printable (dumps v)"
proof (induction v)
  case (PyList vs)
  then have "list_all (list_all printable) (map dumps vs)" by (auto simp: list_all_iff)
  then show ?case by (simp add: sep_by_printable printable_consts bracket_printable)
next
  case (PyDict ms)
  have "list_all printable (py_string k @ '': '' @ dumps v)" if "(k, v) \<in> set ms" for k v
    using PyDict that by (auto simp: list_all_iff [of _ ms] py_string_printable printable_consts bracket_printable)
  then have "list_all (list_all printable) (map (\<lambda>(k, v). py_string k @ '': '' @ dumps v) ms)"
    unfolding list_all_iff [of "list_all printable"] by auto
  then show ?case by (simp add: sep_by_printable printable_consts bracket_printable)
qed (simp_all add: itoa_printable py_string_printable bracket_printable printable_consts)

lemma dumps_line_ok:
  assumes "py_text (PyDict ms)" "length (dumps (PyDict ms)) + 3 < buf_size" "sep = [] \<or> sep = [CR, LF]"
  shows "line_ok (sep, dumps (PyDict ms) @ [CR], payload)"
proof -
  have "LF \<notin> set (dumps (PyDict ms))"
    using printable_no_line [OF dumps_printable [OF assms(1)]] by simp
  moreover have "hd (dumps (PyDict ms)) = CHR ''{''" "dumps (PyDict ms) \<noteq> []" by simp_all
  ultimately show ?thesis
    using assms(2,3) by (auto simp: line_ok_def separator_def simp del: dumps.simps)
qed

section \<open>Properties\<close>

text \<open>What \<open>json.dumps\<close> writes, \<open>encoding/json\<close> reads.\<close>

theorem dumps_read_back:
  assumes "py_text v"
  shows "parse_json (dumps v) = Some (py_json v)"
  by (rule parse_reads [OF reads_dumps [OF assms]])

lemma record_ok_inline:
  assumes "request_ok (rx env) r" "length (dumps (metadata_strings r)) + 3 < buf_size" "sep = [] \<or> sep = [CR, LF]"
    and "strings env = si"
  shows "record_ok env (sep, dumps (metadata_strings r) @ [CR], utf8 (tcp_payload r)) (request_item (rx env) si r)"
proof -
  have "line_ok (sep, dumps (metadata_strings r) @ [CR], utf8 (tcp_payload r))"
    using dumps_line_ok [OF py_text_strings [OF assms(1), unfolded metadata_strings_def]] assms(2,3)
    by (simp only: metadata_strings_def)
  moreover have "decode_item rxp c (request_item rxp si r) = Inr (c, ReadItem (request_item rxp si r))" for rxp c
    by (simp add: decode_item_def decodeReplaces_def decodeExtracts_def decodeAsserts_def request_item_def new_item_def)
  moreover have "PayloadLen (request_item (rx env) si r) = int (length (utf8 (tcp_payload r)))"
    "(request_item (rx env) si r)\<lparr>Payload := utf8 (tcp_payload r)\<rparr> = request_item (rx env) si r"
    by (simp_all add: request_item_def)
  ultimately show ?thesis
    using Unmarshal_strings [OF assms(1), of si] assms(4) by (auto simp: record_ok_def)
qed

lemma records_ok:
  assumes "\<And>sep m r i. (m, r, i) \<in> set xs \<Longrightarrow> sep = [] \<or> sep = [CR, LF] \<Longrightarrow>
      record_ok env (sep, dumps m @ [CR], utf8 (tcp_payload r)) i"
  shows "sep = [] \<or> sep = [CR, LF] \<Longrightarrow>
    list_all2 (record_ok env) (file_records sep (map (\<lambda>(m, r, i). (m, r)) xs)) (map (\<lambda>(m, r, i). i) xs)"
  using assms
proof (induction xs arbitrary: sep)
  case (Cons x xs)
  obtain m r i where x: "x = (m, r, i)" by (cases x)
  have "list_all2 (record_ok env) (file_records [CR, LF] (map (\<lambda>(m, r, i). (m, r)) xs)) (map (\<lambda>(m, r, i). i) xs)"
    using Cons.prems(2) by (intro Cons.IH) auto
  moreover have "record_ok env (sep, dumps m @ [CR], utf8 (tcp_payload r)) i"
    using Cons.prems by (simp add: x)
  ultimately show ?case by (simp add: x)
qed simp

lemma length_file_records: "length (file_records sep xs) = length xs"
  by (induction sep xs rule: file_records.induct) simp_all

text \<open>What the reader does with a file of the generator, from its records.\<close>

lemma replay_file:
  assumes "\<And>sep m r i. (m, r, i) \<in> set xs \<Longrightarrow> sep = [] \<or> sep = [CR, LF] \<Longrightarrow>
      record_ok env (sep, dumps m @ [CR], utf8 (tcp_payload r)) i"
    and "xs \<noteq> []" "content env = payload_file (map (\<lambda>(m, r, i). (m, r)) xs)"
    and "0 < k" "int (k * length xs) < 2 ^ 53" "k * Suc (length xs) \<le> n"
  shows "(IterationLimit env \<le> 0 \<longrightarrow>
       input_run env (k * Suc (length xs)) input_start = (concat (replicate k (map (\<lambda>(m, r, i). i) xs)), InputMore))
    \<and> (IterationLimit env = int k \<longrightarrow>
       input_run env n input_start = (concat (replicate k (map (\<lambda>(m, r, i). i) xs)), InputClosed))"
proof -
  let ?recs = "file_records [] (map (\<lambda>(m, r, i). (m, r)) xs)" and ?items = "map (\<lambda>(m, r, i). i) xs"
  have len: "length ?recs = length xs" by (simp add: length_file_records)
  have recs: "list_all2 (record_ok env) ?recs ?items"
    by (rule records_ok [OF assms(1)]) auto
  have body: "content env = concat (map render ?recs) @ [CR, LF]"
    using payload_file_records [of "map (\<lambda>(m, r, i). (m, r)) xs" "[]"] assms(2,3) by simp
  have start: "rpos (rd input_start) = 0" "cache_sound (rx env) (rcache (rd input_start))" "bad input_start = 0"
    "good input_start = 0" "iterations input_start = 0"
    by (simp_all add: input_start_def cache_sound_def)
  have "?recs \<noteq> []" using assms(2) len by (metis length_0_conv)
  moreover have "tail_ok [CR, LF]" by (simp add: tail_ok_def separator_def buf_size_def)
  ultimately show ?thesis
    using input_all_passes [OF recs _ body, of input_start k n] start assms(4-6) by (auto simp: len)
qed

text \<open>
  A payload file that the Taurus module writes without a strings file is read as the requests it
  was written from: the channel yields, for each request in turn, the item with its label, address,
  payload, placeholders, extractors and assertions, over and over, and with an iteration limit it
  yields them that many times and is closed.
\<close>

theorem inline_file_replayed:
  assumes "\<forall>r \<in> set rs. request_ok (rx env) r \<and> length (dumps (metadata_strings r)) + 3 < buf_size" "rs \<noteq> []"
    and "content env = payload_file (map (\<lambda>r. (metadata_strings r, r)) rs)" "strings env = si"
    and "0 < k" "int (k * length rs) < 2 ^ 53" "k * Suc (length rs) \<le> n"
  shows "(IterationLimit env \<le> 0 \<longrightarrow> input_run env (k * Suc (length rs)) input_start
        = (concat (replicate k (map (request_item (rx env) si) rs)), InputMore))
    \<and> (IterationLimit env = int k \<longrightarrow> input_run env n input_start
        = (concat (replicate k (map (request_item (rx env) si) rs)), InputClosed))"
proof -
  let ?xs = "map (\<lambda>r. (metadata_strings r, r, request_item (rx env) si r)) rs"
  have "record_ok env (sep, dumps m @ [CR], utf8 (tcp_payload r)) i"
    if "(m, r, i) \<in> set ?xs" "sep = [] \<or> sep = [CR, LF]" for sep m r i
    using that assms(1,4) record_ok_inline by fastforce
  from replay_file [OF this, of ?xs k n] assms(2-7) show ?thesis by (simp add: comp_def)
qed

lemma record_ok_indexed:
  assumes "request_ok (rx env) r" "numbers_ok l r a n rs es cs" "length l \<le> 65536" "index T = map utf8 l"
    and "length (dumps (indexed r a n rs es cs)) + 3 < buf_size" "sep = [] \<or> sep = [CR, LF]" "strings env = Some T"
  shows "record_ok env (sep, dumps (indexed r a n rs es cs) @ [CR], utf8 (tcp_payload r))
    ((request_item (rx env) (Some T) r)\<lparr>LabelIdx := of_nat n, AddressIdx := of_nat a, Label := '''', Address := ''''\<rparr>)"
proof -
  have "py_text (indexed r a n rs es cs)"
    by (simp add: indexed_def plen_def unless_empty_def numbers_def str_scalars list_all_iff)
  then have "line_ok (sep, dumps (indexed r a n rs es cs) @ [CR], utf8 (tcp_payload r))"
    using dumps_line_ok assms(5,6) by (simp only: indexed_def)
  moreover have "PayloadLen (indexed_item (Some T) r a n rs es cs) = int (length (utf8 (tcp_payload r)))"
    by (simp add: indexed_item_def)
  ultimately show ?thesis
    using Unmarshal_indexed [OF assms(1-3), of "Some T"] decode_indexed [OF assms(1-4)] assms(7)
    by (auto simp: record_ok_def)
qed

text \<open>The requests of a file: the table grows, and the numbers of each stand in the last one.\<close>

lemma number_requests_ok:
  "number_requests l rs = (ms, l') \<Longrightarrow> prefix l l' \<and> list_all2 (\<lambda>m r. \<exists>a n ks es cs.
      m = indexed r a n ks es cs \<and> numbers_ok l' r a n ks es cs) ms rs"
proof (induction rs arbitrary: l ms)
  case (Cons r rs)
  obtain m l1 ms' where m: "metadata_indexed r l = (m, l1)" "number_requests l1 rs = (ms', l')" "ms = m # ms'"
    using Cons.prems by (auto split: prod.splits)
  from metadata_indexed_ok [OF m(1)] obtain a n ks es cs where
    r: "prefix l l1" "m = indexed r a n ks es cs" "numbers_ok l1 r a n ks es cs" by blast
  from Cons.IH [OF m(2)] have p: "prefix l1 l'" by blast
  from numbers_ok_prefix [OF r(3) p] Cons.IH [OF m(2)] r(1,2) show ?case
    unfolding m(3) list.rel_inject using prefix_order.trans [OF r(1) p] by blast
qed simp

text \<open>The item of a request in a numbered file: its numbers, and what it becomes by \<open>ResolveStrings\<close>.\<close>

definition resolves_to :: "regexp_pkg \<Rightarrow> StrIndex \<Rightarrow> py_request \<Rightarrow> PayloadItem \<Rightarrow> bool" where
  "resolves_to rxp T r i =
     (ResolveStrings i = Inr (request_item rxp (Some T) r)
      \<and> get_string (Some T) (LabelIdx i) = Inr (utf8 (req_label r))
      \<and> get_string (Some T) (AddressIdx i) = Inr (utf8 (host r)))"

lemma indexed_items:
  assumes "list_all2 (\<lambda>m r. \<exists>a n ks es cs. m = indexed r a n ks es cs \<and> numbers_ok l r a n ks es cs) ms rs"
    and "\<forall>r \<in> set rs. request_ok (rx env) r" "\<forall>m \<in> set ms. length (dumps m) + 3 < buf_size" "length l \<le> 65536"
    and "index T = map utf8 l" "prefix [[]] l" "strings env = Some T"
  shows "\<exists>items. list_all2 (resolves_to (rx env) T) rs items
    \<and> (\<forall>m r i. (m, r, i) \<in> set (zip ms (zip rs items)) \<longrightarrow> (\<forall>sep. sep = [] \<or> sep = [CR, LF] \<longrightarrow>
        record_ok env (sep, dumps m @ [CR], utf8 (tcp_payload r)) i))"
  using assms(1-3)
proof (induction rule: list_all2_induct)
  case (Cons m ms r rs)
  from Cons obtain items where items: "list_all2 (resolves_to (rx env) T) rs items"
      "\<forall>m r i. (m, r, i) \<in> set (zip ms (zip rs items)) \<longrightarrow> (\<forall>sep. sep = [] \<or> sep = [CR, LF] \<longrightarrow>
        record_ok env (sep, dumps m @ [CR], utf8 (tcp_payload r)) i)"
    by auto
  from Cons.hyps(1) obtain a n ks es cs where m: "m = indexed r a n ks es cs" "numbers_ok l r a n ks es cs"
    by blast
  let ?i = "(request_item (rx env) (Some T) r)\<lparr>LabelIdx := of_nat n, AddressIdx := of_nat a, Label := '''', Address := ''''\<rparr>"
  have "resolves_to (rx env) T r ?i"
    using m(2) get_stands [OF assms(5,4)] resolve_indexed [OF m(2) assms(4-6)]
    by (simp add: resolves_to_def numbers_ok_def)
  moreover have "record_ok env (sep, dumps m @ [CR], utf8 (tcp_payload r)) ?i" if "sep = [] \<or> sep = [CR, LF]" for sep
    using record_ok_indexed [OF _ m(2) assms(4,5) _ that assms(7)] Cons.prems by (simp add: m(1))
  ultimately show ?case
    using items by (intro exI [of _ "?i # items"]) auto
qed (auto intro: exI [of _ "[]"])

text \<open>
  The payload file and the strings file that the Taurus module writes are read as the requests
  they were written from: when the strings file has been loaded, the channel yields an item for each
  request in turn whose numbers resolve to the label and the address, with the payload, the
  placeholders, the extractors and the assertions of the request, as often as the iteration limit
  says.
\<close>

theorem generated_files_replayed:
  assumes "\<forall>r \<in> set rs. request_ok (rx env) r" "rs \<noteq> []" "number_requests [[]] rs = (ms, l)"
    and "\<forall>m \<in> set ms. length (dumps m) + 3 < buf_size" "length l \<le> 65536" "\<forall>x \<in> set l. line_safe (utf8 x)"
    and "files d f = Some (strings_file l)" "f \<noteq> ''''" "can_read d f" "NewStringIndex d f True = Inr T"
    and "strings env = Some T" "content env = payload_file (zip ms rs)"
    and "0 < k" "int (k * length rs) < 2 ^ 53" "k * Suc (length rs) \<le> n"
  shows "\<exists>items. list_all2 (resolves_to (rx env) T) rs items
    \<and> (IterationLimit env \<le> 0 \<longrightarrow> input_run env (k * Suc (length rs)) input_start
        = (concat (replicate k items), InputMore))
    \<and> (IterationLimit env = int k \<longrightarrow> input_run env n input_start
        = (concat (replicate k items), InputClosed))"
proof -
  note l = number_requests_ok [OF assms(3)]
  have T: "index T = map utf8 l" using load_strings_file [OF assms(7,8,9,6,10)] l by blast
  obtain items where items: "list_all2 (resolves_to (rx env) T) rs items"
      and good: "\<forall>m r i. (m, r, i) \<in> set (zip ms (zip rs items)) \<longrightarrow> (\<forall>sep. sep = [] \<or> sep = [CR, LF] \<longrightarrow>
        record_ok env (sep, dumps m @ [CR], utf8 (tcp_payload r)) i)"
    using indexed_items [OF conjunct2 [OF l] assms(1,4,5) T conjunct1 [OF l] assms(11)] by (elim exE conjE)
  have len: "length items = length rs" "length ms = length rs"
    using list_all2_lengthD [OF items] list_all2_lengthD [OF conjunct2 [OF l]] by simp_all
  let ?xs = "zip ms (zip rs items)"
  have xs: "map (\<lambda>(m, r, i). (m, r)) ?xs = zip ms rs" "map (\<lambda>(m, r, i). i) ?xs = items" "length ?xs = length rs"
    using len by (auto simp: list_eq_iff_nth_eq)
  have "?xs \<noteq> []" using assms(2) xs(3) by force
  from replay_file [OF good [rule_format] this _ assms(13), of n, unfolded xs] assms(12,14,15) items
  show ?thesis by blast
qed

definition gen_requests :: "py_request list" where
  "gen_requests =
     [\<lparr>host = str ''http://h'', req_label = str ''first'', tcp_payload = [71, 233, 10],
       consumes = [str ''x'', str ''y''], ext_tpls = [(str ''id'', 0, 1, [8364])], asserts = [(True, str ''Error'')]\<rparr>,
      \<lparr>host = str ''http://h'', req_label = [], tcp_payload = str ''GET'',
       consumes = [str ''y''], ext_tpls = [], asserts = [(False, [34, 128512])]\<rparr>]"

definition gen_strings :: "pystr list" where
  "gen_strings = snd (number_requests [[]] gen_requests)"

definition gen_table :: StrIndex where
  "gen_table = foldl load_line (fresh_index ''s'' True) (map utf8 (tl gen_strings))"

definition gen_env :: input_env where
  "gen_env = \<lparr>content = payload_file (zip (fst (number_requests [[]] gen_requests)) gen_requests),
     strings = Some gen_table, rx = literal_pkg [], IterationLimit = 2\<rparr>"

lemma literal_pkg_compiles: "compile (literal_pkg []) p = Some (literal p p)"
  by (simp add: literal_pkg_def)

lemma length_digits: "length (digits n) = (if n < 10 then 1 else Suc (length (digits (n div 10))))"
  by (subst digits.simps) simp

lemma str_Cons: "str [] = []" "str (c # s) = of_char c # str s"
  by (simp_all add: str_def code_def)

lemma gen_requests_ok: "\<forall>r \<in> set gen_requests. request_ok (literal_pkg []) r"
proof -
  show ?thesis
    by (simp add: gen_requests_def request_ok_def literal_pkg_compiles fits64_def str_scalars)
      (simp add: scalars_def surrogate_def utf8_def encode_rune_def str_Cons)
qed

lemma itoa_01: "itoa 0 = ''0''" "itoa 1 = ''1''"
  by code_simp+

lemma gen_numbered:
  "number_requests [[]] gen_requests =
     ([indexed (hd gen_requests) 1 2 [3, 4] [5] [6], indexed (last gen_requests) 1 0 [4] [] [7]],
      [[], str ''http://h'', str ''first'', str ''x'', str ''y'', str ''id 0 1 '' @ [8364], str ''1 Error'',
       str ''0 '' @ [34, 128512]])"
  by (simp add: gen_requests_def metadata_indexed_def add_string_def py_extract_line_def py_assert_line_def
      str_Cons itoa_01 indexed_def unless_empty_def) (simp add: eval_nat_numeral)

lemma LF_char_of: "(LF = char_of (n::nat)) = (char_of n = LF)"
  by auto

lemma gen_strings_ok: "\<forall>x \<in> set gen_strings. line_safe (utf8 x)" "length gen_strings = 8"
  by (simp_all add: gen_strings_def gen_numbered str_Cons utf8_def encode_rune_def line_safe_def max_token_def
      byte_def char_of_eq_iff surrogate_def LF_char_of)

lemma gen_lines_short: "\<forall>m \<in> set (fst (number_requests [[]] gen_requests)). length (dumps m) + 3 < buf_size"
  unfolding gen_numbered fst_conv
  by (simp add: gen_requests_def indexed_def plen_def unless_empty_def numbers_def py_string_def str_Cons
      utf8_def encode_rune_def py_escape_def itoa_def length_digits buf_size_def surrogate_def)

lemma gen_inline_short: "\<forall>r \<in> set gen_requests. length (dumps (metadata_strings r)) + 3 < buf_size"
  by (simp add: gen_requests_def metadata_strings_def plen_def unless_empty_def py_string_def str_Cons
      utf8_def encode_rune_def py_escape_def unicode_def hex_digits_def itoa_def length_digits buf_size_def surrogate_def)

theorem generated_files_replayed_witness:
  "\<exists>items. list_all2 (resolves_to (literal_pkg []) gen_table) gen_requests items
    \<and> input_run gen_env 6 input_start = (concat (replicate 2 items), InputClosed)"
proof -
  let ?disk = "\<lparr>files = [''s'' \<mapsto> strings_file gen_strings], can_read = \<lambda>_. True, can_write = \<lambda>_. False\<rparr>"
  have req: "number_requests [[]] gen_requests = (fst (number_requests [[]] gen_requests), gen_strings)"
    by (simp add: gen_strings_def)
  have "\<forall>l \<in> set (map utf8 (tl gen_strings)). line_safe l"
    using gen_strings_ok(1) by (simp add: gen_strings_def gen_numbered)
  then have new: "NewStringIndex ?disk ''s'' True = Inr gen_table"
    unfolding gen_table_def by (intro load_unlines) (simp_all add: strings_file_def)
  have env: "rx gen_env = literal_pkg []" "strings gen_env = Some gen_table" "IterationLimit gen_env = 2"
    "content gen_env = payload_file (zip (fst (number_requests [[]] gen_requests)) gen_requests)"
    by (simp_all add: gen_env_def)
  have "length gen_requests = 2" "gen_requests \<noteq> []" by (simp_all add: gen_requests_def)
  with generated_files_replayed [of gen_requests gen_env, OF _ _ req gen_lines_short _ gen_strings_ok(1) _ _ _ new env(2,4), of 2 6]
  show ?thesis
    by (auto simp: env gen_requests_ok gen_strings_ok(2) simp del: replicate_Suc)
qed

theorem inline_file_replayed_witness:
  "input_run (gen_env\<lparr>content := payload_file (map (\<lambda>r. (metadata_strings r, r)) gen_requests)\<rparr>) 6 input_start
    = (concat (replicate 2 (map (request_item (literal_pkg []) (Some gen_table)) gen_requests)), InputClosed)"
proof -
  let ?env = "gen_env\<lparr>content := payload_file (map (\<lambda>r. (metadata_strings r, r)) gen_requests)\<rparr>"
  have env: "rx ?env = literal_pkg []" "strings ?env = Some gen_table" "IterationLimit ?env = 2"
    "content ?env = payload_file (map (\<lambda>r. (metadata_strings r, r)) gen_requests)"
    by (simp_all add: gen_env_def)
  have "length gen_requests = 2" "gen_requests \<noteq> []" by (simp_all add: gen_requests_def)
  with inline_file_replayed [of gen_requests ?env, OF _ _ env(4,2), of 2 6] gen_inline_short gen_requests_ok
  show ?thesis by (simp add: env del: replicate_Suc)
qed

end
