(* ===== verification/Taurus_Results.thy ===== *)
theory Taurus_Results
  imports Output_Sinks Taurus_Generator
begin

text \<open>
  The other end of the output: \<open>KPIReaderBinary\<close> of \<open>taurus/encarno/__init__.py\<close>, which reads the binary
  file and the strings file of a test, and the proof that it reports the results the workers pushed.
\<close>

section \<open>The strings\<close>

text \<open>What \<open>str.rstrip\<close> takes for white space.\<close>

definition py_space :: "nat \<Rightarrow> bool" where
  "py_space n =
     (9 \<le> n \<and> n \<le> 13 \<or> 28 \<le> n \<and> n \<le> 32 \<or> n \<in> {0x85, 0xA0, 0x1680, 0x2028, 0x2029, 0x202F, 0x205F, 0x3000}
      \<or> 0x2000 \<le> n \<and> n \<le> 0x200A)"

definition rstrip :: "pystr \<Rightarrow> pystr" where
  "rstrip s = rev (dropWhile py_space (rev s))"

text \<open>
  \<open>_get_strindex\<close>.  \<open>m\<close> is \<open>str_map\<close>, whose keys are the numbers below its size; \<open>bs\<close> is what the next calls
  of \<open>get_lines\<close> give, each a list of lines, and nothing when there is no more.
\<close>

definition next_lines :: "pystr list list \<Rightarrow> pystr list" where
  "next_lines bs = (case bs of [] \<Rightarrow> [] | b # _ \<Rightarrow> b)"

function get_strindex :: "nat \<Rightarrow> nat \<Rightarrow> pystr list \<Rightarrow> pystr list list \<Rightarrow> pystr \<times> pystr list \<times> pystr list list" where
  "get_strindex tries idx m bs =
     (if idx < length m then (m ! idx, m, bs)
      else
        let m = m @ map rstrip (next_lines bs); bs = tl bs
        in if idx < length m then (m ! idx, m, bs)
           else if Suc tries < 10 then get_strindex (Suc tries) idx m bs
           else (str ''INDEX_NOT_FOUND'', m, bs))"
  by pat_completeness auto
termination
  by (relation "measure (\<lambda>(tries, _). 10 - tries)") auto

declare get_strindex.simps [simp del]

section \<open>The results\<close>

text \<open>What \<open>_read\<close> yields for a record.\<close>

record KPI =
  kStamp :: int
  kLabel :: pystr
  kConcur :: int
  kRtm :: f64
  kCnn :: f64
  kLtc :: f64
  kCode :: string
  kError :: "pystr option"
  kBytes :: int

text \<open>
  \<open>phrase\<close> is \<open>http.HTTPStatus(rcd).phrase\<close> of Python's library; None is its \<open>ValueError\<close> for a code that it
  does not know, which ends the reader.
\<close>

definition named_error :: "(nat \<Rightarrow> pystr option) \<Rightarrow> nat \<Rightarrow> pystr option \<Rightarrow> pystr option option" where
  "named_error phrase rc error =
     (if 400 \<le> rc \<and> (error = None \<or> error = Some []) then map_option Some (phrase rc) else Some error)"

definition kpi_of_sample :: "Sample \<Rightarrow> pystr \<Rightarrow> pystr option \<Rightarrow> KPI" where
  "kpi_of_sample s label error =
     \<lparr>kStamp = uint (tstmp s), kLabel = label, kConcur = uint (concur s), kRtm = rtm s, kCnn = cnn s, kLtc = ltc s,
      kCode = itoa (uint (rcd s)), kError = error, kBytes = uint (sbytes s) + uint (rbytes s)\<rparr>"

fun read_kpis :: "(nat \<Rightarrow> pystr option) \<Rightarrow> pystr list \<Rightarrow> pystr list list \<Rightarrow> Sample list \<Rightarrow> KPI list option" where
  "read_kpis phrase m bs [] = Some []"
| "read_kpis phrase m bs (s # ss) =
     (let (error, m, bs) =
            (if 0 < err_idx s
             then (case get_strindex 0 (unat (err_idx s)) m bs of (e, m, bs) \<Rightarrow> (Some e, m, bs))
             else (None, m, bs));
          (label, m, bs) = get_strindex 0 (unat (lbl_idx s)) m bs
      in Option.bind (named_error phrase (unat (rcd s)) error) (\<lambda>error.
         Option.bind (read_kpis phrase m bs ss) (\<lambda>ks. Some (kpi_of_sample s label error # ks))))"

section \<open>Every number that is in the file is found\<close>

definition reads_on :: "pystr list \<Rightarrow> pystr list \<Rightarrow> pystr list list \<Rightarrow> bool" where
  "reads_on all m bs = (m @ map rstrip (concat bs) = all \<and> length bs \<le> 10)"

lemma next_lines_concat: "concat bs = next_lines bs @ concat (tl bs)"
  by (cases bs) (simp_all add: next_lines_def)

lemma get_strindex_found:
  assumes "m @ map rstrip (concat bs) = all" "tries + length bs \<le> 10" "idx < length all" "tries < 10"
  shows "\<exists>m' bs'. get_strindex tries idx m bs = (all ! idx, m', bs') \<and> m' @ map rstrip (concat bs') = all
    \<and> length bs' \<le> length bs"
  using assms
proof (induction tries idx m bs rule: get_strindex.induct)
  case (1 tries idx m bs)
  let ?m = "m @ map rstrip (next_lines bs)"
  have all: "?m @ map rstrip (concat (tl bs)) = all"
    using "1.prems"(1) next_lines_concat [of bs] by simp
  have found: "idx < length xs \<Longrightarrow> xs @ ys = all \<Longrightarrow> xs ! idx = all ! idx" for xs ys
    by (auto simp: nth_append)
  show ?case
  proof (cases "idx < length m \<or> idx < length ?m")
    case True
    then show ?thesis
      using found [of m] found [of ?m] all "1.prems"(1) by (subst get_strindex.simps) (auto simp: Let_def)
  next
    case False
    then have bs: "bs \<noteq> []" "tl bs \<noteq> []"
      using all "1.prems"(3) by (auto simp: next_lines_def split: list.splits)
    then have "2 \<le> length bs" by (cases bs; cases "tl bs") auto
    then have less: "Suc tries < 10" "Suc tries + length (tl bs) \<le> 10"
      using "1.prems"(2) by auto
    obtain m' bs' where *: "get_strindex (Suc tries) idx ?m (tl bs) = (all ! idx, m', bs')"
      "m' @ map rstrip (concat bs') = all" "length bs' \<le> length (tl bs)"
      using "1.IH" [OF _ refl refl _ less(1) all less(2) "1.prems"(3) less(1)] False by auto
    moreover have "get_strindex tries idx m bs = get_strindex (Suc tries) idx ?m (tl bs)"
      using False less(1) by (subst get_strindex.simps) (simp add: Let_def)
    ultimately show ?thesis by auto
  qed
qed

lemma reads_on_found:
  assumes "reads_on all m bs" "idx < length all"
  shows "\<exists>m' bs'. get_strindex 0 idx m bs = (all ! idx, m', bs') \<and> reads_on all m' bs'"
  using get_strindex_found [of m bs all 0 idx] assms by (force simp: reads_on_def)

text \<open>So the reader reports each record on its own, with the strings of the file.\<close>

definition kpi :: "(nat \<Rightarrow> pystr option) \<Rightarrow> pystr list \<Rightarrow> Sample \<Rightarrow> KPI option" where
  "kpi phrase all s =
     map_option (kpi_of_sample s (all ! unat (lbl_idx s)))
       (named_error phrase (unat (rcd s)) (if 0 < err_idx s then Some (all ! unat (err_idx s)) else None))"

lemma read_kpis_each:
  assumes "reads_on all m bs" "\<forall>s \<in> set ss. unat (err_idx s) < length all \<and> unat (lbl_idx s) < length all
      \<and> kpi phrase all s \<noteq> None"
  shows "read_kpis phrase m bs ss = Some (map (\<lambda>s. the (kpi phrase all s)) ss)"
  using assms
proof (induction ss arbitrary: m bs)
  case (Cons s ss)
  obtain m' bs' where e: "get_strindex 0 (unat (err_idx s)) m bs = (all ! unat (err_idx s), m', bs')" "reads_on all m' bs'"
    using reads_on_found [OF Cons.prems(1), of "unat (err_idx s)"] Cons.prems(2) by auto
  have "\<exists>m1 bs1. (if 0 < err_idx s
             then (case get_strindex 0 (unat (err_idx s)) m bs of (e, m, bs) \<Rightarrow> (Some e, m, bs))
             else (None, m, bs)) = (if 0 < err_idx s then Some (all ! unat (err_idx s)) else None, m1, bs1) \<and> reads_on all m1 bs1"
    using e Cons.prems(1) by (cases "0 < err_idx s") auto
  then obtain m1 bs1 where 1: "(if 0 < err_idx s
             then (case get_strindex 0 (unat (err_idx s)) m bs of (e, m, bs) \<Rightarrow> (Some e, m, bs))
             else (None, m, bs)) = (if 0 < err_idx s then Some (all ! unat (err_idx s)) else None, m1, bs1)" "reads_on all m1 bs1"
    by blast
  obtain m2 bs2 where 2: "get_strindex 0 (unat (lbl_idx s)) m1 bs1 = (all ! unat (lbl_idx s), m2, bs2)" "reads_on all m2 bs2"
    using reads_on_found [OF 1(2), of "unat (lbl_idx s)"] Cons.prems(2) by auto
  obtain k where "kpi phrase all s = Some k" using Cons.prems(2) by auto
  then show ?case
    using Cons.IH [OF 2(2)] Cons.prems(2) by (auto simp: 1(1) 2(1) kpi_def)
qed simp

section \<open>The strings file follows the numbers\<close>

definition error_text :: "OutputItem \<Rightarrow> string" where
  "error_text i = (case Error i of None \<Rightarrow> '''' | Some e \<Rightarrow> e)"

definition texts_safe :: "OutputItem \<Rightarrow> bool" where
  "texts_safe i = (line_safe (OutLabel i) \<and> line_safe (error_text i))"

lemma idx_ptr_disk:
  assumes "idx_ptr (Some t) l = Inr (p', k)" "on_disk t" "line_safe l"
  shows "\<exists>t'. p' = Some t' \<and> on_disk t' \<and> filename (snd t') = filename (snd t)"
proof -
  obtain t' where t': "p' = Some t'" "Idx t l = Inr (t', k)"
    using assms(1) by (auto simp: idx_ptr_def go_convs)
  then show ?thesis
    using on_disk_Idx [of "fst t" "snd t" l "fst t'" "snd t'" k] Idx_Inr_sel(1) [of "fst t" "snd t" l "fst t'" "snd t'" k]
      assms(2,3) by simp
qed

lemma number_strings_disk:
  assumes "number_strings idx_ptr (Some t) i = Inr (p', i')" "on_disk t" "texts_safe i"
  shows "\<exists>t'. p' = Some t' \<and> on_disk t' \<and> filename (snd t') = filename (snd t)"
proof -
  have err: "Error i = Some e \<Longrightarrow> line_safe e" for e
    using assms(3) by (simp add: texts_safe_def error_text_def)
  obtain p1 i1 where 1: "(case Error i of
          Some e \<Rightarrow> if ErrorStrIdx i = 0 then go_bind (idx_ptr (Some t) e) (\<lambda>(t, k). Inr (t, i\<lparr>ErrorStrIdx := k\<rparr>))
                    else Inr (Some t, i)
        | None \<Rightarrow> Inr (Some t, i)) = Inr (p1, i1)"
      "(if OutLabel i1 \<noteq> '''' \<and> OutLabelIdx i1 = 0
        then go_bind (idx_ptr p1 (OutLabel i1)) (\<lambda>(t, k). Inr (t, i1\<lparr>OutLabelIdx := k\<rparr>)) else Inr (p1, i1)) = Inr (p', i')"
    using assms(1) by (auto simp: number_strings_def go_bind_Inr_conv)
  have "\<exists>t1. p1 = Some t1 \<and> on_disk t1 \<and> filename (snd t1) = filename (snd t)" "OutLabel i1 = OutLabel i"
    using 1(1) assms(2) idx_ptr_disk [of t] err by (auto simp: go_bind_Inr_conv simp del: split_paired_Ex split: option.splits if_splits)
  then show ?thesis
    using 1(2) idx_ptr_disk [of _ "OutLabel i"] assms(3)
    by (auto simp: go_bind_Inr_conv texts_safe_def simp del: split_paired_Ex split: if_splits) metis
qed

lemma binary_run_disk:
  assumes "go_fold background (binary_output (Some t) b) items = Inr (binary_output p' b')" "on_disk t"
    "\<forall>i \<in> set items. texts_safe i"
  shows "\<exists>t'. p' = Some t' \<and> on_disk t' \<and> filename (snd t') = filename (snd t)"
  using assms
proof (induction items arbitrary: t b)
  case Nil
  then show ?case by (auto simp: binary_output_def simp del: split_paired_Ex)
next
  case (Cons i items)
  then obtain p1 i' b1 where 1: "push_binary (Some t) i b = Inr (p1, i', b1)"
      "go_fold background (binary_output p1 b1) items = Inr (binary_output p' b')"
    by (auto simp: background_binary go_bind_Inr_conv)
  then have "number_strings idx_ptr (Some t) i = Inr (p1, i')"
    by (auto simp: push_binary_def Let_def go_bind_Inr_conv)
  from number_strings_disk [OF this] Cons.prems obtain t1 where
    t1: "p1 = Some t1" "on_disk t1" "filename (snd t1) = filename (snd t)" by auto
  with Cons.IH [of t1 b1] 1(2) Cons.prems(3) show ?case by auto
qed

section \<open>What is reported of a result\<close>

text \<open>The label of a result that has a number already is the string of that number.\<close>

definition label_text :: "table option \<Rightarrow> OutputItem \<Rightarrow> string go" where
  "label_text p i = (if OutLabelIdx i \<noteq> 0 then ptr_get p (OutLabelIdx i) else Inr (OutLabel i))"

definition reported :: "table option \<Rightarrow> (nat \<Rightarrow> pystr option) \<Rightarrow> OutputItem \<Rightarrow> KPI \<Rightarrow> bool" where
  "reported p phrase i k =
     (kStamp k = uint (StartTS i) \<and> label_text p i = Inr (utf8 (kLabel k)) \<and> kConcur k = uint (Concurrency i)
      \<and> kRtm k = Seconds (Elapsed i) \<and> kCnn k = Seconds (ConnectTime i) \<and> kLtc k = Seconds (FirstByteTime i)
      \<and> kCode k = itoa (uint (OutputItem.Status i)) \<and> kBytes k = uint (SentBytesCount i) + uint (RespBytesCount i)
      \<and> (if error_text i \<noteq> '''' then map_option utf8 (kError k) = Some (error_text i)
         else if 400 \<le> unat (OutputItem.Status i) then kError k = phrase (unat (OutputItem.Status i)) \<and> kError k \<noteq> None
         else kError k = None \<or> kError k = Some []))"

text \<open>The results the program pushes have no number of an error yet, and labels that have one have a valid one.\<close>

definition reportable :: "table option \<Rightarrow> (nat \<Rightarrow> pystr option) \<Rightarrow> OutputItem \<Rightarrow> bool" where
  "reportable p phrase i =
     (texts_safe i \<and> ErrorStrIdx i = 0 \<and> (\<exists>l. label_text p i = Inr l)
      \<and> (error_text i = '''' \<longrightarrow> 400 \<le> unat (OutputItem.Status i) \<longrightarrow> phrase (unat (OutputItem.Status i)) \<noteq> None))"

lemma utf8_Nil_iff: "utf8 s = [] \<longleftrightarrow> s = []"
proof -
  have "encode_rune n \<noteq> []" for n
    by (simp add: encode_rune_def replacement_def)
  then show ?thesis by (cases s) (simp_all add: utf8_def)
qed

lemma kpi_reported:
  assumes "numbered ptr_get (Some (d', s')) i i'" "reportable p phrase i"
    and "\<forall>j m. ptr_get p j = Inr m \<longrightarrow> ptr_get (Some (d', s')) j = Inr m"
    and "map utf8 all = index s'" "all ! 0 = []" "all \<noteq> []"
  shows "unat (err_idx (sample_of i')) < length all \<and> unat (lbl_idx (sample_of i')) < length all
    \<and> (\<exists>k. kpi phrase all (sample_of i') = Some k \<and> reported p phrase i k)"
proof -
  have get: "ptr_get (Some (d', s')) j = Inr m \<Longrightarrow> unat j < length all \<and> utf8 (all ! unat j) = m" for j m
    using arg_cong [OF assms(4), of length] arg_cong [OF assms(4), of "\<lambda>xs. xs ! unat j"]
    by (auto simp: ptr_get_def get_string_def Get_Inr)
  have same: "i' = i\<lparr>ErrorStrIdx := ErrorStrIdx i', OutLabelIdx := OutLabelIdx i'\<rparr>"
    using assms(1) by (simp add: numbered_def)
  have zero: "0 < length all" "utf8 (all ! 0) = []"
    using assms(5,6) by (simp_all add: utf8_def)
  obtain l where l: "label_text p i = Inr l"
    using assms(2) by (auto simp: reportable_def)
  have label: "unat (OutLabelIdx i') < length all \<and> utf8 (all ! unat (OutLabelIdx i')) = l"
    using assms(1,3) l get [of "OutLabelIdx i'"] zero
    by (auto simp: numbered_def label_text_def split: if_splits)
  have err: "unat (ErrorStrIdx i') < length all \<and> utf8 (all ! unat (ErrorStrIdx i')) = error_text i"
    using assms(1,2) get [of "ErrorStrIdx i'"] zero
    by (auto simp: numbered_def reportable_def error_text_def split: option.splits)
  have none: "error_text i \<noteq> '''' \<longrightarrow> 0 < ErrorStrIdx i'"
    using err zero(2) by (auto simp: word_gt_0)
  have nil: "all ! unat (ErrorStrIdx i') = [] \<longleftrightarrow> error_text i = ''''"
    using err utf8_Nil_iff by metis
  have st: "OutputItem.Status i' = OutputItem.Status i" "StartTS i' = StartTS i" "Concurrency i' = Concurrency i"
    "Elapsed i' = Elapsed i" "ConnectTime i' = ConnectTime i" "FirstByteTime i' = FirstByteTime i"
    "SentBytesCount i' = SentBytesCount i" "RespBytesCount i' = RespBytesCount i"
    by (subst same, simp)+
  have "\<exists>k. kpi phrase all (sample_of i') = Some k \<and> reported p phrase i k"
    using assms(2) none nil err label l
    by (auto simp: kpi_def sample_of_def named_error_def reported_def kpi_of_sample_def st reportable_def)
  with label err show ?thesis by (simp add: sample_of_def)
qed

lemma binary_output_simps:
  "binary_output p b = binary_output p' b' \<longleftrightarrow> p = p' \<and> b = b'"
  "Close (binary_output p b) = binary_output p (b\<lparr>bwriter := Flush (bwriter b)\<rparr>)"
  by (auto simp: binary_output_def Close_def)

lemma rstrip_line: "rstrip (l @ [10]) = rstrip l"
  by (simp add: rstrip_def py_space_def)

text \<open>The lines of a strings file, decoded, in as many calls as one look-up may make.\<close>

definition gives_lines :: "bytes \<Rightarrow> pystr list list \<Rightarrow> bool" where
  "gives_lines file bs =
     (length bs \<le> 10 \<and> (\<exists>ls. concat bs = map (\<lambda>l. l @ [10]) ls \<and> map utf8 ls = raw_lines file \<and> (\<forall>l \<in> set ls. rstrip l = l)))"

lemma table_lines:
  assumes "on_disk (d, s)" "gives_lines (Str_Index.content d (filename s)) bs"
  shows "\<exists>all. reads_on all [[]] bs \<and> map utf8 all = index s \<and> all ! 0 = [] \<and> all \<noteq> []"
proof -
  obtain ls where ls: "length bs \<le> 10" "concat bs = map (\<lambda>l. l @ [10]) ls" "\<forall>l \<in> set ls. rstrip l = l"
      "map utf8 ls = raw_lines (Str_Index.content d (filename s))"
    using assms(2) by (auto simp: gives_lines_def)
  have "raw_lines (Str_Index.content d (filename s)) = tl (index s)" "index s = [] # tl (index s)"
    using assms(1) line_safe_lines(1) by (auto simp: on_disk_def)
  moreover have "map rstrip (concat bs) = ls"
    using ls(2,3) by (simp add: comp_def rstrip_line map_idI)
  moreover have "utf8 [] = []" by (simp add: utf8_def)
  ultimately show ?thesis
    using ls(1,4) by (intro exI [of _ "[] # ls"]) (simp add: reads_on_def)
qed

section \<open>Properties\<close>


lemma example_table_disk: "on_disk (no_disk, fresh_index ''o'' False)" "ptr_inv (Some (no_disk, fresh_index ''o'' False))"
  "ptr_room (Some (no_disk, fresh_index ''o'' False)) = 65535"
  by (simp_all add: on_disk_def ptr_inv_def table_inv_def can_append_def ptr_room_def room_def no_disk_def u16_values_def
      Str_Index.content_def) (simp_all add: fresh_index_def)

lemma example_reportable:
  "reportable (Some (no_disk, fresh_index ''o'' False)) (\<lambda>_. None) (EndWithError ''EOF'' (example_result ''y''))"
  by (simp add: reportable_def texts_safe_def error_text_def label_text_def EndWithError_def example_result_def line_safe_def
      max_token_def)

lemma example_numbered:
  "\<exists>d' s' i'. number_strings idx_ptr (Some (no_disk, fresh_index ''o'' False)) (EndWithError ''EOF'' (example_result ''y''))
      = Inr (Some (d', s'), i') \<and> Str_Index.content d' ''o'' = unlines [''EOF'', ''newlabel'']"
  by (simp add: number_strings_def EndWithError_def example_result_def idx_ptr_def fresh_index_def no_disk_def Let_def Idx.simps
      appendFile.simps Str_Index.content_def)

lemma example_lines: "gives_lines (unlines [''EOF'', ''newlabel'']) [[str ''EOF'' @ [10]], [str ''newlabel'' @ [10]]]"
proof -
  have "raw_lines (unlines [''EOF'', ''newlabel'']) = [''EOF'', ''newlabel'']"
    by (rule raw_lines_unlines) simp
  then show ?thesis
    unfolding gives_lines_def
    by (intro conjI exI [of _ "[str ''EOF'', str ''newlabel'']"])
      (simp_all add: utf8_str code_def, simp_all add: rstrip_def py_space_def str_def code_def)
qed


end
