(* ===== verification/Taurus_Health.thy ===== *)
theory Taurus_Health
  imports Worker_System Output_Items
begin

text \<open>
  The health line that \<open>Start\<close> of \<open>pkg/core/status.go\<close> logs every second, and \<open>HealthReader\<close> of
  \<open>taurus/encarno/__init__.py\<close>, which takes the numbers of workers and the lag from the log.
\<close>

section \<open>The line\<close>

text \<open>
  \<open>Duration.String\<close>: \<open>frac u p\<close> is the fraction of \<open>u\<close> in units of \<open>10 ^ p\<close>, without the zeros at its end, and
  nothing if it is zero.
\<close>

fun padded :: "nat \<Rightarrow> nat \<Rightarrow> bytes" where
  "padded 0 n = []"
| "padded (Suc p) n = padded p (n div 10) @ [char_of (48 + n mod 10)]"

definition frac :: "nat \<Rightarrow> nat \<Rightarrow> bytes" where
  "frac u p =
     (if u mod 10 ^ p = 0 then []
      else CHR ''.'' # rev (dropWhile (\<lambda>c. c = CHR ''0'') (rev (padded p (u mod 10 ^ p)))))"

definition with_unit :: "nat \<Rightarrow> nat \<Rightarrow> bytes" where
  "with_unit u p = digits (u div 10 ^ p) @ frac u p"

definition micro :: bytes where "micro = [CHR 0xC2, CHR 0xB5]"

definition Duration_String :: "duration \<Rightarrow> bytes" where
  "Duration_String d =
     (let u = nat \<bar>d\<bar>; secs = u div 10 ^ 9;
          text =
            (if u = 0 then ''0s''
             else if u < 10 ^ 3 then digits u @ ''ns''
             else if u < 10 ^ 6 then with_unit u 3 @ micro @ ''s''
             else if u < 10 ^ 9 then with_unit u 6 @ ''ms''
             else (if secs < 60 then []
                   else (if secs < 3600 then [] else digits (secs div 3600) @ ''h'') @ digits (secs div 60 mod 60) @ ''m'')
                  @ digits (secs mod 60) @ frac u 9 @ ''s'')
      in if d < 0 then CHR ''-'' # text else text)"

text \<open>The message of \<open>Start\<close>.\<close>

definition health_text :: "health \<Rightarrow> bytes" where
  "health_text h =
     ''Workers: waiting: '' @ itoa (hWaiting h) @ '', working: '' @ itoa (hWorking h) @ '', sleeping: '' @ itoa (hSleeping h)
     @ '', busy: '' @ itoa (hBusy h) @ '', lag: '' @ Duration_String (hLag h) @ '', reqs: '' @ itoa (hReqs h)"

section \<open>The reader\<close>

text \<open>
  Python: \<open>s.split(" ")\<close>, \<open>s.partition(" ")\<close>, and \<open>int(s)\<close> of a text of ASCII, with a sign, blanks around it
  and single underscores between digits; None is the \<open>ValueError\<close>.
\<close>

fun split_at :: "char \<Rightarrow> bytes \<Rightarrow> bytes list" where
  "split_at c [] = [[]]"
| "split_at c (x # xs) =
     (if x = c then [] # split_at c xs
      else case split_at c xs of [] \<Rightarrow> [[x]] | w # ws \<Rightarrow> (x # w) # ws)"

definition after_blank :: "bytes \<Rightarrow> bytes" where
  "after_blank s = fst (snd (cut (CHR '' '') s))"

definition blank :: "char \<Rightarrow> bool" where
  "blank c = (9 \<le> code c \<and> code c \<le> 13 \<or> 28 \<le> code c \<and> code c \<le> 32)"

definition stripped :: "bytes \<Rightarrow> bytes" where
  "stripped s = rev (dropWhile blank (rev (dropWhile blank s)))"

definition py_digits :: "bytes \<Rightarrow> int option" where
  "py_digits s =
     (let groups = split_at (CHR ''_'') s
      in if list_all (\<lambda>g. g \<noteq> [] \<and> list_all ascii_digit g) groups then Some (int (decimal (concat groups))) else None)"

definition py_int :: "bytes \<Rightarrow> int option" where
  "py_int s =
     (case stripped s of
        [] \<Rightarrow> None
      | c # cs \<Rightarrow>
          if c = CHR ''-'' then map_option uminus (py_digits cs)
          else if c = CHR ''+'' then py_digits cs else py_digits (c # cs))"

text \<open>\<open>HealthReader\<close>: what it has read last.\<close>

record health_reader =
  lag :: bytes
  cnt_waiting :: int
  cnt_working :: int
  cnt_sleeping :: int
  cnt_busy :: int
  partial_buffer :: bytes

definition new_reader :: health_reader where
  "new_reader = \<lparr>lag = [], cnt_waiting = 0, cnt_working = 0, cnt_sleeping = 0, cnt_busy = 0, partial_buffer = []\<rparr>"

text \<open>
  The fields of a line are set one after the other; a field that is missing or is no number raises an
  exception, which is caught and logged, and leaves the rest as it was.
\<close>

definition part :: "bytes list \<Rightarrow> nat \<Rightarrow> bytes option" where
  "part parts n = (if n < length parts then Some (butlast (parts ! n)) else None)"

definition set_number :: "bytes list \<Rightarrow> nat \<Rightarrow> (int \<Rightarrow> health_reader \<Rightarrow> health_reader) \<Rightarrow> health_reader \<times> bool \<Rightarrow> health_reader \<times> bool" where
  "set_number parts n upd r =
     (if snd r
      then (case Option.bind (part parts n) py_int of None \<Rightarrow> (fst r, False) | Some v \<Rightarrow> (upd v (fst r), True))
      else r)"

definition parse_line :: "bytes \<Rightarrow> health_reader \<Rightarrow> health_reader" where
  "parse_line line r =
     (let parts = split_at (CHR '' '') (after_blank (after_blank line));
          (r, ok) =
            set_number parts 8 (\<lambda>v r. r\<lparr>cnt_busy := v\<rparr>)
            (set_number parts 6 (\<lambda>v r. r\<lparr>cnt_sleeping := v\<rparr>)
            (set_number parts 4 (\<lambda>v r. r\<lparr>cnt_working := v\<rparr>)
            (set_number parts 2 (\<lambda>v r. r\<lparr>cnt_waiting := v\<rparr>) (r, True))))
      in if ok then (case part parts 10 of None \<Rightarrow> r | Some l \<Rightarrow> r\<lparr>lag := l\<rparr>) else r)"

fun read_lines :: "bytes list \<Rightarrow> health_reader \<Rightarrow> health_reader" where
  "read_lines [] r = r"
| "read_lines (line # rest) r =
     (if line = [] \<or> last line \<noteq> LF then read_lines rest (r\<lparr>partial_buffer := partial_buffer r @ line\<rparr>)
      else
        let l = partial_buffer r @ line; r = r\<lparr>partial_buffer := []\<rparr>
        in read_lines rest (if Contains l ''Workers: '' then parse_line l r else r))"

section \<open>The reader gets the numbers of the line\<close>

lemma Contains_prefix: "take (length sub) s = sub \<Longrightarrow> Contains s sub"
  by (cases s) auto

lemma Contains_append: "Contains (a @ sub @ b) sub"
  by (induction a) (simp_all add: Contains_prefix)

lemma split_at_free: "c \<notin> set w \<Longrightarrow> split_at c w = [w]"
  by (induction w) auto

lemma split_at_word: "c \<notin> set w \<Longrightarrow> split_at c (w @ c # rest) = w # split_at c rest"
  by (induction w) auto

lemma digit_not_blank: "ascii_digit c \<Longrightarrow> \<not> blank c"
  by (auto simp: ascii_digit_def blank_def)

lemma stripped_id:
  assumes "s \<noteq> []" "\<not> blank (hd s)" "\<not> blank (last s)"
  shows "stripped s = s"
proof -
  have "dropWhile blank s = s" using assms(1,2) by (cases s) auto
  moreover have "dropWhile blank (rev s) = rev s" using assms(1,3) by (cases s rule: rev_cases) auto
  ultimately show ?thesis by (simp add: stripped_def)
qed

lemma py_digits_digits: "py_digits (digits n) = Some (int n)"
proof -
  have "split_at (CHR ''_'') (digits n) = [digits n]"
    by (rule split_at_free [OF digits_free]) (simp add: ascii_digit_def code_def)
  then show ?thesis by (simp add: py_digits_def digits_ascii)
qed

lemma last_digits: "ascii_digit (last (digits n))"
  using digits_ascii [of n] digits_not_Nil [of n] by (simp add: list_all_iff)

lemma py_int_itoa: "py_int (itoa n) = Some n"
proof -
  have minus: "\<not> blank (CHR ''-'')" by (simp add: blank_def code_def)
  have "stripped (itoa n) = itoa n"
    using hd_digits last_digits digit_not_blank minus by (intro stripped_id) (auto simp: itoa_def)
  moreover obtain c cs where c: "digits (nat n) = c # cs" by (cases "digits (nat n)") auto
  then have "c \<noteq> CHR ''-''" "c \<noteq> CHR ''+''" using hd_digits [of "nat n"] by auto
  ultimately show ?thesis
    using py_digits_digits [of "nat n"] c by (auto simp: py_int_def itoa_def py_digits_digits)
qed

lemma char_digit: "n < (10::nat) \<Longrightarrow> ascii_digit (char_of (48 + n))"
  by (simp add: ascii_digit_def code_digit)

lemma padded_ascii: "list_all ascii_digit (padded p n)"
  by (induction p arbitrary: n) (simp_all add: char_digit)

lemma no_blank_duration: "CHR '' '' \<notin> set (Duration_String d)"
proof -
  have "CHR '' '' \<notin> set (digits n)" for n by (simp add: digits_free)
  moreover have "CHR '' '' \<notin> set (frac u p)" for u p
    using padded_ascii [of p "u mod 10 ^ p"] by (auto simp: frac_def list_all_iff dest!: set_dropWhileD bspec)
  ultimately show ?thesis
    by (auto simp: Duration_String_def Let_def with_unit_def micro_def)
qed

text \<open>
  A line of the log, as the formatter of \<open>logrus\<close> writes it: the time and the level, which have no
  blanks, and the message in quotes.
\<close>

definition log_line :: "bytes \<Rightarrow> bytes \<Rightarrow> bytes \<Rightarrow> bytes" where
  "log_line ts level msg = ts @ '' '' @ level @ '' msg='' @ [Quote] @ msg @ [Quote]"

definition no_blank :: "bytes \<Rightarrow> bool" where
  "no_blank s = (CHR '' '' \<notin> set s \<and> LF \<notin> set s)"

lemma itoa_no_blank: "CHR '' '' \<notin> set (itoa n)" "LF \<notin> set (itoa n)"
  by (simp_all add: itoa_free)

lemma health_words:
  assumes "no_blank ts" "no_blank level"
  shows "split_at (CHR '' '') (after_blank (after_blank (log_line ts level (health_text h) @ [LF]))) =
    [''msg='' @ [Quote] @ ''Workers:'', ''waiting:'', itoa (hWaiting h) @ '','', ''working:'', itoa (hWorking h) @ '','',
     ''sleeping:'', itoa (hSleeping h) @ '','', ''busy:'', itoa (hBusy h) @ '','', ''lag:'', Duration_String (hLag h) @ '','',
     ''reqs:'', itoa (hReqs h) @ [Quote, LF]]"
proof -
  let ?words = "[''msg='' @ [Quote] @ ''Workers:'', ''waiting:'', itoa (hWaiting h) @ '','', ''working:'', itoa (hWorking h) @ '','',
     ''sleeping:'', itoa (hSleeping h) @ '','', ''busy:'', itoa (hBusy h) @ '','', ''lag:'', Duration_String (hLag h) @ '','',
     ''reqs:'']"
  have join: "\<forall>w \<in> set ws. CHR '' '' \<notin> set w \<Longrightarrow> CHR '' '' \<notin> set v \<Longrightarrow>
      split_at (CHR '' '') (concat (map (\<lambda>w. w @ '' '') ws) @ v) = ws @ [v]" for ws v
    by (induction ws) (simp_all add: split_at_free split_at_word)
  have "log_line ts level (health_text h) @ [LF]
      = ts @ CHR '' '' # level @ CHR '' '' # concat (map (\<lambda>w. w @ '' '') ?words) @ itoa (hReqs h) @ [Quote, LF]"
    by (simp add: log_line_def health_text_def)
  then have "after_blank (after_blank (log_line ts level (health_text h) @ [LF]))
      = concat (map (\<lambda>w. w @ '' '') ?words) @ itoa (hReqs h) @ [Quote, LF]"
    using assms by (simp add: after_blank_def no_blank_def del: list.map concat.simps)
  moreover have "\<forall>w \<in> set ?words. CHR '' '' \<notin> set w"
    by (simp add: itoa_no_blank no_blank_duration)
  ultimately show ?thesis
    using join [of ?words "itoa (hReqs h) @ [Quote, LF]"] by (simp add: itoa_no_blank)
qed

text \<open>What the reader knows after the line.\<close>

definition told_health :: "health \<Rightarrow> health_reader \<Rightarrow> health_reader" where
  "told_health h r = r\<lparr>lag := Duration_String (hLag h), cnt_waiting := hWaiting h, cnt_working := hWorking h,
     cnt_sleeping := hSleeping h, cnt_busy := hBusy h\<rparr>"

lemma parse_health:
  assumes "no_blank ts" "no_blank level"
  shows "parse_line (log_line ts level (health_text h) @ [LF]) r = told_health h r"
  by (simp add: parse_line_def health_words [OF assms] set_number_def part_def py_int_itoa told_health_def
      butlast_append Let_def)

text \<open>The reader puts a line together from the portions it comes in.\<close>

lemma read_portions:
  assumes "concat ps = l @ [LF]" "LF \<notin> set l" "[] \<notin> set ps"
  shows "read_lines ps r =
    (let line = partial_buffer r @ l @ [LF]; r = r\<lparr>partial_buffer := []\<rparr>
     in if Contains line ''Workers: '' then parse_line line r else r)"
  using assms
proof (induction ps arbitrary: l r)
  case (Cons p ps)
  show ?case
  proof (cases ps)
    case Nil
    then show ?thesis using Cons.prems(1) by (simp add: Let_def)
  next
    case (Cons q qs)
    then have "concat ps \<noteq> []" using Cons.prems(3) by auto
    then obtain m where m: "concat ps = m @ [LF]" "l = p @ m"
      using Cons.prems(1) by (cases "concat ps" rule: rev_cases) auto
    have p: "p \<noteq> []" "LF \<notin> set p" using Cons.prems(2,3) m(2) by auto
    then have "last p \<noteq> LF" using last_in_set [OF p(1)] by metis
    with p show ?thesis
      using Cons.IH [OF m(1), of "r\<lparr>partial_buffer := partial_buffer r @ p\<rparr>"] Cons.prems(2,3) m(2) by (simp add: Let_def)
  qed
qed simp

lemma read_health:
  assumes "no_blank ts" "no_blank level" "concat ps = log_line ts level (health_text h) @ [LF]" "[] \<notin> set ps"
    "partial_buffer r = []"
  shows "read_lines ps r = told_health h r"
proof -
  have "LF \<notin> set (Duration_String d)" for d
  proof -
    have "LF \<notin> set (digits n)" for n by (simp add: digits_free)
    moreover have "LF \<notin> set (frac u p)" for u p
      using padded_ascii [of p "u mod 10 ^ p"] by (auto simp: frac_def list_all_iff dest!: set_dropWhileD bspec)
    ultimately show ?thesis by (auto simp: Duration_String_def Let_def with_unit_def micro_def)
  qed
  then have "LF \<notin> set (log_line ts level (health_text h))"
    using assms(1,2) by (simp add: log_line_def health_text_def no_blank_def itoa_no_blank)
  moreover have "Contains (log_line ts level (health_text h) @ [LF]) ''Workers: ''"
  proof -
    have "\<exists>a b. log_line ts level (health_text h) @ [LF] = a @ ''Workers: '' @ b"
      by (rule exI [of _ "ts @ '' '' @ level @ '' msg='' @ [Quote]"]) (simp add: log_line_def health_text_def)
    then show ?thesis using Contains_append by metis
  qed
  ultimately have "read_lines ps r = told_health h (r\<lparr>partial_buffer := []\<rparr>)"
    using read_portions [OF assms(3) _ assms(4), of r] parse_health [OF assms(1,2)] assms(5) by (simp add: Let_def)
  also have "r\<lparr>partial_buffer := []\<rparr> = r" using assms(5) by (cases r) simp
  finally show ?thesis .
qed

section \<open>Properties\<close>



end
