(* ===== verification/Output_System.thy ===== *)
theory Output_System
  imports Output_Sinks
begin

text \<open>
  The goroutines around \<open>Output\<close> of \<open>pkg/core/output.go\<close>: the workers in \<open>Push\<close>, \<open>background\<close>, which
  takes one result after the other from the channel and hands it to the outputs in turn, and the
  main goroutine in \<open>Close\<close>.  The refinement to \<open>run_output\<close>, where the results come one after the
  other and \<open>Close\<close> last, and what \<open>Close\<close> costs when it does not wait for \<open>background\<close>.
\<close>

section \<open>The system\<close>

text \<open>
  \<open>inHand\<close> is the result that \<open>background\<close> holds, as the outputs have filled it in, and the number of
  outputs that have had it.  The channel has no place, so \<open>Push\<close> ends when \<open>background\<close> receives:
  \<open>received\<close> are the results of the calls of \<open>Push\<close> that have returned, in their order.  \<open>closedOuts\<close> are the
  outputs that are closed, as \<open>Close\<close> left them: no byte goes to their files any more.  \<open>broken\<close> is
  the panic of an output, which ends the process.
\<close>

record output_sys =
  opened :: Output
  inHand :: "(OutputItem \<times> nat) option"
  received :: "OutputItem list"
  closedOuts :: "SingleOut list"
  broken :: "panic option"

definition output_start :: "Output \<Rightarrow> output_sys" where
  "output_start out = \<lparr>opened = out, inHand = None, received = [], closedOuts = [], broken = None\<rparr>"

text \<open>
  The actions: a \<open>Push\<close> that meets the receive of \<open>background\<close>, the push to the next output, the end of
  the loop over the outputs, and \<open>Close\<close> of the next output.  An output that is closed still fills in
  the item and takes it into its buffer; a buffer that is full then makes it panic, in a process that
  is about to end, which is left out.
\<close>

datatype output_act = TakeResult OutputItem | PushNext | EndPush | CloseNext

definition push_nth :: "Output \<Rightarrow> OutputItem \<Rightarrow> nat \<Rightarrow> (Output \<times> OutputItem) go" where
  "push_nth out i n =
     go_bind (push_out (strIndex out) i (Outs out ! n)) (\<lambda>(p, i', b).
       Inr (\<lparr>Outs = (Outs out)[n := b], strIndex = p\<rparr>, i'))"

fun output_act_step :: "output_act \<Rightarrow> output_sys \<Rightarrow> output_sys option" where
  "output_act_step (TakeResult i) s = guard (inHand s = None) (s\<lparr>inHand := Some (i, 0), received := received s @ [i]\<rparr>)"
| "output_act_step PushNext s =
     (case inHand s of
        None \<Rightarrow> None
      | Some (i, n) \<Rightarrow>
          if n < length (Outs (opened s))
          then Some (case push_nth (opened s) i n of
                       Inl e \<Rightarrow> s\<lparr>broken := Some e\<rparr>
                     | Inr (out, i') \<Rightarrow> s\<lparr>opened := out, inHand := Some (i', Suc n)\<rparr>)
          else None)"
| "output_act_step EndPush s =
     (case inHand s of
        None \<Rightarrow> None
      | Some (i, n) \<Rightarrow> guard (n = length (Outs (opened s))) (s\<lparr>inHand := None\<rparr>))"
| "output_act_step CloseNext s =
     guard (length (closedOuts s) < length (Outs (opened s)))
       (s\<lparr>closedOuts := closedOuts s @ [close_out (Outs (opened s) ! length (closedOuts s))]\<rparr>)"

definition output_step :: "output_act \<Rightarrow> output_sys \<Rightarrow> output_sys option" where
  "output_step a s = (if broken s = None then output_act_step a s else None)"

section \<open>What the goroutine has done\<close>

lemma push_all_append:
  "push_all p i (os @ os') =
     go_bind (push_all p i os) (\<lambda>(p, i, bs).
     go_bind (push_all p i os') (\<lambda>(p, i, bs'). Inr (p, i, bs @ bs')))"
  by (induction os arbitrary: p i) (auto simp: go_bind_def split: sum.splits)

lemma push_all_length: "push_all p i os = Inr (p', i', os') \<Longrightarrow> length os' = length os"
  by (induction os arbitrary: p i os') (auto simp: go_convs)

lemma background_length: "background out i = Inr out' \<Longrightarrow> length (Outs out') = length (Outs out)"
  by (auto simp: background_def go_convs dest: push_all_length)

lemma fold_background_length:
  "go_fold background out items = Inr out' \<Longrightarrow> length (Outs out') = length (Outs out)"
  by (induction items arbitrary: out) (auto simp: go_convs dest: background_length)

text \<open>
  The results but the one in hand have been through \<open>background\<close> one after the other; the first
  outputs have had the one in hand as well, and the others are as they were.
\<close>

definition settled :: "output_sys \<Rightarrow> OutputItem list" where
  "settled s = (if inHand s = None then received s else butlast (received s))"

definition half_pushed :: "Output \<Rightarrow> OutputItem \<Rightarrow> Output \<Rightarrow> OutputItem \<Rightarrow> nat \<Rightarrow> bool" where
  "half_pushed out i out' i' n =
     (n \<le> length (Outs out) \<and>
      push_all (strIndex out) i (take n (Outs out)) = Inr (strIndex out', i', take n (Outs out')) \<and>
      drop n (Outs out') = drop n (Outs out))"

definition output_ok :: "Output \<Rightarrow> output_sys \<Rightarrow> bool" where
  "output_ok out0 s =
     ((broken s \<noteq> None \<longrightarrow> inHand s \<noteq> None) \<and>
      (\<exists>out. go_fold background out0 (settled s) = Inr out \<and>
       (case inHand s of
          None \<Rightarrow> opened s = out
        | Some (i', n) \<Rightarrow> received s \<noteq> [] \<and> half_pushed out (last (received s)) (opened s) i' n)))"

lemma half_pushed_start: "half_pushed out i out i 0"
  by (simp add: half_pushed_def)

lemma half_pushed_next:
  assumes "half_pushed out i out1 i1 n" "n < length (Outs out1)" "push_nth out1 i1 n = Inr (out2, i2)"
  shows "half_pushed out i out2 i2 (Suc n)"
proof -
  obtain p b where push: "push_out (strIndex out1) i1 (Outs out1 ! n) = Inr (p, i2, b)"
    and out2: "out2 = \<lparr>Outs = (Outs out1)[n := b], strIndex = p\<rparr>"
    using assms(3) by (auto simp: push_nth_def go_convs)
  have rest: "drop n (Outs out1) = drop n (Outs out)" and
    first: "push_all (strIndex out) i (take n (Outs out)) = Inr (strIndex out1, i1, take n (Outs out1))"
    using assms(1) by (simp_all add: half_pushed_def)
  have n: "n < length (Outs out)"
    using arg_cong [OF rest, of length] assms(2) by simp
  have nth: "Outs out1 ! n = Outs out ! n"
    using arg_cong [OF rest, of hd] n assms(2) by (simp add: hd_drop_conv_nth)
  have "drop (Suc n) (Outs out1) = drop (Suc n) (Outs out)"
    using arg_cong [OF rest, of tl] by (simp add: drop_Suc tl_drop)
  then show ?thesis
    using n assms(2) first push
    by (simp add: half_pushed_def out2 take_Suc_conv_app_nth push_all_append nth take_update_cancel)
qed

lemma half_pushed_end:
  assumes "half_pushed out i out' i' n" "n = length (Outs out')"
  shows "background out i = Inr out'"
proof -
  have "n = length (Outs out)"
    using assms arg_cong [of "drop n (Outs out')" "drop n (Outs out)" length] by (auto simp: half_pushed_def)
  then show ?thesis
    using assms by (simp add: half_pushed_def background_def)
qed

lemma output_ok_start: "output_ok out0 (output_start out0)"
  by (simp add: output_ok_def output_start_def settled_def)

lemma output_ok_step:
  assumes "output_ok out0 s" "output_step a s = Some s'"
  shows "output_ok out0 s'"
proof -
  obtain out where out: "go_fold background out0 (settled s) = Inr out"
    and hand: "case inHand s of None \<Rightarrow> opened s = out
      | Some (i', n) \<Rightarrow> received s \<noteq> [] \<and> half_pushed out (last (received s)) (opened s) i' n"
    using assms(1) by (auto simp: output_ok_def)
  have act: "output_act_step a s = Some s'" "broken s = None"
    using assms(2) by (simp_all add: output_step_def split: if_splits)
  show ?thesis
  proof (cases a)
    case (TakeResult i)
    then show ?thesis
      using act out hand half_pushed_start by (auto simp: output_ok_def settled_def)
  next
    case PushNext
    then obtain i n where i: "inHand s = Some (i, n)" "n < length (Outs (opened s))"
      using act by (auto split: option.splits if_splits)
    show ?thesis
    proof (cases "push_nth (opened s) i n")
      case (Inr r)
      obtain o' i' where r: "r = (o', i')" by (cases r)
      have "half_pushed out (last (received s)) o' i' (Suc n)"
        using hand i Inr by (auto simp: r intro: half_pushed_next)
      then show ?thesis
        using act out hand i Inr by (auto simp: output_ok_def settled_def PushNext r)
    qed (use act out hand i in \<open>auto simp: output_ok_def settled_def PushNext\<close>)
  next
    case EndPush
    then obtain i' n where s: "inHand s = Some (i', n)" "n = length (Outs (opened s))" "s' = s\<lparr>inHand := None\<rparr>"
      using act by (auto split: option.splits)
    then have "background out (last (received s)) = Inr (opened s)" "received s \<noteq> []"
      using hand half_pushed_end by auto
    moreover from this have "received s = settled s @ [last (received s)]"
      by (simp add: settled_def s(1))
    ultimately have "go_fold background out0 (received s) = Inr (opened s)"
      by (metis out go_fold_append go_bind_simps(2) go_fold.simps)
    then show ?thesis
      using act(2) by (simp add: output_ok_def settled_def s(3))
  next
    case CloseNext
    then show ?thesis
      using act out hand by (auto simp: output_ok_def settled_def)
  qed
qed

interpretation outputs: invariant_of output_step "\<lambda>_. True" "output_ok out0"
  by unfold_locales (rule output_ok_step)

lemma output_ok_reachable: "reachable output_step (output_start out0) s \<Longrightarrow> output_ok out0 s"
  using outputs.reachable_holds [OF _ output_ok_start] by blast

section \<open>Closing\<close>

text \<open>The results pushed in a run, in the order in which the calls of \<open>Push\<close> return.\<close>

fun pushed :: "output_act list \<Rightarrow> OutputItem list" where
  "pushed [] = []"
| "pushed (TakeResult i # as) = i # pushed as"
| "pushed (_ # as) = pushed as"

lemma output_step_received:
  "output_step a s = Some s' \<Longrightarrow> received s' = received s @ pushed [a]"
  by (cases a) (auto simp: output_step_def split: option.splits if_splits sum.splits)

lemma pushed_Cons: "pushed (a # as) = pushed [a] @ pushed as"
  by (cases a) simp_all

lemma run_received: "run_steps output_step as s = Some s' \<Longrightarrow> received s' = received s @ pushed as"
proof (induction as arbitrary: s)
  case (Cons a as)
  then obtain s1 where "output_step a s = Some s1" "run_steps output_step as s1 = Some s'"
    by (auto split: bind_splits)
  with Cons.IH [of s1] show ?case
    by (simp add: output_step_received pushed_Cons [of a as])
qed simp

lemma close_steps:
  assumes "broken s = None" "k + length (closedOuts s) = length (Outs (opened s))"
  shows "run_steps output_step (replicate k CloseNext) s
    = Some (s\<lparr>closedOuts := closedOuts s @ map close_out (drop (length (closedOuts s)) (Outs (opened s)))\<rparr>)"
  using assms
proof (induction k arbitrary: s)
  case (Suc k)
  let ?n = "length (closedOuts s)"
  let ?s = "s\<lparr>closedOuts := closedOuts s @ [close_out (Outs (opened s) ! ?n)]\<rparr>"
  have n: "?n < length (Outs (opened s))" using Suc.prems by simp
  then have "output_step CloseNext s = Some ?s"
    using Suc.prems(1) by (simp add: output_step_def)
  with Suc.IH [of ?s] Suc.prems show ?case
    by (simp add: Cons_nth_drop_Suc [OF n, symmetric])
qed simp

lemma closing_completes:
  assumes "reachable output_step (output_start out0) s" "inHand s = None" "closedOuts s = []"
  shows "\<exists>out s'. run_output out0 (received s) = Inr out
    \<and> run_steps output_step (replicate (length (Outs out0)) CloseNext) s = Some s'
    \<and> closedOuts s' = Outs out"
proof -
  have "output_ok out0 s"
    using output_ok_reachable [OF assms(1)] .
  then have fold: "go_fold background out0 (received s) = Inr (opened s)" and "broken s = None"
    using assms(2) by (auto simp: output_ok_def settled_def)
  moreover have "length (Outs (opened s)) = length (Outs out0)"
    using fold_background_length [OF fold] .
  ultimately show ?thesis
    using close_steps [of s "length (Outs out0)"] assms(3) by (simp add: run_output_def Close_def)
qed

section \<open>Properties\<close>

text \<open>
  When \<open>background\<close> is waiting for the next result as \<open>Close\<close> begins, all the goroutines
  together do what the sequential run does: the outputs are closed with what the results pushed,
  one after the other in the order in which \<open>Push\<close> returned, leave in them, however the pushes and the
  outputs have interleaved.
\<close>

theorem output_refines_run:
  assumes "run_steps output_step as (output_start out0) = Some s" "inHand s = None" "closedOuts s = []"
  shows "\<exists>out s'. run_output out0 (pushed as) = Inr out
    \<and> run_steps output_step (replicate (length (Outs out0)) CloseNext) s = Some s'
    \<and> closedOuts s' = Outs out"
  using closing_completes [OF run_reachable [OF assms(1) reachable.start] assms(2,3)] run_received [OF assms(1)]
  by (simp add: output_start_def)

definition ldjson_output :: Output where
  "ldjson_output = \<lparr>Outs = [LDJSONOut new_bufw], strIndex = None\<rparr>"

lemma ldjson_take:
  "run_steps output_step [TakeResult i] (output_start ldjson_output)
    = Some \<lparr>opened = ldjson_output, inHand = Some (i, 0), received = [i], closedOuts = [], broken = None\<rparr>"
  by (simp add: output_step_def output_start_def guard_def)

theorem output_refines_run_witness:
  "\<exists>out. run_output ldjson_output [example_result ''x''] = Inr out
    \<and> (\<exists>s s'. run_steps output_step [TakeResult (example_result ''x''), PushNext, EndPush] (output_start ldjson_output) = Some s
      \<and> run_steps output_step [CloseNext] s = Some s' \<and> closedOuts s' = Outs out)"
proof -
  let ?as = "[TakeResult (example_result ''x''), PushNext, EndPush]"
  have "push_ldjson None (example_result ''x'') new_bufw
      = Inr (example_result ''x'', bw_write new_bufw (item_json (example_result ''x'') @ [CR, LF]))"
    by (simp add: push_ldjson_def StringFriendly_def example_result_def)
  then obtain s where s: "run_steps output_step ?as (output_start ldjson_output) = Some s"
    "inHand s = None" "closedOuts s = []"
    by (simp add: output_step_def output_start_def ldjson_output_def push_nth_def guard_def)
  from output_refines_run [OF this] show ?thesis
    using s(1) by (auto simp: ldjson_output_def)
qed

text \<open>
  C14: what \<open>Close\<close> finds in an output when it does not find \<open>background\<close> waiting: all results whose
  \<open>Push\<close> has returned but the last have been through all the outputs; the last is missing from those
  that \<open>background\<close> has not come to yet, and, as they are closed now, from their files for ever.
\<close>

theorem close_loses_result_in_hand:
  assumes "reachable output_step (output_start out0) s" "inHand s = Some (i, n)"
    "output_step CloseNext s = Some s'"
  shows "\<exists>out p bs. go_fold background out0 (butlast (received s)) = Inr out
    \<and> push_all (strIndex out) (last (received s)) (take n (Outs out)) = Inr (p, i, bs)
    \<and> closedOuts s' = closedOuts s @
        [close_out ((bs @ drop n (Outs out)) ! length (closedOuts s))]"
proof -
  obtain out where out: "go_fold background out0 (butlast (received s)) = Inr out"
    and half: "half_pushed out (last (received s)) (opened s) i n"
    using output_ok_reachable [OF assms(1)] assms(2) by (auto simp: output_ok_def settled_def)
  have "Outs (opened s) = take n (Outs (opened s)) @ drop n (Outs out)"
    using half append_take_drop_id [of n "Outs (opened s)"] by (simp add: half_pushed_def)
  moreover have "closedOuts s' = closedOuts s @ [close_out (Outs (opened s) ! length (closedOuts s))]"
    using assms(3) by (auto simp: output_step_def split: if_splits)
  ultimately show ?thesis
    using out half by (auto simp: half_pushed_def)
qed

theorem close_loses_result_in_hand_witness:
  "\<exists>s s'. run_steps output_step [TakeResult (example_result ''x'')] (output_start ldjson_output) = Some s
    \<and> output_step CloseNext s = Some s' \<and> received s = [example_result ''x'']
    \<and> closedOuts s' = [LDJSONOut (Flush new_bufw)]"
proof -
  let ?s = "\<lparr>opened = ldjson_output, inHand = Some (example_result ''x'', 0), received = [example_result ''x''],
    closedOuts = [], broken = None\<rparr>"
  have run: "run_steps output_step [TakeResult (example_result ''x'')] (output_start ldjson_output) = Some ?s"
    by (rule ldjson_take)
  obtain s' where s': "output_step CloseNext ?s = Some s'"
    by (simp add: output_step_def ldjson_output_def)
  from close_loses_result_in_hand [OF run_reachable [OF run reachable.start] _ s'] show ?thesis
    using run s' by (auto simp: ldjson_output_def)
qed

end
