(* ===== verification/Test_System.thy ===== *)
theory Test_System
  imports Worker_System Worker_Iteration Output_System
begin

text \<open>
  A whole test: the workers of \<open>Worker_System\<close>, now with the items, values and results they carry,
  the input they share and the goroutines of \<open>Output_System\<close>, interleaved in any way.  The lemmas say
  that each worker does nothing but run \<open>Iteration\<close> on its items, one after the other, and that the
  system is a run of each of the two it is made of.
\<close>

section \<open>The system\<close>

text \<open>
  What a worker carries besides its control point: the item of the iteration, the result between
  \<open>Punch\<close> and \<open>Push\<close>, its values, and, with \<open>enableregexes\<close>, what its own input has still to give.
\<close>

record desk =
  onDesk :: "PayloadItem option"
  atHand :: "OutputItem option"
  deskVals :: ValMap
  ownRead :: "PayloadItem list"

definition new_desk :: "ValMap \<Rightarrow> PayloadItem list \<Rightarrow> desk" where
  "new_desk vals items = \<lparr>onDesk = None, atHand = None, deskVals = vals, ownRead = items\<rparr>"

text \<open>
  \<open>toRead\<close> is what the shared input has still to give; \<open>startRead\<close> what an input of its own gives a new
  worker.  \<open>served\<close> and \<open>pushes\<close> record which worker received which item and pushed which result, in the
  order of the receives and of the pushes.  \<open>dead\<close> is the panic of a worker, which ends the process.
\<close>

record test =
  ctl :: sys
  desks :: "desk list"
  startVals :: ValMap
  startRead :: "PayloadItem list"
  toRead :: "PayloadItem list"
  rexes :: cache
  outSys :: output_sys
  served :: "(nat \<times> PayloadItem) list"
  pushes :: "(nat \<times> OutputItem) list"
  dead :: "panic option"

definition start_test :: "bool \<Rightarrow> bool \<Rightarrow> nat \<Rightarrow> bool \<Rightarrow> ValMap \<Rightarrow> PayloadItem list \<Rightarrow> cache \<Rightarrow> Output \<Rightarrow> test" where
  "start_test cl ow offs shut vals items c out =
     \<lparr>ctl = start_sys cl ow offs (length items) shut, desks = [], startVals = vals,
      startRead = (if ow then items else []), toRead = (if ow then [] else items), rexes = c,
      outSys = output_start out, served = [], pushes = [], dead = None\<rparr>"

text \<open>
  The actions are those of the workers, the workload and the status, with what the environment
  answers in them, those of the outputs, and the reader of the input, which shares the cache of
  expressions.  \<open>background\<close> receives a result when a worker pushes it, in \<open>Record\<close>, and the main
  goroutine closes the outputs when the workload has told all workers to stop.
\<close>

datatype test_act = Work act iter_env | Out output_act | ReaderCaches cache

text \<open>
  What the actions of the \<open>k\<close>-th worker do to its desk; \<open>busy_now\<close> is the count as \<open>DoBusy\<close> reads it.
\<close>

definition on_item :: "desk \<Rightarrow> (PayloadItem \<Rightarrow> 'a go) \<Rightarrow> 'a go" where
  "on_item w f = (case onDesk w of None \<Rightarrow> Inl NilDeref | Some i \<Rightarrow> f i)"

definition on_result :: "desk \<Rightarrow> (OutputItem \<Rightarrow> 'a go) \<Rightarrow> 'a go" where
  "on_result w f = (case atHand w of None \<Rightarrow> Inl NilDeref | Some r \<Rightarrow> f r)"

fun desk_work :: "iter_env \<Rightarrow> int \<Rightarrow> act \<Rightarrow> cache \<Rightarrow> desk \<Rightarrow> (cache \<times> desk) go" where
  "desk_work env b (EndWaiting k) c w =
     on_item w (\<lambda>i. go_bind (ReplaceValues (pkg env) (deskVals w) c i) (\<lambda>(c, i). Inr (c, w\<lparr>onDesk := Some i\<rparr>)))"
| "desk_work env b (EnterBusy k) c w =
     on_item w (\<lambda>i. go_bind (ResolveStrings i) (\<lambda>i. Inr (c, w\<lparr>onDesk := Some i\<rparr>)))"
| "desk_work env b (Skip k) c w = Inr (c, w\<lparr>onDesk := None\<rparr>)"
| "desk_work env b (Punch k) c w =
     on_item w (\<lambda>i. case nib env i of (i, r) \<Rightarrow> Inr (c, w\<lparr>onDesk := Some i, atHand := Some r\<rparr>))"
| "desk_work env b (EndBusy k) c w =
     on_item w (\<lambda>i. on_result w (\<lambda>r.
       Inr (c, w\<lparr>atHand := Some (fill_result (int (Suc k)) (startUnix env) b i r)\<rparr>)))"
| "desk_work env b a c w = Inr (c, w)"

text \<open>The end of \<open>DoBusy\<close> up to the push.\<close>

definition finished :: "iter_env \<Rightarrow> desk \<Rightarrow> (desk \<times> OutputItem) go" where
  "finished env w =
     on_item w (\<lambda>i. on_result w (\<lambda>r.
       go_bind (finish_result (draw env) (order env (RegexOut i)) i (deskVals w) r) (\<lambda>(vals, r).
         Inr (w\<lparr>onDesk := None, atHand := None, deskVals := vals\<rparr>, r))))"

definition set_desk :: "nat \<Rightarrow> desk \<Rightarrow> test \<Rightarrow> test" where
  "set_desk k w t = t\<lparr>desks := (desks t)[k := w]\<rparr>"

text \<open>
  \<open>Record\<close> is the rest of \<open>DoBusy\<close>, with \<open>Push\<close>, and the count of the lag after it: extraction and
  assertions touch the worker's own data only, and \<open>StartMissed\<close> the status only, so that nothing
  another goroutine does comes between them to any effect.
\<close>

fun work_step :: "act \<Rightarrow> iter_env \<Rightarrow> sys \<Rightarrow> test \<Rightarrow> test option" where
  "work_step Spawn env s t = Some (t\<lparr>ctl := s, desks := desks t @ [new_desk (startVals t) (startRead t)]\<rparr>)"
| "work_step (TakeItem k) env s t =
     (case (if perWorker s = None then toRead t else ownRead (desks t ! k)) of
        [] \<Rightarrow> None
      | i # rest \<Rightarrow>
          Some (if perWorker s = None
                then set_desk k ((desks t ! k)\<lparr>onDesk := Some i\<rparr>)
                       (t\<lparr>ctl := s, toRead := rest, served := served t @ [(k, i)]\<rparr>)
                else set_desk k ((desks t ! k)\<lparr>onDesk := Some i, ownRead := rest\<rparr>)
                       (t\<lparr>ctl := s, served := served t @ [(k, i)]\<rparr>)))"
| "work_step (Record k d) env s t =
     (case finished env (desks t ! k) of
        Inl e \<Rightarrow> Some (t\<lparr>dead := Some e\<rparr>)
      | Inr (w, r) \<Rightarrow>
          map_option (\<lambda>o'. set_desk k w (t\<lparr>ctl := s, outSys := o', pushes := pushes t @ [(k, r)]\<rparr>))
            (output_step (TakeResult r) (outSys t)))"
| "work_step a env s t =
     (case worker_of a of
        None \<Rightarrow> Some (t\<lparr>ctl := s\<rparr>)
      | Some k \<Rightarrow>
          Some (case desk_work env (busy (status (ctl t))) a (rexes t) (desks t ! k) of
                  Inl e \<Rightarrow> t\<lparr>dead := Some e\<rparr>
                | Inr (c, w) \<Rightarrow> set_desk k w (t\<lparr>ctl := s, rexes := c\<rparr>)))"

fun test_act_step :: "test_act \<Rightarrow> test \<Rightarrow> test option" where
  "test_act_step (Work a env) t = Option.bind (exec a (ctl t)) (\<lambda>s. work_step a env s t)"
| "test_act_step (Out (TakeResult r)) t = None"
| "test_act_step (Out CloseNext) t =
     (if all_told (ctl t) then map_option (\<lambda>o'. t\<lparr>outSys := o'\<rparr>) (output_step CloseNext (outSys t)) else None)"
| "test_act_step (Out a) t = map_option (\<lambda>o'. t\<lparr>outSys := o'\<rparr>) (output_step a (outSys t))"
| "test_act_step (ReaderCaches c) t = Some (t\<lparr>rexes := c\<rparr>)"

definition test_step :: "test_act \<Rightarrow> test \<Rightarrow> test option" where
  "test_step a t = (if dead t = None \<and> broken (outSys t) = None then test_act_step a t else None)"

section \<open>What each worker has done\<close>

text \<open>
  The specification of a worker: \<open>Iteration\<close> on its items one after the other, each with the values
  the one before left.  \<open>R\<close>, \<open>N\<close> and \<open>W\<close> are what is known of the regular expressions, of the nibs and
  of the orders in which maps of extractors are walked, \<open>D\<close> whether workers are stopped with an item
  in hand, which they then drop.
\<close>

definition env_ok ::
  "(regexp_pkg \<Rightarrow> bool) \<Rightarrow> ((PayloadItem \<Rightarrow> PayloadItem \<times> OutputItem) \<Rightarrow> bool)
   \<Rightarrow> (((string \<Rightarrow> ExtractRegex option) \<Rightarrow> (string \<times> ExtractRegex) list) \<Rightarrow> bool) \<Rightarrow> iter_env \<Rightarrow> bool" where
  "env_ok R N W env = (R (pkg env) \<and> N (nib env) \<and> W (order env))"

inductive serves for R N W and D :: bool and k :: nat and vals0 :: ValMap where
  no_item: "serves R N W D k vals0 [] vals0 []"
| sent: "serves R N W D k vals0 is vals rs \<Longrightarrow> env_ok R N W env \<Longrightarrow> workerIndex env = int (Suc k)
    \<Longrightarrow> Iteration env c vals i = Inr (c', vals', Some r) \<Longrightarrow> serves R N W D k vals0 (is @ [i]) vals' (rs @ [r])"
| dropped: "D \<Longrightarrow> serves R N W D k vals0 is vals rs \<Longrightarrow> env_ok R N W env \<Longrightarrow> workerIndex env = int (Suc k)
    \<Longrightarrow> Iteration env c vals i = Inr (c', vals', None) \<Longrightarrow> serves R N W D k vals0 (is @ [i]) vals' rs"

definition act_ok where
  "act_ok R N W D a = (case a of Work b env \<Rightarrow> env_ok R N W env \<and> (D \<or> (\<forall>k. b \<noteq> Skip k)) | _ \<Rightarrow> True)"

definition idle :: "pc \<Rightarrow> bool" where
  "idle c = (c \<in> {Top, AwaitOffset, AwaitItem, Stopped, Exhausted, Recorded})"

text \<open>What is on the desk of a worker that has come to \<open>c\<close> with the item \<open>i\<close>.\<close>

definition stage_ok where
  "stage_ok R N W D k c i w =
     (if c = HaveItem then onDesk w = Some i
      else \<exists>rg ca ca' j. R rg \<and> ReplaceValues rg (deskVals w) ca i = Inr (ca', j) \<and>
        (if c \<in> {LeftWaiting, Working, Sleeping, Awake} then onDesk w = Some j
         else \<exists>j'. ResolveStrings j = Inr j' \<and>
           (if c = Busy then onDesk w = Some j'
            else \<exists>send h r. N send \<and> send j' = (h, r) \<and> onDesk w = Some h \<and>
              (if c = Punched then atHand w = Some r
               else \<exists>u b. atHand w = Some (fill_result (int (Suc k)) u b h r)))))"

definition desk_ok where
  "desk_ok R N W D k vals0 c w its rs =
     (if idle c then serves R N W D k vals0 its (deskVals w) rs
      else \<exists>is i. its = is @ [i] \<and> serves R N W D k vals0 is (deskVals w) rs \<and> stage_ok R N W D k c i w)"

lemma desk_work_ok:
  assumes "desk_ok R N W D k vals0 (fst (move a)) w its rs" "worker_of a = Some k" "env_ok R N W env"
    "desk_work env b a c w = Inr (c', w')" "\<forall>d. a \<noteq> Record k d" "a \<noteq> TakeItem k"
    "D \<or> (\<forall>k. a \<noteq> Skip k)"
  shows "desk_ok R N W D k vals0 (snd (move a)) w' its rs"
proof (cases a)
  case (Skip j)
  obtain js i rg ca ca' i' where it: "its = js @ [i]" "serves R N W D k vals0 js (deskVals w) rs"
      "ReplaceValues rg (deskVals w) ca i = Inr (ca', i')" "R rg"
    using assms(1) Skip by (auto simp: desk_ok_def idle_def stage_ok_def)
  have "Iteration (env\<lparr>pkg := rg, stopFlag := True, workerIndex := int (Suc k)\<rparr>) ca (deskVals w) i = Inr (ca', deskVals w, None)"
    using it(3) assms(3) by (simp add: Iteration_def env_ok_def)
  from serves.dropped [OF _ it(2) _ _ this] it(1,4) show ?thesis
    using assms(3,4,7) Skip by (auto simp: desk_ok_def idle_def env_ok_def)
next
  case (EndBusy j)
  then show ?thesis using assms
    by (auto simp: desk_ok_def idle_def stage_ok_def on_item_def on_result_def env_ok_def) blast
qed (use assms in \<open>auto simp: desk_ok_def idle_def stage_ok_def on_item_def env_ok_def go_convs
      split: prod.splits\<close>, blast+)

lemma desk_work_own: "desk_work env b a c w = Inr (c', w') \<Longrightarrow> ownRead w' = ownRead w"
  by (cases a) (auto simp: on_item_def on_result_def go_convs split: option.splits prod.splits)

lemma finished_own: "finished env w = Inr (w', r) \<Longrightarrow> ownRead w' = ownRead w"
  by (auto simp: finished_def on_item_def on_result_def go_convs split: option.splits)

lemma desk_take_ok:
  assumes "desk_ok R N W D k vals0 AwaitItem w its rs"
  shows "desk_ok R N W D k vals0 HaveItem (w\<lparr>onDesk := Some i\<rparr>) (its @ [i]) rs"
    "desk_ok R N W D k vals0 HaveItem (w\<lparr>onDesk := Some i, ownRead := rest\<rparr>) (its @ [i]) rs"
  using assms by (simp_all add: desk_ok_def idle_def stage_ok_def)

lemma desk_record_ok:
  assumes "desk_ok R N W D k vals0 LeftBusy w its rs" "env_ok R N W env" "finished env w = Inr (w', r)"
  shows "desk_ok R N W D k vals0 Recorded w' its (rs @ [r])"
proof -
  obtain js i rg ca ca' j j' send h r0 u b where it: "its = js @ [i]" "serves R N W D k vals0 js (deskVals w) rs"
      "ReplaceValues rg (deskVals w) ca i = Inr (ca', j)" "ResolveStrings j = Inr j'" "N send" "send j' = (h, r0)"
      "onDesk w = Some h" "atHand w = Some (fill_result (int (Suc k)) u b h r0)" "R rg"
    using assms(1) by (auto simp: desk_ok_def idle_def stage_ok_def)
  obtain vals' where fin: "w' = w\<lparr>onDesk := None, atHand := None, deskVals := vals'\<rparr>" "finish_result (draw env) (order env (RegexOut h)) h (deskVals w)
      (fill_result (int (Suc k)) u b h r0) = Inr (vals', r)"
    using assms(3) it(7,8) by (auto simp: finished_def on_item_def on_result_def go_convs)
  let ?env = "env\<lparr>pkg := rg, nib := send, stopFlag := False, workerIndex := int (Suc k), startUnix := u, busyNow := b\<rparr>"
  have "Iteration ?env ca (deskVals w) i = Inr (ca', vals', Some r)"
    using it(3,4,6) assms(2) fin(2) by (simp add: Iteration_def DoBusy_def env_ok_def)
  from serves.sent [OF it(2) _ _ this] assms(2) it(1,5,9) show ?thesis
    by (simp add: desk_ok_def idle_def env_ok_def fin(1))
qed

section \<open>The invariant of the test\<close>

definition of_worker :: "nat \<Rightarrow> (nat \<times> 'a) list \<Rightarrow> 'a list" where
  "of_worker k xs = map snd (filter (\<lambda>x. fst x = k) xs)"

lemma of_worker_append [simp]:
  "of_worker k (xs @ [(j, x)]) = (if j = k then of_worker k xs @ [x] else of_worker k xs)"
  by (simp add: of_worker_def)

definition test_ok where
  "test_ok R N W D ow s0 out0 vals0 items t =
     (reachable exec s0 (ctl t) \<and> reachable output_step (output_start out0) (outSys t) \<and>
      startVals t = vals0 \<and> length (desks t) = length (pcs (ctl t)) \<and>
      map snd (pushes t) = received (outSys t) \<and> perWorker (ctl t) = (if ow then Some (length items) else None) \<and>
      (if ow then startRead t = items else map snd (served t) @ toRead t = items) \<and>
      (ow \<longrightarrow> (\<forall>k < length (desks t). of_worker k (served t) @ ownRead (desks t ! k) = items)) \<and>
      (\<forall>k < length (desks t). desk_ok R N W D k vals0 (pcs (ctl t) ! k) (desks t ! k)
         (of_worker k (served t)) (of_worker k (pushes t))) \<and>
      list_all (\<lambda>x. fst x < length (desks t)) (served t) \<and> list_all (\<lambda>x. fst x < length (desks t)) (pushes t))"

lemma reachable_output:
  "output_step a s = Some s' \<Longrightarrow> reachable output_step s0 s \<Longrightarrow> reachable output_step s0 s'"
  by (rule reachable.step)

lemma exec_perWorker: "exec a s = Some s' \<Longrightarrow> perWorker s' = perWorker s"
  by (cases a) (auto simp: exec_def split: if_splits)

lemma of_worker_none: "list_all (\<lambda>x. fst x < k) xs \<Longrightarrow> of_worker k xs = []"
  by (auto simp: of_worker_def filter_empty_conv list_all_iff)

lemma work_step_other:
  assumes "a \<noteq> Spawn" "\<forall>k. a \<noteq> TakeItem k" "\<forall>k d. a \<noteq> Record k d"
  shows "work_step a env s t =
     (case worker_of a of
        None \<Rightarrow> Some (t\<lparr>ctl := s\<rparr>)
      | Some k \<Rightarrow>
          Some (case desk_work env (busy (status (ctl t))) a (rexes t) (desks t ! k) of
                  Inl e \<Rightarrow> t\<lparr>dead := Some e\<rparr>
                | Inr (c, w) \<Rightarrow> set_desk k w (t\<lparr>ctl := s, rexes := c\<rparr>)))"
  using assms by (cases a) simp_all

lemma work_step_none:
  "worker_of a = None \<Longrightarrow> a \<noteq> Spawn \<Longrightarrow> work_step a env s t = Some (t\<lparr>ctl := s\<rparr>)"
  by (cases a) simp_all

lemma set_desk_sel [simp]:
  "ctl (set_desk k w t) = ctl t" "outSys (set_desk k w t) = outSys t" "toRead (set_desk k w t) = toRead t"
  "served (set_desk k w t) = served t" "pushes (set_desk k w t) = pushes t" "startVals (set_desk k w t) = startVals t"
  "startRead (set_desk k w t) = startRead t"
  "length (desks (set_desk k w t)) = length (desks t)" "desks (set_desk k w t) = (desks t)[k := w]"
  by (simp_all add: set_desk_def)

lemma test_ok_dead [simp]: "test_ok R N W D ow s0 out0 vals0 items (t\<lparr>dead := e\<rparr>) = test_ok R N W D ow s0 out0 vals0 items t"
  by (simp add: test_ok_def)

lemma test_ok_spawn:
  assumes "test_ok R N W D ow s0 out0 vals0 items t" "exec Spawn (ctl t) = Some s"
  shows "test_ok R N W D ow s0 out0 vals0 items (t\<lparr>ctl := s, desks := desks t @ [new_desk (startVals t) (startRead t)]\<rparr>)"
proof -
  have pcs: "pcs s = pcs (ctl t) @ [Top]"
    using exec_no_worker [OF assms(2)] by simp
  have "of_worker (length (desks t)) (served t) = []" "of_worker (length (desks t)) (pushes t) = []"
    using assms(1) by (auto simp: test_ok_def intro!: of_worker_none)
  then have "desk_ok R N W D (length (desks t)) vals0 Top (new_desk (startVals t) (startRead t))
      (of_worker (length (desks t)) (served t)) (of_worker (length (desks t)) (pushes t))"
    using assms(1) serves.no_item by (simp add: test_ok_def desk_ok_def idle_def new_desk_def)
  then show ?thesis
    using assms reachable_exec [OF assms(2)] \<open>of_worker (length (desks t)) (served t) = []\<close>
    by (auto simp: test_ok_def pcs nth_append less_Suc_eq list_all_iff new_desk_def exec_perWorker [OF assms(2)])
qed

lemma test_ok_work:
  assumes ok: "test_ok R N W D ow s0 out0 vals0 items t" and "exec a (ctl t) = Some s" "worker_of a = Some k"
    and t': "ctl t' = s" "desks t' = (desks t)[k := w]" "startVals t' = startVals t"
      "reachable output_step (output_start out0) (outSys t')"
      "startRead t' = startRead t" "map snd (pushes t') = received (outSys t')"
      "\<not> ow \<Longrightarrow> map snd (served t') @ toRead t' = items"
      "ow \<Longrightarrow> of_worker k (served t') @ ownRead w = items"
      "served t' = served t \<or> (\<exists>i. served t' = served t @ [(k, i)])"
      "pushes t' = pushes t \<or> (\<exists>r. pushes t' = pushes t @ [(k, r)])"
    and desk: "desk_ok R N W D k vals0 (snd (move a)) w (of_worker k (served t')) (of_worker k (pushes t'))"
  shows "test_ok R N W D ow s0 out0 vals0 items t'"
proof -
  note w = exec_worker [OF assms(2,3)]
  have "k < length (desks t)" using w(1) ok by (simp add: test_ok_def)
  moreover have "of_worker j (served t') = of_worker j (served t)" "of_worker j (pushes t') = of_worker j (pushes t)"
    if "j \<noteq> k" for j
    using t'(9,10) that by auto
  ultimately show ?thesis
    using ok t' desk w reachable_exec [OF assms(2)] exec_perWorker [OF assms(2)]
    by (auto simp: test_ok_def nth_list_update)
qed

lemma test_ok_step:
  assumes ok: "test_ok R N W D ow s0 out0 vals0 items t" and "act_ok R N W D a" "test_step a t = Some t'"
  shows "test_ok R N W D ow s0 out0 vals0 items t'"
proof (cases a)
  case (Work b env)
  have env: "env_ok R N W env" "D \<or> (\<forall>k. b \<noteq> Skip k)" using assms(2) Work by (simp_all add: act_ok_def)
  obtain s where s: "exec b (ctl t) = Some s" "work_step b env s t = Some t'"
    using assms(3) Work by (auto simp: test_step_def split: if_splits bind_splits)
  show ?thesis
  proof (cases "worker_of b")
    case None
    show ?thesis
    proof (cases "b = Spawn")
      case True
      then show ?thesis using test_ok_spawn [OF ok] s by simp
    next
      case False
      then have "t' = t\<lparr>ctl := s\<rparr>" "pcs s = pcs (ctl t)"
        using work_step_none [OF None] s exec_no_worker [OF s(1) None] by simp_all
      then show ?thesis
        using ok reachable_exec [OF s(1)] exec_perWorker [OF s(1)] by (auto simp: test_ok_def)
    qed
  next
    case (Some k)
    have kth: "k < length (desks t)" and at: "desk_ok R N W D k vals0 (fst (move b)) (desks t ! k)
        (of_worker k (served t)) (of_worker k (pushes t))"
      using exec_worker [OF s(1) Some] ok by (auto simp: test_ok_def)
    have parts: "\<not> ow \<Longrightarrow> map snd (served t) @ toRead t = items" "map snd (pushes t) = received (outSys t)"
        "reachable output_step (output_start out0) (outSys t)" "perWorker s = (if ow then Some (length items) else None)"
        "ow \<Longrightarrow> of_worker k (served t) @ ownRead (desks t ! k) = items"
      using ok kth exec_perWorker [OF s(1)] by (auto simp: test_ok_def)
    consider (take) "b = TakeItem k" | (rec) d where "b = Record k d"
      | (other) "b \<noteq> Spawn" "\<forall>j. b \<noteq> TakeItem j" "\<forall>j d. b \<noteq> Record j d"
      using Some by (cases b) auto
    then show ?thesis
    proof cases
      case take
      show ?thesis
      proof (cases ow)
        case True
        then obtain i rest where "ownRead (desks t ! k) = i # rest"
          "t' = set_desk k ((desks t ! k)\<lparr>onDesk := Some i, ownRead := rest\<rparr>) (t\<lparr>ctl := s, served := served t @ [(k, i)]\<rparr>)"
          using s(2) take parts(4) by (auto split: list.splits)
        then show ?thesis
          using parts True at desk_take_ok(2) [of R N W D k vals0 "desks t ! k"] take
          by (intro test_ok_work [OF ok s(1) Some, of t' "(desks t ! k)\<lparr>onDesk := Some i, ownRead := rest\<rparr>"]) auto
      next
        case False
        then obtain i rest where "toRead t = i # rest"
          "t' = set_desk k ((desks t ! k)\<lparr>onDesk := Some i\<rparr>) (t\<lparr>ctl := s, toRead := rest, served := served t @ [(k, i)]\<rparr>)"
          using s(2) take parts(4) by (auto split: list.splits)
        then show ?thesis
          using parts False at desk_take_ok(1) [of R N W D k vals0 "desks t ! k"] take
          by (intro test_ok_work [OF ok s(1) Some, of t' "(desks t ! k)\<lparr>onDesk := Some i\<rparr>"]) auto
      qed
    next
      case rec
      show ?thesis
      proof (cases "finished env (desks t ! k)")
        case (Inr x)
        then obtain w r o' where *: "x = (w, r)" "output_step (TakeResult r) (outSys t) = Some o'"
          "t' = set_desk k w (t\<lparr>ctl := s, outSys := o', pushes := pushes t @ [(k, r)]\<rparr>)"
          using s(2) rec by (cases x) auto
        have "received o' = received (outSys t) @ [r]" using output_step_received [OF *(2)] by simp
        then show ?thesis
          using parts at desk_record_ok [OF _ env(1)] Inr * rec reachable_output [OF *(2) parts(3)] finished_own
          by (intro test_ok_work [OF ok s(1) Some, of t' w]) auto
      qed (use ok s(2) rec in auto)
    next
      case other
      show ?thesis
      proof (cases "desk_work env (busy (status (ctl t))) b (rexes t) (desks t ! k)")
        case (Inr x)
        then obtain c w where x: "x = (c, w)" by (cases x)
        have "desk_ok R N W D k vals0 (snd (move b)) w (of_worker k (served t)) (of_worker k (pushes t))"
          using desk_work_ok [OF at Some env(1) Inr [unfolded x] _ _ env(2)] other by blast
        then show ?thesis
          using parts Inr x s(2) ok desk_work_own
          by (intro test_ok_work [OF ok s(1) Some, of t' w])
            (auto simp: work_step_other [OF other] Some test_ok_def)
      qed (use ok s(2) Some in \<open>auto simp: work_step_other [OF other]\<close>)
    qed
  qed
next
  case (Out b)
  then obtain o' where "output_step b (outSys t) = Some o'" "t' = t\<lparr>outSys := o'\<rparr>" "\<forall>r. b \<noteq> TakeResult r"
    using assms(3) by (cases b) (auto simp: test_step_def split: if_splits)
  moreover from this have "received o' = received (outSys t)"
    using output_step_received [of b] by (cases b) auto
  ultimately show ?thesis
    using ok by (auto simp: test_ok_def intro: reachable_output)
next
  case (ReaderCaches c)
  then show ?thesis
    using ok assms(3) by (auto simp: test_step_def test_ok_def split: if_splits)
qed

interpretation whole: invariant_of test_step "act_ok R N W D" "test_ok R N W D ow s0 out0 vals0 items"
  by unfold_locales (rule test_ok_step)

section \<open>Requests and results\<close>

lemma exec_results:
  assumes "exec a s = Some s'"
  shows "int (sys.sent s') - holding has_result s' =
    int (sys.sent s) - holding has_result s + (if \<exists>k d. a = Record k d then 1 else 0)"
  using assms
  by (cases a) (auto simp: exec_def holding_goto held stands_def [of s] split: if_splits)

definition results_ok :: "test \<Rightarrow> bool" where
  "results_ok t = (int (sys.sent (ctl t)) = int (length (pushes t)) + holding has_result (ctl t))"

lemma results_ok_step:
  assumes "results_ok t" "test_step a t = Some t'"
  shows "results_ok t'"
proof (cases a)
  case (Work b env)
  then obtain s where s: "exec b (ctl t) = Some s" "work_step b env s t = Some t'"
    using assms(2) by (auto simp: test_step_def split: if_splits bind_splits)
  show ?thesis
  proof (cases "\<exists>k d. b = Record k d")
    case True
    then show ?thesis
      using assms(1) s exec_results [OF s(1)] by (auto simp: results_ok_def split: sum.splits)
  next
    case False
    then have "(ctl t' = s \<or> ctl t' = ctl t) \<and> pushes t' = pushes t"
      using s(2) by (cases b) (auto split: list.splits sum.splits)
    then show ?thesis
      using assms(1) exec_results [OF s(1)] False by (auto simp: results_ok_def)
  qed
next
  case (Out b)
  then show ?thesis
    using assms by (cases b) (auto simp: test_step_def results_ok_def split: if_splits)
qed (use assms in \<open>auto simp: test_step_def results_ok_def split: if_splits\<close>)

interpretation results: invariant_of test_step "\<lambda>_. True" results_ok
  by unfold_locales (rule results_ok_step)

lemma start_results_ok: "results_ok (start_test cl ow offs shut vals items c out)"
  by (simp add: results_ok_def start_test_def start_sys_def holding_def)

lemma start_test_ok:
  "test_ok R N W D ow (start_sys cl ow offs (length items) shut) out vals items (start_test cl ow offs shut vals items c out)"
  by (simp add: test_ok_def start_test_def reachable.start) (simp add: start_sys_def output_start_def)

lemma test_ok_run:
  assumes "run_steps test_step as (start_test cl ow offs shut vals items c out) = Some t" "list_all (act_ok R N W D) as"
  shows "test_ok R N W D ow (start_sys cl ow offs (length items) shut) out vals items t"
  using whole.run_holds [OF assms start_test_ok] .

lemma test_ok_items:
  "test_ok R N W D ow s0 out vals items t \<Longrightarrow>
     if ow then \<forall>k < length (desks t). of_worker k (served t) @ ownRead (desks t ! k) = items
     else map snd (served t) @ toRead t = items"
  by (auto simp: test_ok_def)

lemma worker_serves:
  assumes "test_ok R N W D ow s0 out vals items t" "k < length (desks t)"
  shows "\<exists>its hand. of_worker k (served t) = its @ hand \<and> length hand \<le> 1
    \<and> (idle (pcs (ctl t) ! k) \<longrightarrow> hand = [])
    \<and> serves R N W D k vals its (deskVals (desks t ! k)) (of_worker k (pushes t))"
proof -
  have desk: "desk_ok R N W D k vals (pcs (ctl t) ! k) (desks t ! k) (of_worker k (served t)) (of_worker k (pushes t))"
    using assms by (simp add: test_ok_def)
  show ?thesis
  proof (cases "idle (pcs (ctl t) ! k)")
    case True
    then show ?thesis
      using desk by (intro exI [of _ "of_worker k (served t)"] exI [of _ "[]"]) (simp add: desk_ok_def)
  next
    case False
    then obtain js i where "of_worker k (served t) = js @ [i]"
      "serves R N W D k vals js (deskVals (desks t ! k)) (of_worker k (pushes t))"
      using desk by (auto simp: desk_ok_def)
    then show ?thesis using False by (intro exI [of _ js] exI [of _ "[i]"]) simp
  qed
qed

lemma close_in_test:
  "run_steps output_step (replicate n CloseNext) s = Some s' \<Longrightarrow> outSys t = s \<Longrightarrow> all_told (ctl t) \<Longrightarrow> dead t = None
    \<Longrightarrow> run_steps test_step (replicate n (Out CloseNext)) t = Some (t\<lparr>outSys := s'\<rparr>)"
proof (induction n arbitrary: s t)
  case (Suc n)
  then obtain s1 where "output_step CloseNext s = Some s1" "run_steps output_step (replicate n CloseNext) s1 = Some s'"
    by (auto split: bind_splits)
  moreover from this have "broken s = None"
    by (simp add: output_step_def split: if_splits)
  ultimately show ?case
    using Suc.IH [of s1 "t\<lparr>outSys := s1\<rparr>"] Suc.prems by (simp add: test_step_def)
qed auto

lemma results_accounted:
  assumes "run_steps test_step as (start_test cl ow offs shut vals items c out0) = Some t"
  shows "int (sys.sent (ctl t)) = int (length (pushes t)) + holding has_result (ctl t)
    \<and> (inHand (outSys t) = None \<and> closedOuts (outSys t) = [] \<and> all_told (ctl t) \<and> dead t = None \<longrightarrow>
        (\<exists>out t'. run_output out0 (map snd (pushes t)) = Inr out
          \<and> run_steps test_step (replicate (length (Outs out0)) (Out CloseNext)) t = Some t'
          \<and> closedOuts (outSys t') = Outs out))"
proof -
  let ?any = "\<lambda>_. True"
  have "list_all (act_ok ?any ?any ?any True) as"
    by (simp add: list_all_iff act_ok_def env_ok_def split: test_act.splits)
  from test_ok_run [OF assms this]
  have "reachable output_step (output_start out0) (outSys t)" "received (outSys t) = map snd (pushes t)"
    by (simp_all add: test_ok_def)
  moreover have "results_ok t"
    using results.run_holds [OF assms _ start_results_ok] by (simp add: list_all_iff)
  ultimately show ?thesis
    using closing_completes close_in_test [OF _ refl] by (fastforce simp: results_ok_def)
qed

section \<open>A small test\<close>

definition plain_item :: "bytes \<Rightarrow> PayloadItem" where
  "plain_item p = (new_item None)\<lparr>Payload := p\<rparr>"

definition answering :: "OutputItem \<Rightarrow> iter_env" where
  "answering r = example_env\<lparr>nib := (\<lambda>i. (i, r))\<rparr>"

text \<open>One worker of a closed workload up to the answer to its first request.\<close>

definition one_request :: "iter_env \<Rightarrow> test_act list" where
  "one_request env = map (\<lambda>a. Work a env)
     [Spawn, Begin 0, TakeOffset 0, TakeItem 0, EndWaiting 0, StartWork 0, NoSleep 0, EnterBusy 0, Punch 0]"

text \<open>The end of the iteration, the output of its result, and the end of the workload.\<close>

definition one_result :: "iter_env \<Rightarrow> test_act list" where
  "one_result env = map (\<lambda>a. Work a env) [EndBusy 0, Record 0 0, EndWork 0] @ [Out PushNext, Out EndPush]
     @ map (\<lambda>a. Work a env) [EndSpawn, Stop 0]"

lemmas test_run_simps = test_step_def set_desk_def new_desk_def on_item_def on_result_def run_simps

lemma one_request_run:
  "run_steps test_step (one_request env) (start_test True False 0 False vals [plain_item p] c out) = Some
     \<lparr>ctl = \<lparr>status = NewStatus\<lparr>working := 1, busy := 1\<rparr>, pcs = [Punched], stopped = [False], offers = 0,
        schedClosed = True, spawning = True, perWorker = None, inputs = 0, ownInputs = [0], inputClosed = False, sent = 1, logged = [], crashed = False\<rparr>,
      desks = [\<lparr>onDesk = Some (fst (nib env (plain_item p))), atHand = Some (snd (nib env (plain_item p))), deskVals = vals, ownRead = []\<rparr>],
      startVals = vals, startRead = [], toRead = [], rexes = c, outSys = output_start out,
      served = [(0, plain_item p)], pushes = [], dead = None\<rparr>"
proof -
  have "ReplaceValues (pkg env) vals c (plain_item p) = Inr (c, plain_item p)"
    by (simp add: ReplaceValues_def plain_item_def new_item_def)
  moreover have "ResolveStrings (plain_item p) = Inr (plain_item p)"
    by (simp add: ResolveStrings_def plain_item_def new_item_def)
  ultimately show ?thesis
    by (simp add: one_request_def start_test_def test_run_simps output_start_def split: prod.splits)
qed

lemma one_result_run:
  "\<exists>t. run_steps test_step (one_request (answering new_result) @ one_result (answering new_result))
       (start_test True False 0 False Map.empty [plain_item p] Map.empty ldjson_output) = Some t
     \<and> pcs (ctl t) = [Top] \<and> length (desks t) = 1 \<and> served t = [(0, plain_item p)]
     \<and> map (ReqBytes \<circ> snd) (pushes t) = [p] \<and> fst ` set (pushes t) = {0} \<and> sys.sent (ctl t) = 1
     \<and> inHand (outSys t) = None \<and> closedOuts (outSys t) = [] \<and> all_told (ctl t) \<and> dead t = None"
proof -
  let ?env = "answering new_result"
  let ?r = "fill_result 1 (startUnix ?env) 1 (plain_item p) new_result"
  have fin: "finish_result (draw ?env) (order ?env (RegexOut (plain_item p))) (plain_item p) Map.empty ?r = Inr (Map.empty, ?r)"
    by (simp add: finish_result_def answering_def example_env_def plain_item_def new_item_def ExtractValues_def Assert_def)
      (simp add: new_result_def)
  obtain w where push: "push_ldjson None ?r new_bufw = Inr (?r, w)"
    by (simp add: push_ldjson_def StringFriendly_def fill_result_def new_result_def plain_item_def new_item_def)
  have nib: "nib ?env i = (i, new_result)" for i
    by (simp add: answering_def)
  have "Payload (plain_item p) = p"
    by (simp add: plain_item_def)
  then show ?thesis
    unfolding run_steps_append one_request_run
    by (simp add: one_result_def test_run_simps finished_def fin push nib all_told_def output_step_def output_start_def
        ldjson_output_def push_nth_def)
qed

section \<open>Properties\<close>

text \<open>
  C3: in a whole test, however workers, workload, reader and outputs interleave, the items of the
  input go out in their order, each to one worker, or, with \<open>enableregexes\<close>, all of them to every
  worker, in their order; and each worker does what \<open>Iteration\<close> does on its items one after the other, the values of one carried to the next: what it has pushed are the results
  of its items in order, none twice and none left out, but for the item it has in hand.
\<close>

theorem test_serves_items:
  assumes "run_steps test_step as (start_test cl ow offs shut vals items c out) = Some t" "list_all (act_ok R N W D) as"
  shows "(if ow then \<forall>k < length (desks t). of_worker k (served t) @ ownRead (desks t ! k) = items
      else map snd (served t) @ toRead t = items)
    \<and> (\<forall>k < length (desks t). \<exists>its hand. of_worker k (served t) = its @ hand \<and> length hand \<le> 1
        \<and> (idle (pcs (ctl t) ! k) \<longrightarrow> hand = [])
        \<and> serves R N W D k vals its (deskVals (desks t ! k)) (of_worker k (pushes t)))"
  using test_ok_items [OF test_ok_run [OF assms]] worker_serves [OF test_ok_run [OF assms]] by blast

theorem test_serves_items_witness:
  "\<exists>t. run_steps test_step (one_request (answering new_result) @ one_result (answering new_result))
       (start_test True False 0 False Map.empty [plain_item ''x''] Map.empty ldjson_output) = Some t
     \<and> (\<exists>rs. serves (\<lambda>_. True) (\<lambda>_. True) (\<lambda>_. True) False 0 Map.empty [plain_item ''x''] (deskVals (desks t ! 0)) rs
          \<and> map ReqBytes rs = [''x''])"
proof -
  let ?T = "\<lambda>_. True"
  let ?as = "one_request (answering new_result) @ one_result (answering new_result)"
  obtain t where t: "run_steps test_step ?as (start_test True False 0 False Map.empty [plain_item ''x''] Map.empty ldjson_output) = Some t"
      "pcs (ctl t) = [Top]" "length (desks t) = 1" "served t = [(0, plain_item ''x'')]"
      "map (ReqBytes \<circ> snd) (pushes t) = [''x'']" "fst ` set (pushes t) = {0}"
    using one_result_run [of "''x''"] by (elim exE conjE) (rule that)
  have "list_all (act_ok ?T ?T ?T False) ?as"
    by (simp add: one_request_def one_result_def act_ok_def env_ok_def)
  from conjunct2 [OF test_serves_items [OF t(1) this], rule_format, of 0] t(3)
  obtain its hand where "of_worker 0 (served t) = its @ hand" "idle (pcs (ctl t) ! 0) \<longrightarrow> hand = []"
    "serves ?T ?T ?T False 0 Map.empty its (deskVals (desks t ! 0)) (of_worker 0 (pushes t))"
    by auto
  then have "serves ?T ?T ?T False 0 Map.empty [plain_item ''x''] (deskVals (desks t ! 0)) (of_worker 0 (pushes t))"
    using t(2,4) by (simp add: idle_def of_worker_def)
  moreover have "of_worker 0 (pushes t) = map snd (pushes t)"
  proof -
    have "fst x = 0" if "x \<in> set (pushes t)" for x
      using imageI [OF that, of fst] t(6) by simp
    then show ?thesis by (simp add: of_worker_def filter_id_conv)
  qed
  ultimately show ?thesis using t(1,5) by (auto simp: comp_def)
qed

text \<open>
  The results of a test: every request that was sent has its result pushed, or a worker is just
  between the answer and the push; and when the goroutine of the outputs waits as the outputs are
  closed, they hold what a run of the output on the pushed results alone would leave.
\<close>

theorem test_results_accounted:
  assumes "run_steps test_step as (start_test cl ow offs shut vals items c out0) = Some t"
  shows "int (sys.sent (ctl t)) = int (length (pushes t)) + holding has_result (ctl t)
    \<and> (inHand (outSys t) = None \<and> closedOuts (outSys t) = [] \<and> all_told (ctl t) \<and> dead t = None \<longrightarrow>
        (\<exists>out t'. run_output out0 (map snd (pushes t)) = Inr out
          \<and> run_steps test_step (replicate (length (Outs out0)) (Out CloseNext)) t = Some t'
          \<and> closedOuts (outSys t') = Outs out))"
  by (rule results_accounted [OF assms])

theorem test_results_accounted_witness:
  "\<exists>t out t'. run_steps test_step (one_request (answering new_result) @ one_result (answering new_result))
       (start_test True False 0 False Map.empty [plain_item ''x''] Map.empty ldjson_output) = Some t
     \<and> length (pushes t) = 1 \<and> holding has_result (ctl t) = 0
     \<and> run_output ldjson_output (map snd (pushes t)) = Inr out
     \<and> run_steps test_step [Out CloseNext] t = Some t' \<and> closedOuts (outSys t') = Outs out"
proof -
  obtain t where t: "run_steps test_step (one_request (answering new_result) @ one_result (answering new_result))
        (start_test True False 0 False Map.empty [plain_item ''x''] Map.empty ldjson_output) = Some t"
      "map (ReqBytes \<circ> snd) (pushes t) = [''x'']" "sys.sent (ctl t) = 1"
      "inHand (outSys t) = None" "closedOuts (outSys t) = []" "all_told (ctl t)" "dead t = None"
    using one_result_run [of "''x''"] by (elim exE conjE) (rule that)
  have "length (pushes t) = 1"
    using arg_cong [OF t(2), of length] by simp
  moreover obtain out t' where "run_output ldjson_output (map snd (pushes t)) = Inr out"
    "run_steps test_step (replicate (length (Outs ldjson_output)) (Out CloseNext)) t = Some t'" "closedOuts (outSys t') = Outs out"
    using test_results_accounted [OF t(1)] t(4-7) by blast
  moreover have "replicate (length (Outs ldjson_output)) (Out CloseNext) = [Out CloseNext]"
    by (simp add: ldjson_output_def)
  ultimately show ?thesis
    using test_results_accounted [OF t(1)] t(1,3) by (intro exI [of _ t] exI [of _ out] exI [of _ t']) simp
qed

text \<open>
  The program does not wait for its workers: \<open>Run\<close> of a workload tells them to stop and returns, and
  the outputs are closed.  Whatever a worker has sent by then and not yet pushed is in no file: here the
  only request of a test, answered, with its result not pushed as the file is closed.
\<close>

theorem unfinished_request_unreported:
  "\<exists>t. run_steps test_step (one_request env @ [Work EndSpawn env, Work (Stop 0) env, Out CloseNext])
       (start_test True False 0 False vals [plain_item p] c ldjson_output) = Some t
     \<and> sys.sent (ctl t) = 1 \<and> closedOuts (outSys t) = [LDJSONOut new_bufw]"
  unfolding run_steps_append one_request_run
  by (simp add: test_run_simps all_told_def output_step_def output_start_def ldjson_output_def new_bufw_def Flush_def)

end
