(* ===== verification/Closed_Workload.thy ===== *)
theory Closed_Workload
  imports Workload_Conf
begin

text \<open>
  \<open>pkg/scenario/closed.go\<close>: the workload that keeps a number of workers busy.  The generator
  yields, for each worker, the offset from the start of the test at which it is started.
\<close>

section \<open>The generator\<close>

text \<open>
  The two inner loops count with a \<open>float64\<close> and may not end (\<open>i + 1 = i\<close> for large \<open>i\<close>):
  None is a loop that sends for ever.
\<close>

partial_function (option) reach_level :: "f64 \<Rightarrow> f64 \<Rightarrow> duration \<Rightarrow> duration list option" where
  "reach_level i lvl curOffset =
     (if i < lvl
      then Option.bind (reach_level (i + f1) lvl curOffset) (\<lambda>r. Some (curOffset # r))
      else Some [])"

partial_function (option) ramp_level ::
  "(f64 \<Rightarrow> duration) \<Rightarrow> f64 \<Rightarrow> f64 \<Rightarrow> f64 \<Rightarrow> duration \<Rightarrow> duration list option" where
  "ramp_level oor i width durStep curOffset =
     (if i \<le> width
      then Option.bind (ramp_level oor (i + f1) width durStep curOffset)
        (\<lambda>r. Some (wrap64 (curOffset + to_duration oor (durStep * i)) # r))
      else Some [])"

declare reach_level.simps [code] ramp_level.simps [code]

fun closed_steps ::
  "(f64 \<Rightarrow> duration) \<Rightarrow> f64 \<Rightarrow> duration \<Rightarrow> WorkloadLevel list \<Rightarrow> duration list option" where
  "closed_steps oor curLevel curOffset [] = Some []"
| "closed_steps oor curLevel curOffset (step # rest) =
     Option.bind (reach_level curLevel (LevelStart step) curOffset) (\<lambda>a.
     Option.bind
       (if LevelStart step < LevelEnd step
        then
          let width = LevelEnd step - LevelStart step;
              durStep = f64_of_int (Duration step) / width
          in ramp_level oor f1 width durStep curOffset
        else Some []) (\<lambda>b.
     Option.bind (closed_steps oor (LevelEnd step) (wrap64 (curOffset + Duration step)) rest) (\<lambda>c.
     Some (a @ b @ c))))"

definition closed_schedule :: "(f64 \<Rightarrow> duration) \<Rightarrow> WorkloadLevel list \<Rightarrow> duration list option" where
  "closed_schedule oor scenario = closed_steps oor f0 0 scenario"

section \<open>Schedules with whole numbers of workers\<close>

lemma reach_level_int:
  assumes "0 \<le> i" "i < 2 ^ 53" "0 \<le> n" "n < 2 ^ 53"
  shows "reach_level (f64_of_int i) (f64_of_int n) off = Some (replicate (nat (n - i)) off)"
  using assms
proof (induction "nat (n - i)" arbitrary: i)
  case 0
  then have "\<not> f64_of_int i < f64_of_int n"
    by (simp add: f64_of_int_cmp)
  with 0 show ?case by (subst reach_level.simps) simp
next
  case (Suc k)
  then have lt: "i < n" by linarith
  then have "f64_of_int i < f64_of_int n"
    using Suc.prems by (simp add: f64_of_int_cmp)
  moreover have "f64_of_int i + f1 = f64_of_int (i + 1)"
    using Suc.prems lt by (simp add: f1_def f64_of_int_succ)
  moreover have "reach_level (f64_of_int (i + 1)) (f64_of_int n) off = Some (replicate (nat (n - (i + 1))) off)"
    using Suc.prems Suc.hyps(2) lt by (intro Suc.hyps(1)) auto
  moreover have "nat (n - i) = Suc (nat (n - (i + 1)))" using lt by linarith
  ultimately show ?case by (subst reach_level.simps) simp
qed

lemma ramp_level_int:
  assumes "1 \<le> i" "i < 2 ^ 53" "0 \<le> n" "n < 2 ^ 53 - 1"
  shows "ramp_level oor (f64_of_int i) (f64_of_int n) d off
    = Some (map (\<lambda>j. wrap64 (off + to_duration oor (d * f64_of_int j))) [i..n])"
  using assms
proof (induction "nat (n + 1 - i)" arbitrary: i)
  case 0
  then have "\<not> f64_of_int i \<le> f64_of_int n"
    by (simp add: f64_of_int_cmp)
  with 0 show ?case by (subst ramp_level.simps) simp
next
  case (Suc k)
  then have le: "i \<le> n" by linarith
  then have "f64_of_int i \<le> f64_of_int n"
    using Suc.prems by (simp add: f64_of_int_cmp)
  moreover have "f64_of_int i + f1 = f64_of_int (i + 1)"
    using Suc.prems le by (simp add: f1_def f64_of_int_succ)
  moreover have "ramp_level oor (f64_of_int (i + 1)) (f64_of_int n) d off
      = Some (map (\<lambda>j. wrap64 (off + to_duration oor (d * f64_of_int j))) [i + 1..n])"
    using Suc.prems Suc.hyps(2) le by (intro Suc.hyps(1)) auto
  ultimately show ?case
    using le by (subst ramp_level.simps) (simp add: upto_rec1)
qed

text \<open>
  The reference: whole workers, integer loops.  \<open>ramp_offset\<close> is the start of worker \<open>j\<close> of
  \<open>n\<close> in a step of duration \<open>d\<close>, still with the code's floating-point product.
\<close>

definition ramp_offset :: "(f64 \<Rightarrow> duration) \<Rightarrow> duration \<Rightarrow> int \<Rightarrow> int \<Rightarrow> duration" where
  "ramp_offset oor d n j = to_duration oor (f64_of_int d / f64_of_int n * f64_of_int j)"

fun closed_ref ::
  "(f64 \<Rightarrow> duration) \<Rightarrow> int \<Rightarrow> duration \<Rightarrow> (int \<times> int \<times> duration) list \<Rightarrow> duration list" where
  "closed_ref oor lvl off [] = []"
| "closed_ref oor lvl off ((a, b, d) # rest) =
     replicate (nat (a - lvl)) off
     @ map (\<lambda>j. wrap64 (off + ramp_offset oor d (b - a) j)) [1..b - a]
     @ closed_ref oor b (wrap64 (off + d)) rest"

definition whole_levels :: "(int \<times> int \<times> duration) list \<Rightarrow> WorkloadLevel list" where
  "whole_levels sc = map (\<lambda>(a, b, d). whole_level a b d) sc"

definition level_ok :: "int \<times> int \<times> duration \<Rightarrow> bool" where
  "level_ok = (\<lambda>(a, b, d). 0 \<le> a \<and> a < 2 ^ 53 - 1 \<and> 0 \<le> b \<and> b < 2 ^ 53 - 1 \<and> 0 \<le> d \<and> d < 2 ^ 51)"

lemma closed_steps_ref:
  assumes "list_all level_ok sc" "0 \<le> lvl" "lvl < 2 ^ 53"
  shows "closed_steps oor (f64_of_int lvl) off (whole_levels sc) = Some (closed_ref oor lvl off sc)"
  using assms
proof (induction sc arbitrary: lvl off)
  case (Cons st sc)
  obtain a b d where st: "st = (a, b, d)" by (cases st)
  with Cons.prems have ok: "0 \<le> a" "a < 2 ^ 53 - 1" "0 \<le> b" "b < 2 ^ 53 - 1" "list_all level_ok sc"
    by (auto simp: level_ok_def)
  have IH: "closed_steps oor (f64_of_int b) (wrap64 (off + d)) (whole_levels sc)
      = Some (closed_ref oor b (wrap64 (off + d)) sc)"
    using ok by (intro Cons.IH) auto
  have reach: "reach_level (f64_of_int lvl) (f64_of_int a) off = Some (replicate (nat (a - lvl)) off)"
    using Cons.prems ok by (intro reach_level_int) auto
  show ?case
  proof (cases "a < b")
    case True
    then have "f64_of_int b - f64_of_int a = f64_of_int (b - a)"
      using ok by (intro f64_of_int_diff) auto
    moreover have "ramp_level oor f1 (f64_of_int (b - a)) (f64_of_int d / f64_of_int (b - a)) off
        = Some (map (\<lambda>j. wrap64 (off + ramp_offset oor d (b - a) j)) [1..b - a])"
      unfolding f1_def ramp_offset_def using ok True by (intro ramp_level_int) auto
    moreover have "f64_of_int a < f64_of_int b"
      using ok True by (simp add: f64_of_int_cmp)
    ultimately show ?thesis
      using reach IH by (simp add: st whole_levels_def Let_def)
  next
    case False
    then have "\<not> f64_of_int a < f64_of_int b"
      using ok by (simp add: f64_of_int_cmp)
    with False reach IH show ?thesis
      by (simp add: st whole_levels_def)
  qed
qed (simp add: whole_levels_def)

section \<open>The accuracy of a ramp\<close>

lemma rnd_ratio:
  assumes "0 \<le> d" "1 \<le> n" "n < 2 ^ 53"
  shows "\<bar>rnd (real_of_int d / real_of_int n) - real_of_int d / real_of_int n\<bar>
    \<le> real_of_int d / real_of_int n / 2 ^ 53"
proof (cases "d = 0")
  case False
  have "real_of_int n < real_of_int (2 ^ 53)" using assms(3) by (simp only: of_int_less_iff)
  then have "1 / real_of_int (2 ^ 53) \<le> 1 / real_of_int n"
    using assms(2) by (intro divide_left_mono) auto
  also have "\<dots> \<le> real_of_int d / real_of_int n"
    using assms False by (intro divide_right_mono) auto
  finally have "inverse (2 ^ 53) \<le> real_of_int d / real_of_int n"
    by (simp only: inverse_eq_divide of_int_power of_int_numeral)
  then have "2 powi (-53) \<le> real_of_int d / real_of_int n"
    by (simp only: power_int_minus power_int_numeral)
  moreover have "(2::real) powi (-1022) \<le> 2 powi (-53)" by (intro powi_mono2) simp
  ultimately show ?thesis by (intro rnd_rel) linarith
qed (simp add: rnd_def)

text \<open>Two roundings and the exact product \<open>d j / n\<close>: the error is below \<open>3 d / 2\<^sup>5\<^sup>3\<close>.\<close>

lemma ramp_error:
  assumes "0 \<le> d" "1 \<le> n" "n < 2 ^ 53" "0 \<le> j" "j \<le> n"
  shows "\<bar>rnd (rnd (real_of_int d / real_of_int n) * real_of_int j)
            - real_of_int d * real_of_int j / real_of_int n\<bar> \<le> 3 * real_of_int d / 2 ^ 53"
proof (cases "d = 0 \<or> j = 0")
  case True
  then show ?thesis using assms by (auto simp: rnd_def)
next
  case False
  let ?x = "real_of_int d / real_of_int n" and ?J = "real_of_int j" and ?D = "real_of_int d"
  let ?p = "rnd ?x * ?J"
  have D: "1 \<le> ?D" and J: "1 \<le> ?J" "?J \<le> real_of_int n" and n: "0 < real_of_int n"
    using False assms by auto
  have x0: "0 \<le> ?x" using D n by simp
  have xJ: "?x * ?J \<le> ?D"
  proof -
    have "?D * ?J \<le> ?D * real_of_int n" using J D by (intro mult_left_mono) auto
    then show ?thesis using n by (simp add: field_simps)
  qed
  note q = rnd_ratio [OF assms(1-3)]
  have "\<bar>?p - ?x * ?J\<bar> = \<bar>rnd ?x - ?x\<bar> * ?J"
    using J by (simp only: left_diff_distrib [symmetric] abs_mult)
  also have "\<dots> \<le> ?x / 2 ^ 53 * ?J"
    using q J by (intro mult_right_mono) auto
  finally have e1: "\<bar>?p - ?x * ?J\<bar> \<le> ?x * ?J / 2 ^ 53" by simp
  then have p: "\<bar>?p - ?x * ?J\<bar> \<le> ?D / 2 ^ 53"
    using xJ by (simp add: divide_right_mono order_trans)
  have "2 powi (-1022) \<le> ?p"
  proof -
    have "real_of_int n < real_of_int (2 ^ 53)" using assms(3) by (simp only: of_int_less_iff)
    then have "1 / real_of_int (2 ^ 53) \<le> 1 / real_of_int n"
      using n by (intro divide_left_mono) auto
    also have "\<dots> \<le> ?x" using D n by (intro divide_right_mono) auto
    also have "?x \<le> ?x * ?J" using mult_left_mono [OF J(1) x0] by (simp only: mult_1_right)
    finally have lo: "1 / real_of_int (2 ^ 53) \<le> ?x * ?J" .
    have "0 \<le> ?x * ?J" by (rule order_trans [OF _ lo]) simp
    then have "?x * ?J / 2 ^ 53 \<le> ?x * ?J / 2" by (intro divide_left_mono) simp_all
    then have "?x * ?J / 2 \<le> ?p" using e1 by (simp only: abs_le_iff) linarith
    moreover have "1 / real_of_int (2 ^ 53) / 2 \<le> ?x * ?J / 2"
      using lo by (rule divide_right_mono) simp
    ultimately have "1 / real_of_int (2 ^ 53) / 2 \<le> ?p" by linarith
    moreover have "1 / real_of_int (2 ^ 53) / 2 = 2 powi (-54)" by (simp add: power_int_minus)
    moreover have "(2::real) powi (-1022) \<le> 2 powi (-54)" by (intro powi_mono2) simp
    ultimately show ?thesis by linarith
  qed
  from rnd_rel [OF this] have "\<bar>rnd ?p - ?p\<bar> \<le> ?p / 2 ^ 53" .
  moreover have "?D / 2 ^ 53 \<le> ?D" using D by simp
  then have "?p \<le> 2 * ?D" using p xJ by linarith
  then have "?p / 2 ^ 53 \<le> 2 * ?D / 2 ^ 53" by (rule divide_right_mono) simp
  moreover have "?D * ?J / real_of_int n = ?x * ?J" by simp
  ultimately show ?thesis using p by linarith
qed

lemma ramp_offset_floor:
  assumes "0 \<le> d" "d < 2 ^ 53" "1 \<le> n" "n < 2 ^ 53" "0 \<le> j" "j \<le> n"
  shows "ramp_offset oor d n j = \<lfloor>rnd (rnd (real_of_int d / real_of_int n) * real_of_int j)\<rfloor>"
proof -
  from f64_of_int_nonneg [OF assms(1,2)] obtain dm de where
    D: "f64_of_int d = FFin False dm de" "0 \<le> dm" "fval (FFin False dm de) = real_of_int d" by metis
  have "0 \<le> n" using assms(3) by simp
  from f64_of_int_nonneg [OF this assms(4)] assms(3) obtain nm ne where
    N: "f64_of_int n = FFin False nm ne" "0 < nm" "fval (FFin False nm ne) = real_of_int n"
    by (metis less_le_trans zero_less_one)
  have "j < 2 ^ 53" using assms by simp
  from f64_of_int_nonneg [OF assms(5) this] obtain jm je where
    J: "f64_of_int j = FFin False jm je" "0 \<le> jm" "fval (FFin False jm je) = real_of_int j" by metis
  let ?x = "real_of_int d / real_of_int n"
  have pow: "real_of_int (2 ^ k) = 2 powi int k" for k by (simp add: power_int_def)
  have "real_of_int d < real_of_int (2 ^ 53)" using assms(2) by (simp only: of_int_less_iff)
  moreover have "?x \<le> real_of_int d / 1" using assms by (intro divide_left_mono) auto
  ultimately have x: "?x \<le> 2 powi 53" unfolding pow by simp
  have big: "(2::real) powi 53 < 2 powi 1023" "(2::real) powi 53 * 2 powi 53 < 2 powi 1023"
    by (simp_all add: power_int_strict_increasing flip: power_int_add)
  from f64_div_fval [OF D(1) N(1) D(2) N(2)] obtain a b where
    q: "f64_of_int d / f64_of_int n = fround False a b" "0 \<le> a" "0 < b"
      "real_of_int a / real_of_int b = ?x"
    by (auto simp: D N)
  have "finite_f64 (fround False a b)"
    using q x big by (intro fround_finite) auto
  then obtain qm qe where Q: "fround False a b = FFin False qm qe" "0 \<le> qm"
    "real_of_int qm * 2 powi qe = rnd ?x"
    using fround_FFin [OF q(2,3)] q(4) by (auto simp: finite_f64_def split: f64.splits)
  have Qv: "fval (FFin False qm qe) = rnd ?x" using Q(3) by (simp add: fval_def sg_def)
  have r53: "rnd (2 powi 53) = 2 powi 53" using rnd_exact [of 1 53] by simp
  have rx: "0 \<le> rnd ?x" "rnd ?x \<le> 2 powi 53"
    using rnd_nonneg rnd_mono [OF x] r53 by simp_all
  from f64_mul_fval [OF _ J(1) Q(2) J(2), of "FFin False qm qe" qe] obtain a' b' where
    p: "f64_of_int d / f64_of_int n * f64_of_int j = fround False a' b'" "0 \<le> a'" "0 < b'"
      "real_of_int a' / real_of_int b' = rnd ?x * real_of_int j"
    by (auto simp: q Q J Qv)
  let ?p = "rnd ?x * real_of_int j"
  have "real_of_int j \<le> real_of_int (2 ^ 53)" using \<open>j < 2 ^ 53\<close> by (simp only: of_int_le_iff)
  then have p2: "?p \<le> 2 powi 53 * 2 powi 53"
    unfolding pow using rx assms(5) by (intro mult_mono) auto
  have "finite_f64 (fround False a' b')"
    using p p2 big by (intro fround_finite) auto
  then obtain pm pe where P: "fround False a' b' = FFin False pm pe" "0 \<le> pm"
    "real_of_int pm * 2 powi pe = rnd ?p"
    using fround_FFin [OF p(2,3)] p(4) by (auto simp: finite_f64_def split: f64.splits)
  have Pv: "fval (FFin False pm pe) = rnd ?p" using P(3) by (simp add: fval_def sg_def)
  have "rnd ?p < 2 ^ 63"
  proof -
    have "rnd ?p \<le> rnd (2 powi 53 * 2 powi 9)"
    proof (rule rnd_mono)
      have "rnd ?x \<le> ?x + ?x / 2 ^ 53" using rnd_ratio [OF assms(1,3,4)] by linarith
      also have "?x / 2 ^ 53 \<le> ?x / 1" using assms by (intro divide_left_mono) auto
      finally have "?p \<le> (2 * ?x) * real_of_int j"
        using assms(5) by (intro mult_right_mono) auto
      also have "\<dots> \<le> (2 * ?x) * real_of_int n"
        using assms by (intro mult_left_mono) auto
      also have "\<dots> = 2 * real_of_int d" using assms(3) by simp
      also have "\<dots> \<le> 2 powi 53 * 2 powi 9" using assms(2) by simp
      finally show "?p \<le> 2 powi 53 * 2 powi 9" .
    qed
    also have "rnd (2 powi 53 * 2 powi 9) = 2 powi 62"
      using rnd_exact [of 1 62] by (simp flip: power_int_add)
    also have "(2::real) powi 62 < 2 ^ 63" by simp
    finally show ?thesis .
  qed
  then have "fval (FFin False pm pe) < 2 ^ 63" by (simp only: Pv)
  from to_duration_floor [OF refl P(2) this] show ?thesis
    by (simp add: ramp_offset_def p(1) P(1) Pv)
qed

lemma ramp_offset_mono:
  assumes "0 \<le> d" "d < 2 ^ 53" "1 \<le> n" "n < 2 ^ 53" "0 \<le> i" "i \<le> j" "j \<le> n"
  shows "ramp_offset oor d n i \<le> ramp_offset oor d n j"
proof -
  have "rnd (real_of_int d / real_of_int n) * real_of_int i
      \<le> rnd (real_of_int d / real_of_int n) * real_of_int j"
    using assms rnd_nonneg by (intro mult_left_mono) auto
  then have "rnd (rnd (real_of_int d / real_of_int n) * real_of_int i)
      \<le> rnd (rnd (real_of_int d / real_of_int n) * real_of_int j)"
    by (rule rnd_mono)
  with assms show ?thesis
    by (simp add: ramp_offset_floor floor_mono)
qed

lemma ramp_offset_bounds:
  assumes "0 \<le> d" "d < 2 ^ 51" "1 \<le> n" "n < 2 ^ 53" "0 \<le> j" "j \<le> n"
  shows "0 \<le> ramp_offset oor d n j" "ramp_offset oor d n j \<le> d"
    "\<bar>real_of_int (ramp_offset oor d n j) - real_of_int d * real_of_int j / real_of_int n\<bar> < 2"
proof -
  let ?y = "real_of_int d * real_of_int j / real_of_int n"
  let ?r = "rnd (rnd (real_of_int d / real_of_int n) * real_of_int j)"
  have off: "ramp_offset oor d n j = \<lfloor>?r\<rfloor>"
    using assms by (intro ramp_offset_floor) auto
  show "0 \<le> ramp_offset oor d n j"
    unfolding off by (simp add: rnd_nonneg)
  have "real_of_int d \<le> real_of_int (2 ^ 51)" using assms(2) by (simp only: of_int_le_iff)
  then have "3 * real_of_int d / 2 ^ 53 \<le> 3 / 4" by simp
  then have err: "\<bar>?r - ?y\<bar> \<le> 3 / 4"
    using ramp_error [of d n j] assms by linarith
  have "?y \<le> real_of_int d"
  proof -
    have "real_of_int d * real_of_int j \<le> real_of_int d * real_of_int n"
      using assms by (intro mult_left_mono) auto
    then show ?thesis using assms(3) by (simp add: field_simps)
  qed
  with err have "?r < real_of_int d + 1" by linarith
  then show "ramp_offset oor d n j \<le> d"
    unfolding off by linarith
  show "\<bar>real_of_int (ramp_offset oor d n j) - ?y\<bar> < 2"
    unfolding off using err by linarith
qed

section \<open>The schedule as a whole\<close>

fun total_duration :: "(int \<times> int \<times> duration) list \<Rightarrow> duration" where
  "total_duration [] = 0"
| "total_duration ((a, b, d) # rest) = d + total_duration rest"

fun workers_planned :: "int \<Rightarrow> (int \<times> int \<times> duration) list \<Rightarrow> int" where
  "workers_planned lvl [] = 0"
| "workers_planned lvl ((a, b, d) # rest) =
     max 0 (a - lvl) + max 0 (b - a) + workers_planned b rest"

lemma length_closed_ref: "int (length (closed_ref oor lvl off sc)) = workers_planned lvl sc"
  by (induction oor lvl off sc rule: closed_ref.induct) (simp_all add: max_def)

lemma total_duration_nonneg: "list_all level_ok sc \<Longrightarrow> 0 \<le> total_duration sc"
  by (induction sc rule: total_duration.induct) (auto simp: level_ok_def)

lemma sorted_map_upto:
  assumes "\<And>i j. a \<le> i \<Longrightarrow> i \<le> j \<Longrightarrow> j \<le> b \<Longrightarrow> f i \<le> (f j :: int)"
  shows "sorted (map f [a..b])"
  unfolding sorted_map
  by (rule sorted_wrt_mono_rel [OF _ sorted_wrt_upto]) (use assms in auto)

lemma closed_ref_sorted:
  assumes "list_all level_ok sc" "0 \<le> lvl" "0 \<le> off" "off + total_duration sc < 2 ^ 63"
  shows "sorted (closed_ref oor lvl off sc)
    \<and> (\<forall>x \<in> set (closed_ref oor lvl off sc). off \<le> x \<and> x \<le> off + total_duration sc)"
  using assms
proof (induction oor lvl off sc rule: closed_ref.induct)
  case (2 oor lvl off a b d rest)
  have ok: "0 \<le> b" "b - a < 2 ^ 53" "0 \<le> d" "d < 2 ^ 51" "list_all level_ok rest"
    using "2.prems"(1) by (auto simp: level_ok_def)
  have tot: "0 \<le> total_duration rest" using ok(5) by (rule total_duration_nonneg)
  have fit: "fits64 (off + x)" if "0 \<le> x" "x \<le> d" for x
    using that "2.prems"(3,4) tot by (simp add: fits64_def)
  have w: "wrap64 (off + d) = off + d" using fit [of d] ok by simp
  have bnd: "0 \<le> ramp_offset oor d (b - a) j \<and> ramp_offset oor d (b - a) j \<le> d"
    if "1 \<le> j" "j \<le> b - a" for j
    using ramp_offset_bounds(1,2) [of d "b - a" j oor] ok that by simp
  have mono: "ramp_offset oor d (b - a) i \<le> ramp_offset oor d (b - a) j"
    if "1 \<le> i" "i \<le> j" "j \<le> b - a" for i j
    using ok that by (intro ramp_offset_mono) auto
  let ?ramp = "map (\<lambda>j. wrap64 (off + ramp_offset oor d (b - a) j)) [1..b - a]"
  have ramp_eq: "?ramp = map (\<lambda>j. off + ramp_offset oor d (b - a) j) [1..b - a]"
    using bnd by (intro map_cong refl wrap64_id fit) auto
  have ramp: "sorted ?ramp" "\<forall>x \<in> set ?ramp. off \<le> x \<and> x \<le> off + d"
    unfolding ramp_eq using bnd mono by (auto intro!: sorted_map_upto)
  have IH: "sorted (closed_ref oor b (off + d) rest)"
    "\<forall>x \<in> set (closed_ref oor b (off + d) rest). off + d \<le> x \<and> x \<le> off + d + total_duration rest"
    using "2.IH" "2.prems" ok by (simp_all add: w add.assoc)
  show ?case
    using ramp IH tot ok(3) by (force simp: sorted_append w)
qed simp

section \<open>Running the schedule\<close>

text \<open>
  \<open>ClosedWorkload.Run\<close> as the sequence of what it does.  The environment says, for each turn of
  the loop, how long ago \<open>StartTime\<close> was when \<open>time.Now()\<close> was read, and whether the
  interrupt won the \<open>select\<close> against the timer, if the loop slept.  \<open>Time.Sub\<close> saturates.
\<close>

datatype spawn_event = SleepFor duration | SpawnWorker | InterruptedSleep | StopWorkers

fun closed_loop ::
  "(nat \<Rightarrow> duration \<times> bool) \<Rightarrow> nat \<Rightarrow> duration \<Rightarrow> duration list \<Rightarrow> spawn_event list \<times> bool" where
  "closed_loop env k subInitial [] = ([], False)"
| "closed_loop env k subInitial (off # offs) =
     (let sub = (if subInitial < 0 then off else subInitial);
          delay = sat64 (wrap64 (off - sub) - fst (env k))
      in if 0 < delay \<and> snd (env k) then ([SleepFor delay, InterruptedSleep], True)
         else
           let (es, sig) = closed_loop env (Suc k) sub offs
           in ((if 0 < delay then [SleepFor delay] else []) @ SpawnWorker # es, sig))"

definition closed_run ::
  "(nat \<Rightarrow> duration \<times> bool) \<Rightarrow> WorkloadLevel list \<Rightarrow> duration list \<Rightarrow> spawn_event list" where
  "closed_run env scenario offs =
     (let (es, sig) = closed_loop env 0 (-1) offs
      in es
         @ (if sig then []
            else
              let total = foldl (\<lambda>d item. wrap64 (d + Duration item)) 0 scenario;
                  delay = sat64 (total - fst (env (length offs)))
              in if 0 < delay
                 then SleepFor delay # (if snd (env (length offs)) then [InterruptedSleep] else [])
                 else [])
         @ [StopWorkers])"

lemma closed_loop_spawns:
  "closed_loop env k sub offs = (es, sig) \<Longrightarrow>
     (\<not> sig \<longrightarrow> count_list es SpawnWorker = length offs)
     \<and> count_list es SpawnWorker \<le> length offs \<and> count_list es StopWorkers = 0"
  by (induction env k sub offs arbitrary: es sig rule: closed_loop.induct)
    (auto simp: Let_def split: if_splits prod.splits)

lemma closed_loop_uninterrupted:
  assumes "\<forall>k. \<not> snd (env k)"
  shows "\<not> snd (closed_loop env k sub offs)"
  using assms by (induction offs arbitrary: k sub) (simp_all add: Let_def split: prod.splits, metis snd_conv)


lemma level_ok_total:
  assumes "list_all level_ok sc" "0 \<le> t" "t + total_duration sc < 2 ^ 63"
  shows "foldl (\<lambda>d item. wrap64 (d + Duration item)) t (whole_levels sc) = t + total_duration sc"
  using assms
proof (induction sc arbitrary: t)
  case (Cons st sc)
  obtain a b d where st: "st = (a, b, d)" by (cases st)
  with Cons.prems have ok: "0 \<le> d" "list_all level_ok sc" by (auto simp: level_ok_def)
  have "0 \<le> total_duration sc" using ok(2) by (rule total_duration_nonneg)
  then have "wrap64 (t + d) = t + d"
    using Cons.prems ok by (intro wrap64_id) (simp add: fits64_def st)
  with Cons ok show ?case by (simp add: st whole_levels_def)
qed (simp add: whole_levels_def)

lemma closed_schedule_ref:
  "list_all level_ok sc \<Longrightarrow> closed_schedule oor (whole_levels sc) = Some (closed_ref oor 0 0 sc)"
  unfolding closed_schedule_def f0_def by (rule closed_steps_ref) simp_all

lemma closed_ref_range:
  assumes "list_all level_ok sc" "total_duration sc < 2 ^ 63" "x \<in> set (closed_ref oor 0 0 sc)"
  shows "0 \<le> x" "x < 2 ^ 63"
  using closed_ref_sorted [OF assms(1), of 0 0 oor] assms(2,3) by auto

text \<open>What the loop does for one worker: wait for its turn, if it is not due yet, and start it.\<close>

definition timed_spawn :: "duration \<Rightarrow> duration \<Rightarrow> spawn_event list" where
  "timed_spawn offset elapsed =
     (if elapsed < offset then [SleepFor (offset - elapsed)] else []) @ [SpawnWorker]"

lemma closed_loop_timed:
  assumes "\<forall>k. \<not> snd (env k) \<and> 0 \<le> fst (env k) \<and> fst (env k) < 2 ^ 63"
    and "\<forall>x \<in> set offs. sub \<le> x \<and> x < 2 ^ 63" "0 \<le> sub"
  shows "closed_loop env k sub offs
    = (concat (map (\<lambda>i. timed_spawn (offs ! i - sub) (fst (env (k + i)))) [0..<length offs]), False)"
  using assms(2)
proof (induction offs arbitrary: k)
  case (Cons off offs)
  have "wrap64 (off - sub) = off - sub"
    using Cons.prems assms(3) by (intro wrap64_id) (simp add: fits64_def)
  moreover have "sat64 (off - sub - fst (env k)) = off - sub - fst (env k)"
    using Cons.prems assms(1,3) by (intro sat64_id) (smt (verit) list.set_intros(1))+
  moreover have "[0..<length (off # offs)] = 0 # map Suc [0..<length offs]"
    by (simp add: upt_conv_Cons map_Suc_upt del: upt_Suc)
  moreover have "(if 0 < off - sub - fst (env k) then [SleepFor (off - sub - fst (env k))] else [])
      @ SpawnWorker # es = timed_spawn (off - sub) (fst (env k)) @ es" for es
    by (simp add: timed_spawn_def)
  ultimately show ?case
    using Cons assms(1,3) by (simp add: comp_def del: upt_Suc)
qed simp

context schedule_source begin

lemma loop_timed:
  assumes "\<forall>k. \<not> snd (env k) \<and> 0 \<le> fst (env k) \<and> fst (env k) < 2 ^ 63" "produces c offs"
  shows "closed_loop env 0 (-1) offs
    = (concat (map (\<lambda>i. timed_spawn (offs ! i - offs ! 0) (fst (env i))) [0..<length offs]), False)"
proof (cases offs)
  case (Cons off tl)
  have "closed_loop env 0 off offs
      = (concat (map (\<lambda>i. timed_spawn (offs ! i - off) (fst (env i))) [0..<length offs]), False)"
    using closed_loop_timed [OF assms(1), of offs off 0] first_is_least assms(2) Cons by (simp del: upt_Suc)
  moreover have "closed_loop env 0 (-1) offs = closed_loop env 0 off offs"
    unfolding Cons using first_is_least(1) assms(2) Cons by simp
  ultimately show ?thesis by (simp add: Cons del: upt_Suc)
qed simp

end

text \<open>The closed generator, on whole levels, is such a source.\<close>

definition closed_produces ::
  "(f64 \<Rightarrow> duration) \<times> (int \<times> int \<times> duration) list \<Rightarrow> duration list \<Rightarrow> bool" where
  "closed_produces = (\<lambda>(oor, sc) offs. list_all level_ok sc \<and> total_duration sc < 2 ^ 63
     \<and> closed_schedule oor (whole_levels sc) = Some offs)"

interpretation closed_src: schedule_source closed_produces
proof
  fix c offs
  assume p: "closed_produces c offs"
  obtain oor sc where c: "c = (oor, sc)" by (cases c)
  with p have sc: "list_all level_ok sc" "total_duration sc < 2 ^ 63" and offs: "offs = closed_ref oor 0 0 sc"
    by (auto simp: closed_produces_def closed_schedule_ref)
  from closed_ref_sorted [OF sc(1), of 0 0 oor] sc(2) show "sorted offs"
    by (simp add: offs)
  show "0 \<le> x \<and> x < 2 ^ 63" if "x \<in> set offs" for x
    using closed_ref_range [OF sc, of x oor] that by (simp add: offs)
qed

section \<open>The properties\<close>

text \<open>
  C1: for levels with whole numbers of workers the generator ends, and yields exactly the
  offsets of the integer reference: the workers missing at the start of a step at once, then
  one worker per level of the ramp; their number is the sum of the increases.
\<close>

theorem closed_schedule_complete:
  assumes "list_all level_ok sc"
  shows "\<exists>offs. closed_schedule oor (whole_levels sc) = Some offs
    \<and> offs = closed_ref oor 0 0 sc \<and> int (length offs) = workers_planned 0 sc"
  using closed_schedule_ref [OF assms] by (simp add: length_closed_ref)

theorem closed_schedule_complete_witness:
  "\<exists>offs. closed_schedule (\<lambda>_. 0) (whole_levels [(0, 10, 5 * Second), (10, 15, 2 * Second)]) = Some offs
    \<and> offs = closed_ref (\<lambda>_. 0) 0 0 [(0, 10, 5 * Second), (10, 15, 2 * Second)]
    \<and> int (length offs) = workers_planned 0 [(0, 10, 5 * Second), (10, 15, 2 * Second)]"
  by (rule closed_schedule_complete) (simp add: level_ok_def)

text \<open>
  The offsets never decrease and stay within the sum of the step durations, so each worker
  is started in its turn and none after the planned end.
\<close>

theorem closed_schedule_sorted:
  assumes "list_all level_ok sc" "total_duration sc < 2 ^ 63"
    and "closed_schedule oor (whole_levels sc) = Some offs"
  shows "sorted offs \<and> (\<forall>x \<in> set offs. 0 \<le> x \<and> x \<le> total_duration sc)"
  using closed_ref_sorted [OF assms(1), of 0 0 oor] assms(2,3) closed_schedule_ref [OF assms(1)] by simp

theorem closed_schedule_sorted_witness:
  "sorted [0, 0, 2500000000, 5 * Second :: duration]
   \<and> list_all (\<lambda>x. 0 \<le> x \<and> x \<le> total_duration [(2, 4, 5 * Second)]) [0, 0, 2500000000, 5 * Second]"
proof -
  have "closed_schedule (\<lambda>_. 0) (whole_levels [(2, 4, 5 * Second)]) = Some [0, 0, 2500000000, 5 * Second]"
    by code_simp
  from closed_schedule_sorted [OF _ _ this] show ?thesis
    by (simp add: level_ok_def)
qed

text \<open>
  C30: in a ramp from \<open>a\<close> to \<open>b\<close> workers over \<open>d\<close> nanoseconds, worker \<open>j\<close> of the ramp is
  scheduled within two nanoseconds of the exact \<open>d j / (b - a)\<close>: the rounding of the division
  and of the product never moves it further.
\<close>

theorem closed_ramp_accuracy:
  assumes "level_ok (a, b, d)" "1 \<le> j" "j \<le> b - a"
    and "closed_schedule oor [whole_level a b d] = Some offs"
  shows "\<bar>real_of_int (offs ! nat (a + j - 1)) - real_of_int d * real_of_int j / real_of_int (b - a)\<bar> < 2"
proof -
  have ok: "0 \<le> a" "b - a < 2 ^ 53" "0 \<le> d" "d < 2 ^ 51"
    using assms(1) by (auto simp: level_ok_def)
  have offs: "offs = replicate (nat a) 0 @ map (\<lambda>i. wrap64 (ramp_offset oor d (b - a) i)) [1..b - a]"
    using closed_schedule_ref [of "[(a, b, d)]" oor] assms(1,4) by (simp add: whole_levels_def)
  have idx: "nat (a + j - 1) = length (replicate (nat a) (0::duration)) + nat (j - 1)"
    using ok assms(2) by (simp add: nat_add_distrib [symmetric] algebra_simps)
  have "offs ! nat (a + j - 1) = wrap64 (ramp_offset oor d (b - a) j)"
    unfolding offs idx nth_append_length_plus using assms(2,3) by simp
  also have "\<dots> = ramp_offset oor d (b - a) j"
    using ramp_offset_bounds(1,2) [of d "b - a" j oor] ok assms(2,3)
    by (intro wrap64_id) (auto simp: fits64_def)
  finally show ?thesis
    using ramp_offset_bounds(3) [of d "b - a" j oor] ok assms(2,3) by simp
qed

theorem closed_ramp_accuracy_witness:
  "\<bar>real_of_int ([1666666666, 3333333333, 5000000000] ! nat (0 + 2 - 1))
     - real_of_int (5 * Second) * real_of_int 2 / real_of_int (3 - 0)\<bar> < 2"
proof (rule closed_ramp_accuracy)
  show "closed_schedule (\<lambda>_. 0) [whole_level 0 3 (5 * Second)]
      = Some [1666666666, 3333333333, 5000000000]"
    by code_simp
qed (simp_all add: level_ok_def)


text \<open>
  \<open>Run\<close>, when nobody interrupts it, waits for each worker until its offset less the offset
  of the first one (the initial delay is eliminated), starts it, waits for the end of the last
  step and then stops the workers, once.
\<close>

theorem closed_run_timed:
  assumes "\<forall>k. \<not> snd (env k) \<and> 0 \<le> fst (env k) \<and> fst (env k) < 2 ^ 63"
    and "list_all level_ok sc" "total_duration sc < 2 ^ 63"
    and "closed_schedule oor (whole_levels sc) = Some offs"
  shows "closed_run env (whole_levels sc) offs
    = concat (map (\<lambda>i. timed_spawn (offs ! i - offs ! 0) (fst (env i))) [0..<length offs])
      @ (let elapsed = fst (env (length offs))
         in if elapsed < total_duration sc then [SleepFor (total_duration sc - elapsed)] else [])
      @ [StopWorkers]"
proof -
  have "closed_produces (oor, sc) offs" using assms(2-4) by (simp add: closed_produces_def)
  note loop = closed_src.loop_timed [OF assms(1) this]
  have tot: "foldl (\<lambda>d item. wrap64 (d + Duration item)) 0 (whole_levels sc) = total_duration sc"
    using level_ok_total [OF assms(2), of 0] assms(3) by simp
  have "sat64 (total_duration sc - fst (env (length offs))) = total_duration sc - fst (env (length offs))"
    using assms(1,3) total_duration_nonneg [OF assms(2)] by (intro sat64_id) (smt (verit))+
  then show ?thesis
    using assms(1) by (simp add: closed_run_def loop tot Let_def del: upt_Suc)
qed

theorem closed_run_timed_witness:
  "closed_run (\<lambda>k. (if k = 0 then 0 else 3 * Second, False)) (whole_levels [(0, 2, 8 * Second)])
      [4 * Second, 8 * Second]
    = [SpawnWorker, SleepFor Second, SpawnWorker, SleepFor (5 * Second), StopWorkers]"
proof -
  let ?env = "\<lambda>k. (if k = 0 then 0 else 3 * Second, False)" and ?offs = "[4 * Second, 8 * Second]"
  have "closed_schedule (\<lambda>_. 0) (whole_levels [(0, 2, 8 * Second)]) = Some ?offs"
    by code_simp
  from closed_run_timed [OF _ _ _ this, of ?env] show ?thesis
    by (simp add: level_ok_def timed_spawn_def upt_conv_Cons)
qed

end
