(* ===== verification/Workload_Crew.thy ===== *)
theory Workload_Crew
  imports Worker_System
begin

text \<open>
  What \<open>Run\<close> of either workload does with the workers it has started: the part of \<open>Open_System\<close> and
  \<open>Closed_System\<close> that both share.
\<close>

section \<open>Steps of the workers and of the workload\<close>

text \<open>The actions of the workers that need nothing from \<open>Run\<close>; an offset is received from it while the channel is open.\<close>

fun own_act :: "act \<Rightarrow> sys \<Rightarrow> bool" where
  "own_act (TakeOffset k) w = schedClosed w"
| "own_act a w = (worker_of a \<noteq> None \<or> a = Tick)"

definition with_crew :: "act \<Rightarrow> (sys \<Rightarrow> 's) \<Rightarrow> sys \<Rightarrow> 's option" where
  "with_crew a f w = map_option f (exec a w)"

text \<open>\<open>BaseWorkload.Stop\<close>, one turn of its loop: the worker that is told, and whether there is a next turn.\<close>

definition stop_turn :: "nat \<Rightarrow> sys \<Rightarrow> (sys \<times> nat option) option" where
  "stop_turn j w =
     (if j < length (pcs w) then with_crew (Stop j) (\<lambda>w. (w, Some (Suc j))) w else Some (w, None))"

lemma with_crew_Some: "with_crew a f w = Some x \<longleftrightarrow> (\<exists>v. exec a w = Some v \<and> x = f v)"
  by (auto simp: with_crew_def)

lemma exec_size: "exec a s = Some s' \<Longrightarrow> length (pcs s') = length (pcs s) + (if a = Spawn then 1 else 0)"
  using exec_no_worker [of a s s'] exec_worker [of a s s'] by (cases "worker_of a") auto

lemma own_act_no_spawn: "own_act a s \<Longrightarrow> a \<noteq> Spawn"
  by auto

lemma own_size: "own_act a w \<Longrightarrow> exec a w = Some v \<Longrightarrow> length (pcs v) = length (pcs w)"
  using exec_size [of a w v] own_act_no_spawn [of a w] by simp

text \<open>The workers before the \<open>j\<close>-th have been told, and no action takes that back.\<close>

definition telling :: "nat \<Rightarrow> sys \<Rightarrow> bool" where
  "telling j w = (\<not> spawning w \<and> (\<forall>i < j. i < length (stopped w) \<longrightarrow> stopped w ! i))"

lemma exec_told:
  "exec a w = Some v \<Longrightarrow> \<not> spawning w
    \<Longrightarrow> \<not> spawning v \<and> stopped v = (case a of Stop k \<Rightarrow> (stopped w)[k := True] | _ \<Rightarrow> stopped w)"
  by (cases a) (auto simp: exec_def on_status_def try_status_def split: if_splits sum.splits)

lemma told_stays: "xs ! n \<Longrightarrow> n < length xs \<Longrightarrow> xs[k := True] ! n"
  by (cases "k = n") simp_all

lemma telling_exec: "telling j w \<Longrightarrow> exec a w = Some v \<Longrightarrow> telling j v"
  using exec_told [of a w v] by (auto simp: telling_def told_stays split: act.splits)

lemma telling_turn:
  assumes "telling j w" "stop_turn j w = Some (v, next)" "length (stopped w) = length (pcs w)"
  shows "case next of Some i \<Rightarrow> telling i v | None \<Rightarrow> all_told v"
  using assms exec_told [of "Stop j" w v]
  by (auto simp: telling_def stop_turn_def with_crew_Some all_told_def list_all_length nth_list_update less_Suc_eq
      split: if_splits)

lemma all_told_exec:
  assumes "all_told w" "exec a w = Some v"
  shows "all_told v"
proof -
  have "\<not> spawning w" using assms(1) by (simp add: all_told_def)
  from exec_told [OF assms(2) this] assms(1) show ?thesis
    by (auto simp: all_told_def list_all_length told_stays split: act.splits)
qed

section \<open>Environments that agree with what was found\<close>

definition agrees :: "(nat \<Rightarrow> 'a) \<Rightarrow> 'a list \<Rightarrow> bool" where
  "agrees env xs = (\<forall>i < length xs. env i = xs ! i)"

lemma agrees_Nil [simp]: "agrees env []"
  by (simp add: agrees_def)

lemma agrees_snoc [simp]: "agrees env (xs @ [x]) \<longleftrightarrow> agrees env xs \<and> env (length xs) = x"
  by (auto simp: agrees_def nth_append less_Suc_eq)

lemma agrees_self: "agrees (\<lambda>i. xs ! i) xs"
  by (simp add: agrees_def)

end
