(* ===== verification/Closed_System.thy ===== *)
theory Closed_System
  imports Closed_Workload Workload_Crew
begin

text \<open>
  \<open>Run\<close> and \<open>Interrupt\<close> of \<open>pkg/scenario/closed.go\<close> together with the workers and a clock.  What
  \<open>closed_run\<close> takes from an environment, the time that has passed and whether the interrupt wins
  against the timer, is here the clock and the channel of the interrupt.  Every complete run is a run
  of \<open>closed_run\<close>, and an interrupted one always completes.
\<close>

section \<open>The system\<close>

text \<open>
  Where \<open>Run\<close> is: at the head of its loop; with an offset whose delay is to be computed; asleep until
  a time before a worker is started; about to start it; at the wait for the end, in it; leaving;
  telling the workers to stop; before \<open>done\<close>.
\<close>

datatype closed_at =
    AtHead
  | AtOffset duration
  | SleepsUntil duration
  | ToSpawn
  | AtEnd
  | EndsAt duration
  | Leaving
  | StoppingAt nat
  | ToReport
  | Reported

text \<open>\<open>interrupt\<close> and \<open>done\<close> are channels of one place; the handler of the signals calls \<open>Interrupt\<close> once.\<close>

datatype handler = NotCalled | WaitsForDone | Told

text \<open>
  \<open>turns\<close>, \<open>doings\<close> and \<open>startTimes\<close> record what each turn has found and done, and when it has started
  its worker.
\<close>

record closed_sys =
  workers :: sys
  closedAt :: closed_at
  toCome :: "duration list"
  subInitial :: duration
  clock :: duration \<comment> \<open>since \<open>StartTime\<close>\<close>
  interruptFull :: bool
  reportFull :: bool
  handlerAt :: handler
  turns :: "(duration \<times> bool) list"
  doings :: "spawn_event list"
  startTimes :: "duration list"

definition closed_start :: "duration list \<Rightarrow> bool \<Rightarrow> nat \<Rightarrow> bool \<Rightarrow> closed_sys" where
  "closed_start offs ow ins shut =
     \<lparr>workers = start_sys True ow 0 ins shut, closedAt = AtHead, toCome = offs, subInitial = -1, clock = 0,
      interruptFull = False, reportFull = False, handlerAt = NotCalled, turns = [], doings = [],
      startTimes = []\<rparr>"

datatype closed_act =
    CrewDoes act | Pass duration
  | NextOffset | ComputeDelay | TimerFires | TakeInterrupt | StartWorker | ComputeEnd | EndLoop | StopOne | Report
  | CallInterrupt | TakeDone

text \<open>The end of the test, as \<open>Run\<close> adds it up.\<close>

definition planned_end :: "WorkloadLevel list \<Rightarrow> duration" where
  "planned_end scenario = foldl (\<lambda>d item. wrap64 (d + Duration item)) 0 scenario"

fun closed_step :: "WorkloadLevel list \<Rightarrow> closed_act \<Rightarrow> closed_sys \<Rightarrow> closed_sys option" where
  "closed_step scenario (CrewDoes a) s =
     (if own_act a (workers s) then with_crew a (\<lambda>w. s\<lparr>workers := w\<rparr>) (workers s) else None)"
| "closed_step scenario (Pass d) s = guard (0 \<le> d) (s\<lparr>clock := clock s + d\<rparr>)"
| "closed_step scenario NextOffset s =
     (case (closedAt s, toCome s) of
        (AtHead, []) \<Rightarrow> Some (s\<lparr>closedAt := AtEnd\<rparr>)
      | (AtHead, offset # rest) \<Rightarrow>
          let sub = (if subInitial s < 0 then offset else subInitial s)
          in Some (s\<lparr>closedAt := AtOffset (wrap64 (offset - sub)), toCome := rest, subInitial := sub\<rparr>)
      | _ \<Rightarrow> None)"
| "closed_step scenario ComputeDelay s =
     (case closedAt s of
        AtOffset offset \<Rightarrow>
          let delay = sat64 (offset - clock s)
          in if 0 < delay
             then Some (s\<lparr>closedAt := SleepsUntil (clock s + delay), turns := turns s @ [(clock s, False)],
                  doings := doings s @ [SleepFor delay]\<rparr>)
             else Some (s\<lparr>closedAt := ToSpawn, turns := turns s @ [(clock s, False)]\<rparr>)
      | _ \<Rightarrow> None)"
| "closed_step scenario TimerFires s =
     (case closedAt s of
        SleepsUntil t \<Rightarrow> guard (t \<le> clock s) (s\<lparr>closedAt := ToSpawn\<rparr>)
      | EndsAt t \<Rightarrow> guard (t \<le> clock s) (s\<lparr>closedAt := Leaving\<rparr>)
      | _ \<Rightarrow> None)"
| "closed_step scenario TakeInterrupt s =
     (let s' = s\<lparr>closedAt := Leaving, interruptFull := False, turns := butlast (turns s) @ [(fst (last (turns s)), True)],
                 doings := doings s @ [InterruptedSleep]\<rparr>
      in case closedAt s of
           SleepsUntil t \<Rightarrow> guard (interruptFull s) s'
         | EndsAt t \<Rightarrow> guard (interruptFull s) s'
         | _ \<Rightarrow> None)"
| "closed_step scenario StartWorker s =
     (if closedAt s = ToSpawn
      then with_crew Spawn (\<lambda>w. s\<lparr>workers := w, closedAt := AtHead, doings := doings s @ [SpawnWorker],
             startTimes := startTimes s @ [clock s]\<rparr>) (workers s)
      else None)"
| "closed_step scenario ComputeEnd s =
     (let delay = sat64 (planned_end scenario - clock s)
      in if closedAt s \<noteq> AtEnd then None
         else if 0 < delay
         then Some (s\<lparr>closedAt := EndsAt (clock s + delay), turns := turns s @ [(clock s, False)],
              doings := doings s @ [SleepFor delay]\<rparr>)
         else Some (s\<lparr>closedAt := Leaving, turns := turns s @ [(clock s, False)]\<rparr>))"
| "closed_step scenario EndLoop s =
     (if closedAt s = Leaving
      then with_crew EndSpawn (\<lambda>w. s\<lparr>workers := w, closedAt := StoppingAt 0, doings := doings s @ [StopWorkers]\<rparr>) (workers s)
      else None)"
| "closed_step scenario StopOne s =
     (case closedAt s of
        StoppingAt j \<Rightarrow>
          map_option (\<lambda>(w, next). s\<lparr>workers := w, closedAt := (case next of Some i \<Rightarrow> StoppingAt i | None \<Rightarrow> ToReport)\<rparr>)
            (stop_turn j (workers s))
      | _ \<Rightarrow> None)"
| "closed_step scenario Report s =
     guard (closedAt s = ToReport \<and> \<not> reportFull s) (s\<lparr>closedAt := Reported, reportFull := True\<rparr>)"
| "closed_step scenario CallInterrupt s =
     guard (handlerAt s = NotCalled \<and> \<not> interruptFull s) (s\<lparr>interruptFull := True, handlerAt := WaitsForDone\<rparr>)"
| "closed_step scenario TakeDone s =
     guard (handlerAt s = WaitsForDone \<and> reportFull s) (s\<lparr>reportFull := False, handlerAt := Told\<rparr>)"

section \<open>The system is a run of \<open>closed_run\<close>\<close>

text \<open>What is still to be done at each place, as \<open>closed_run\<close> has it; \<open>k\<close> is the number of the turn.\<close>

definition final_wait :: "WorkloadLevel list \<Rightarrow> (nat \<Rightarrow> duration \<times> bool) \<Rightarrow> nat \<Rightarrow> spawn_event list" where
  "final_wait scenario env k =
     (let delay = sat64 (planned_end scenario - fst (env k))
      in if 0 < delay then SleepFor delay # (if snd (env k) then [InterruptedSleep] else []) else [])"

definition from_head ::
  "WorkloadLevel list \<Rightarrow> duration \<Rightarrow> duration list \<Rightarrow> (nat \<Rightarrow> duration \<times> bool) \<Rightarrow> nat \<Rightarrow> spawn_event list" where
  "from_head scenario sub offs env k =
     (case closed_loop env k sub offs of
        (es, sig) \<Rightarrow> es @ (if sig then [] else final_wait scenario env (k + length offs)) @ [StopWorkers])"

definition from_offset ::
  "WorkloadLevel list \<Rightarrow> duration \<Rightarrow> duration list \<Rightarrow> duration \<Rightarrow> (nat \<Rightarrow> duration \<times> bool) \<Rightarrow> nat \<Rightarrow> spawn_event list" where
  "from_offset scenario sub offs offset env k =
     (let delay = sat64 (offset - fst (env k))
      in if 0 < delay \<and> snd (env k) then [SleepFor delay, InterruptedSleep, StopWorkers]
         else (if 0 < delay then [SleepFor delay] else []) @ SpawnWorker # from_head scenario sub offs env (Suc k))"

lemma closed_run_from_head: "closed_run env scenario offs = from_head scenario (-1) offs env 0"
  by (simp add: closed_run_def from_head_def final_wait_def planned_end_def Let_def split: prod.splits)

lemma from_head_Nil: "from_head scenario sub [] env k = final_wait scenario env k @ [StopWorkers]"
  by (simp add: from_head_def)

lemma from_head_Cons:
  "from_head scenario sub (off # offs) env k =
     (let sub1 = (if sub < 0 then off else sub) in from_offset scenario sub1 offs (wrap64 (off - sub1)) env k)"
  by (simp add: from_head_def from_offset_def Let_def split: prod.splits)

text \<open>
  \<open>continues\<close>: in every environment that agrees with what was found, the run on all offsets is what has
  been done and then \<open>rest\<close>; in a sleep, the environment may still say that it is interrupted.
\<close>

definition continues ::
  "WorkloadLevel list \<Rightarrow> duration list \<Rightarrow> ((nat \<Rightarrow> duration \<times> bool) \<Rightarrow> nat \<Rightarrow> spawn_event list) \<Rightarrow>
   (duration \<times> bool) list \<Rightarrow> spawn_event list \<Rightarrow> bool" where
  "continues scenario offs rest ts es =
     (\<forall>env. agrees env ts \<longrightarrow> closed_run env scenario offs = es @ rest env (length ts))"

fun closed_ok :: "WorkloadLevel list \<Rightarrow> duration list \<Rightarrow> closed_at \<Rightarrow> closed_sys \<Rightarrow> bool" where
  "closed_ok sc offs AtHead s = continues sc offs (from_head sc (subInitial s) (toCome s)) (turns s) (doings s)"
| "closed_ok sc offs (AtOffset off) s =
     continues sc offs (from_offset sc (subInitial s) (toCome s) off) (turns s) (doings s)"
| "closed_ok sc offs (SleepsUntil t) s =
     (\<exists>ts c. turns s = ts @ [(c, False)]
       \<and> continues sc offs (\<lambda>env k. SpawnWorker # from_head sc (subInitial s) (toCome s) env k) (turns s) (doings s)
       \<and> continues sc offs (\<lambda>env k. [InterruptedSleep, StopWorkers]) (ts @ [(c, True)]) (doings s))"
| "closed_ok sc offs ToSpawn s =
     continues sc offs (\<lambda>env k. SpawnWorker # from_head sc (subInitial s) (toCome s) env k) (turns s) (doings s)"
| "closed_ok sc offs AtEnd s = continues sc offs (\<lambda>env k. final_wait sc env k @ [StopWorkers]) (turns s) (doings s)"
| "closed_ok sc offs (EndsAt t) s =
     (\<exists>ts c. turns s = ts @ [(c, False)] \<and> continues sc offs (\<lambda>env k. [StopWorkers]) (turns s) (doings s)
       \<and> continues sc offs (\<lambda>env k. [InterruptedSleep, StopWorkers]) (ts @ [(c, True)]) (doings s))"
| "closed_ok sc offs Leaving s = continues sc offs (\<lambda>env k. [StopWorkers]) (turns s) (doings s)"
| "closed_ok sc offs _ s = continues sc offs (\<lambda>env k. []) (turns s) (doings s)"

lemma continues_step:
  assumes "continues sc offs rest ts es" "\<And>env. env (length ts) = x \<Longrightarrow> rest env (length ts) = ds @ rest' env (Suc (length ts))"
  shows "continues sc offs rest' (ts @ [x]) (es @ ds)"
  using assms by (simp add: continues_def)

lemma continues_more:
  assumes "continues sc offs rest ts es" "\<And>env k. rest env k = ds @ rest' env k"
  shows "continues sc offs rest' ts (es @ ds)"
  using assms by (simp add: continues_def)

lemma closed_ok_other [simp]:
  "closed_ok sc offs l (s\<lparr>workers := w\<rparr>) = closed_ok sc offs l s"
  "closed_ok sc offs l (s\<lparr>closedAt := l'\<rparr>) = closed_ok sc offs l s"
  "closed_ok sc offs l (s\<lparr>clock := c\<rparr>) = closed_ok sc offs l s"
  "closed_ok sc offs l (s\<lparr>interruptFull := b\<rparr>) = closed_ok sc offs l s"
  "closed_ok sc offs l (s\<lparr>reportFull := b\<rparr>) = closed_ok sc offs l s"
  "closed_ok sc offs l (s\<lparr>handlerAt := h\<rparr>) = closed_ok sc offs l s"
  "closed_ok sc offs l (s\<lparr>startTimes := st\<rparr>) = closed_ok sc offs l s"
  by (cases l; simp)+

lemma closed_ok_step:
  assumes "closed_ok sc offs (closedAt s) s" "closed_step sc a s = Some s'"
  shows "closed_ok sc offs (closedAt s') s'"
proof (cases a)
  case NextOffset
  then show ?thesis
    using assms by (auto simp: continues_def from_head_Nil from_head_Cons Let_def split: closed_at.splits list.splits)
next
  case ComputeDelay
  then obtain off where at: "closedAt s = AtOffset off"
    using assms(2) by (auto split: closed_at.splits)
  let ?head = "from_head sc (subInitial s) (toCome s)"
  have c: "continues sc offs (from_offset sc (subInitial s) (toCome s) off) (turns s) (doings s)"
    using assms(1) at by simp
  show ?thesis
  proof (cases "0 < sat64 (off - clock s)")
    case True
    have "continues sc offs (\<lambda>env k. SpawnWorker # ?head env k) (turns s @ [(clock s, False)])
        (doings s @ [SleepFor (sat64 (off - clock s))])"
      "continues sc offs (\<lambda>env k. [InterruptedSleep, StopWorkers]) (turns s @ [(clock s, True)])
        (doings s @ [SleepFor (sat64 (off - clock s))])"
      using True by (auto intro!: continues_step [OF c] simp: from_offset_def Let_def)
    then show ?thesis using assms(2) at True ComputeDelay by (auto simp: Let_def)
  next
    case False
    have "continues sc offs (\<lambda>env k. SpawnWorker # ?head env k) (turns s @ [(clock s, False)]) (doings s @ [])"
      using False by (intro continues_step [OF c]) (simp add: from_offset_def Let_def)
    then show ?thesis using assms(2) at False ComputeDelay by (auto simp: Let_def)
  qed
next
  case ComputeEnd
  then have at: "closedAt s = AtEnd" using assms(2) by (auto simp: Let_def split: if_splits)
  have c: "continues sc offs (\<lambda>env k. final_wait sc env k @ [StopWorkers]) (turns s) (doings s)"
    using assms(1) at by simp
  let ?d = "sat64 (planned_end sc - clock s)"
  show ?thesis
  proof (cases "0 < ?d")
    case True
    have "continues sc offs (\<lambda>env k. [StopWorkers]) (turns s @ [(clock s, False)]) (doings s @ [SleepFor ?d])"
      "continues sc offs (\<lambda>env k. [InterruptedSleep, StopWorkers]) (turns s @ [(clock s, True)]) (doings s @ [SleepFor ?d])"
      using True by (auto intro!: continues_step [OF c] simp: final_wait_def Let_def)
    then show ?thesis using assms(2) at True ComputeEnd by (auto simp: Let_def)
  next
    case False
    have "continues sc offs (\<lambda>env k. [StopWorkers]) (turns s @ [(clock s, False)]) (doings s @ [])"
      using False by (intro continues_step [OF c]) (simp add: final_wait_def Let_def)
    then show ?thesis using assms(2) at False ComputeEnd by (auto simp: Let_def)
  qed
next
  case TimerFires
  then show ?thesis using assms by (auto split: closed_at.splits)
next
  case TakeInterrupt
  then obtain ts c where "turns s = ts @ [(c, False)]"
    and "continues sc offs (\<lambda>env k. [InterruptedSleep, StopWorkers]) (ts @ [(c, True)]) (doings s)"
    using assms by (auto simp: Let_def split: closed_at.splits)
  then show ?thesis
    using continues_more [of sc offs _ "ts @ [(c, True)]" "doings s" "[InterruptedSleep]" "\<lambda>env k. [StopWorkers]"] assms(2) TakeInterrupt
    by (auto simp: Let_def split: closed_at.splits)
next
  case StartWorker
  then show ?thesis
    using assms continues_more [of sc offs _ "turns s" "doings s" "[SpawnWorker]" "from_head sc (subInitial s) (toCome s)"]
    by (auto simp: with_crew_Some split: if_splits)
next
  case EndLoop
  then show ?thesis
    using assms continues_more [of sc offs _ "turns s" "doings s" "[StopWorkers]" "\<lambda>env k. []"]
    by (auto simp: with_crew_Some split: if_splits)
next
  case StopOne
  then show ?thesis using assms by (auto split: closed_at.splits option.splits)
next
  case (CrewDoes b)
  then show ?thesis using assms by (auto simp: with_crew_Some split: if_splits)
qed (use assms in auto)

interpretation closed_sched: invariant_of "closed_step sc" "\<lambda>_. True" "\<lambda>s. closed_ok sc offs (closedAt s) s"
  by unfold_locales (rule closed_ok_step)

lemma closed_start_ok: "closed_ok sc offs (closedAt (closed_start offs ow ins shut)) (closed_start offs ow ins shut)"
  by (simp add: closed_start_def continues_def closed_run_from_head)

section \<open>Workers are started in time\<close>

text \<open>The offset of the next worker, less that of the first.\<close>

definition due :: "duration list \<Rightarrow> closed_sys \<Rightarrow> duration" where
  "due offs s = offs ! length (startTimes s) - offs ! 0"

definition in_turn :: "duration list \<Rightarrow> closed_sys \<Rightarrow> bool" where
  "in_turn offs s =
     (length (startTimes s) < length offs \<and> toCome s = drop (Suc (length (startTimes s))) offs \<and> subInitial s = offs ! 0)"

definition in_range :: "duration list \<Rightarrow> bool" where
  "in_range offs = (sorted offs \<and> (\<forall>x \<in> set offs. 0 \<le> x \<and> x < 2 ^ 63))"

fun place_ok :: "duration list \<Rightarrow> closed_at \<Rightarrow> closed_sys \<Rightarrow> bool" where
  "place_ok offs AtHead s =
     (toCome s = drop (length (startTimes s)) offs \<and> subInitial s = (if startTimes s = [] then -1 else offs ! 0)
      \<and> length (startTimes s) \<le> length offs)"
| "place_ok offs (AtOffset off) s = (in_turn offs s \<and> off = due offs s)"
| "place_ok offs (SleepsUntil t) s = (in_turn offs s \<and> t = due offs s)"
| "place_ok offs ToSpawn s = (in_turn offs s \<and> due offs s \<le> clock s)"
| "place_ok offs _ s = True"

definition times_ok :: "duration list \<Rightarrow> closed_sys \<Rightarrow> bool" where
  "times_ok offs s =
     (in_range offs \<and> 0 \<le> clock s \<and> length (pcs (workers s)) = length (startTimes s) \<and> place_ok offs (closedAt s) s
      \<and> length (startTimes s) \<le> length offs
      \<and> (\<forall>j < length (startTimes s). offs ! j - offs ! 0 \<le> startTimes s ! j))"

lemma due_range:
  assumes "in_range offs" "n < length offs"
  shows "0 \<le> offs ! n - offs ! 0" "offs ! n - offs ! 0 < 2 ^ 63" "0 \<le> offs ! 0"
proof -
  have "offs ! 0 \<le> offs ! n" "offs ! 0 \<in> set offs" "offs ! n \<in> set offs"
    using assms by (auto simp: in_range_def intro!: sorted_nth_mono nth_mem)
  moreover from this have "0 \<le> offs ! 0" "offs ! n < 2 ^ 63"
    using assms(1) by (simp_all only: in_range_def)
  ultimately show "0 \<le> offs ! n - offs ! 0" "offs ! n - offs ! 0 < 2 ^ 63" "0 \<le> offs ! 0"
    by linarith+
qed

lemma place_ok_other [simp]:
  "place_ok offs l (s\<lparr>workers := w\<rparr>) = place_ok offs l s" "place_ok offs l (s\<lparr>closedAt := l'\<rparr>) = place_ok offs l s"
  "place_ok offs l (s\<lparr>turns := ts\<rparr>) = place_ok offs l s" "place_ok offs l (s\<lparr>doings := es\<rparr>) = place_ok offs l s"
  "place_ok offs l (s\<lparr>interruptFull := b\<rparr>) = place_ok offs l s" "place_ok offs l (s\<lparr>reportFull := b\<rparr>) = place_ok offs l s"
  "place_ok offs l (s\<lparr>handlerAt := h\<rparr>) = place_ok offs l s"
  by (cases l; simp add: in_turn_def due_def)+

lemma place_ok_later: "place_ok offs l s \<Longrightarrow> 0 \<le> d \<Longrightarrow> place_ok offs l (s\<lparr>clock := clock s + d\<rparr>)"
  by (cases l) (auto simp: in_turn_def due_def)

lemma place_ok_delay:
  assumes "in_range offs" "in_turn offs s" "0 \<le> clock s"
  shows "0 < sat64 (due offs s - clock s) \<Longrightarrow> clock s + sat64 (due offs s - clock s) = due offs s"
    "\<not> 0 < sat64 (due offs s - clock s) \<Longrightarrow> due offs s \<le> clock s"
  using assms due_range(1,2) [OF assms(1), of "length (startTimes s)"]
  by (auto simp: in_turn_def due_def sat64_def max_def min_def split: if_splits)

lemma times_ok_offset:
  assumes "times_ok offs s" "closedAt s = AtHead" "toCome s = off # rest"
  shows "place_ok offs (AtOffset (wrap64 (off - (if subInitial s < 0 then off else subInitial s))))
    (s\<lparr>toCome := rest, subInitial := (if subInitial s < 0 then off else subInitial s)\<rparr>)"
proof -
  let ?n = "length (startTimes s)"
  have d: "drop ?n offs = off # rest" and r: "in_range offs" and sub: "subInitial s = (if startTimes s = [] then -1 else offs ! 0)"
    using assms by (auto simp: times_ok_def)
  then have n: "?n < length offs" using assms(1) by (metis drop_all leI list.distinct(1))
  then have off: "off = offs ! ?n" and rest: "rest = drop (Suc ?n) offs"
    using d by (simp_all add: Cons_nth_drop_Suc [symmetric])
  note range = due_range [OF r n]
  then have "fits64 (off - offs ! 0)" using off by (simp add: fits64_def)
  moreover have "(if subInitial s < 0 then off else subInitial s) = offs ! 0"
    using sub off range(3) by auto
  ultimately show ?thesis
    using n rest off by (simp add: in_turn_def due_def)
qed

lemma times_ok_step:
  assumes "times_ok offs s" "closed_step sc a s = Some s'"
  shows "times_ok offs s'"
proof (cases a)
  case (CrewDoes b)
  then show ?thesis
    using assms own_size by (auto simp: times_ok_def with_crew_Some split: if_splits)
next
  case (Pass d)
  then show ?thesis using assms place_ok_later by (auto simp: times_ok_def)
next
  case NextOffset
  then show ?thesis
    using assms times_ok_offset [OF assms(1)]
    by (auto simp: times_ok_def in_turn_def due_def Let_def split: closed_at.splits list.splits)
next
  case ComputeDelay
  then obtain off where "closedAt s = AtOffset off" using assms(2) by (auto split: closed_at.splits)
  then show ?thesis
    using assms ComputeDelay place_ok_delay [of offs s]
    by (auto simp: times_ok_def Let_def in_turn_def due_def split: if_splits)
next
  case TimerFires
  then show ?thesis using assms by (auto simp: times_ok_def split: closed_at.splits)
next
  case StartWorker
  then obtain w where w: "closedAt s = ToSpawn" "exec Spawn (workers s) = Some w"
      "s' = s\<lparr>workers := w, closedAt := AtHead, doings := doings s @ [SpawnWorker], startTimes := startTimes s @ [clock s]\<rparr>"
    using assms(2) by (auto simp: with_crew_Some split: if_splits)
  show ?thesis
    using assms(1) w(1) exec_size [OF w(2)]
    by (auto simp: w(3) times_ok_def in_turn_def due_def nth_append less_Suc_eq)
next
  case EndLoop
  then show ?thesis
    using assms exec_size [of EndSpawn] by (auto simp: times_ok_def with_crew_Some split: if_splits)
next
  case StopOne
  then show ?thesis
    using assms exec_size [of "Stop _"]
    by (auto simp: times_ok_def stop_turn_def with_crew_Some split: closed_at.splits option.splits if_splits)
qed (use assms in \<open>auto simp: times_ok_def Let_def split: closed_at.splits if_splits\<close>)

interpretation closed_times: invariant_of "closed_step sc" "\<lambda>_. True" "times_ok offs"
  by unfold_locales (rule times_ok_step)

lemma closed_start_times: "in_range offs \<Longrightarrow> times_ok offs (closed_start offs ow ins shut)"
  by (simp add: times_ok_def closed_start_def start_sys_def)

section \<open>The run ends\<close>

fun of_run :: "closed_act \<Rightarrow> bool" where
  "of_run (CrewDoes a) = False" | "of_run (Pass d) = False" | "of_run CallInterrupt = False" | "of_run TakeDone = False"
| "of_run _ = True"

text \<open>What \<open>Run\<close> has left to do, at most: five actions for an offset, the stop of its worker included.\<close>

fun actions_left :: "closed_at \<Rightarrow> nat \<Rightarrow> nat \<Rightarrow> nat" where
  "actions_left AtHead m n = 5 * m + n + 6"
| "actions_left (AtOffset off) m n = 5 * m + n + 10"
| "actions_left (SleepsUntil t) m n = 5 * m + n + 9"
| "actions_left ToSpawn m n = 5 * m + n + 8"
| "actions_left AtEnd m n = 5 * m + n + 5"
| "actions_left (EndsAt t) m n = 5 * m + n + 4"
| "actions_left Leaving m n = 5 * m + n + 3"
| "actions_left (StoppingAt j) m n = n - j + 2"
| "actions_left ToReport m n = 1"
| "actions_left Reported m n = 0"

definition left_of :: "closed_sys \<Rightarrow> nat" where
  "left_of s = actions_left (closedAt s) (length (toCome s)) (length (pcs (workers s)))"

lemma left_of_step:
  assumes "closed_step sc a s = Some s'"
  shows "left_of s' + (if of_run a then 1 else 0) \<le> left_of s"
proof (cases a)
  case (CrewDoes b)
  then show ?thesis using assms own_size by (auto simp: left_of_def with_crew_Some split: if_splits)
next
  case StartWorker
  then show ?thesis using assms exec_size [of Spawn] by (auto simp: left_of_def with_crew_Some split: if_splits)
next
  case EndLoop
  then show ?thesis using assms exec_size [of EndSpawn] by (auto simp: left_of_def with_crew_Some split: if_splits)
next
  case StopOne
  then show ?thesis
    using assms exec_size [of "Stop _"]
    by (auto simp: left_of_def stop_turn_def with_crew_Some split: closed_at.splits if_splits)
qed (use assms in \<open>auto simp: left_of_def Let_def split: closed_at.splits list.splits if_splits\<close>)

lemma left_of_run: "run_steps (closed_step sc) as s = Some s' \<Longrightarrow> left_of s' + length (filter of_run as) \<le> left_of s"
proof (induction as arbitrary: s)
  case (Cons a as)
  then obtain t where t: "closed_step sc a s = Some t" "run_steps (closed_step sc) as t = Some s'"
    by (auto split: bind_splits)
  show ?case using Cons.IH [OF t(2)] left_of_step [OF t(1)] by (auto split: if_splits)
qed simp

text \<open>The channels and the flags of the workers, and that a worker can still be started.\<close>

definition before_stop :: "closed_at \<Rightarrow> bool" where
  "before_stop l = (case l of StoppingAt j \<Rightarrow> False | ToReport \<Rightarrow> False | Reported \<Rightarrow> False | _ \<Rightarrow> True)"

definition may_sleep :: "closed_at \<Rightarrow> bool" where
  "may_sleep l = (before_stop l \<and> l \<noteq> Leaving)"

fun to_start :: "closed_at \<Rightarrow> nat \<Rightarrow> nat" where
  "to_start AtHead m = m" | "to_start (AtOffset off) m = Suc m" | "to_start (SleepsUntil t) m = Suc m"
| "to_start ToSpawn m = Suc m" | "to_start _ m = 0"

definition wiring_ok :: "nat \<Rightarrow> closed_sys \<Rightarrow> bool" where
  "wiring_ok n s =
     (counters_ok (workers s) \<and> schedClosed (workers s) \<and> spawning (workers s) = before_stop (closedAt s)
      \<and> (handlerAt s \<noteq> NotCalled \<longrightarrow> may_sleep (closedAt s) \<longrightarrow> interruptFull s)
      \<and> reportFull s = (closedAt s = Reported \<and> handlerAt s \<noteq> Told) \<and> (handlerAt s = Told \<longrightarrow> closedAt s = Reported)
      \<and> length (pcs (workers s)) + to_start (closedAt s) (length (toCome s)) \<le> n)"

lemmas places = before_stop_def may_sleep_def

lemma exec_flags: "exec a w = Some v \<Longrightarrow> schedClosed w \<Longrightarrow> schedClosed v \<and> spawning v = (spawning w \<and> a \<noteq> EndSpawn)"
  by (cases a) (auto simp: exec_def on_status_def try_status_def split: if_splits sum.splits)

lemma exec_crew:
  assumes "exec a w = Some v" "schedClosed w" "counters_ok w"
  shows "counters_ok v \<and> schedClosed v \<and> spawning v = (spawning w \<and> a \<noteq> EndSpawn)
    \<and> length (pcs v) = length (pcs w) + (if a = Spawn then 1 else 0)"
  using exec_flags [OF assms(1,2)] exec_counters [OF assms(3,1)] exec_size [OF assms(1)] by simp

lemma own_act_no_end: "own_act a w \<Longrightarrow> a \<noteq> EndSpawn"
  by auto

lemmas wiring_simps = wiring_ok_def places Let_def

lemmas step_splits = closed_at.splits list.splits if_splits

lemma wiring_ok_step:
  assumes "wiring_ok n s" "closed_step sc a s = Some s'"
  shows "wiring_ok n s'"
proof -
  have crew: "exec b (workers s) = Some w \<Longrightarrow> counters_ok w \<and> schedClosed w \<and> spawning w = (spawning (workers s) \<and> b \<noteq> EndSpawn)
      \<and> length (pcs w) = length (pcs (workers s)) + (if b = Spawn then 1 else 0)" for b w
    using exec_crew assms(1) by (simp add: wiring_ok_def)
  show ?thesis
  proof (cases a)
    case (CrewDoes b)
    then obtain w where w: "own_act b (workers s)" "exec b (workers s) = Some w" "s' = s\<lparr>workers := w\<rparr>"
      using assms(2) by (auto simp: with_crew_Some split: if_splits)
    then show ?thesis
      using crew [OF w(2)] own_act_no_spawn [OF w(1)] own_act_no_end [OF w(1)] assms(1) by (simp add: wiring_ok_def)
  next
    case StartWorker
    then show ?thesis using assms crew [of Spawn] by (auto simp: wiring_ok_def with_crew_Some places split: if_splits)
  next
    case EndLoop
    then show ?thesis using assms crew [of EndSpawn] by (auto simp: wiring_ok_def with_crew_Some places split: if_splits)
  next
    case StopOne
    then show ?thesis
      using assms crew [of "Stop _"] by (auto simp: wiring_simps stop_turn_def with_crew_Some split: step_splits)
  next
    case NextOffset
    then show ?thesis using assms by (auto simp: wiring_simps split: step_splits)
  next
    case ComputeDelay
    then show ?thesis using assms by (auto simp: wiring_simps split: step_splits)
  next
    case TimerFires
    then show ?thesis using assms by (auto simp: wiring_simps split: step_splits)
  next
    case TakeInterrupt
    then show ?thesis using assms by (auto simp: wiring_simps split: step_splits)
  next
    case ComputeEnd
    then show ?thesis using assms by (auto simp: wiring_simps split: step_splits)
  next
    case Report
    then show ?thesis using assms by (auto simp: wiring_simps split: step_splits)
  next
    case CallInterrupt
    then show ?thesis using assms by (auto simp: wiring_simps split: step_splits)
  next
    case TakeDone
    then show ?thesis using assms by (auto simp: wiring_simps split: step_splits)
  next
    case (Pass d)
    then show ?thesis using assms by (auto simp: wiring_simps split: step_splits)
  qed
qed

interpretation closed_wiring: invariant_of "closed_step sc" "\<lambda>_. True" "wiring_ok n"
  by unfold_locales (rule wiring_ok_step)

lemma closed_start_wiring: "wiring_ok (length offs) (closed_start offs ow ins shut)"
  by (simp add: wiring_ok_def closed_start_def start_counters places) (simp add: start_sys_def)

text \<open>Where \<open>Run\<close> is not asleep it can go on; asleep it can when it has been interrupted, or when time has passed.\<close>

lemma can_go_on:
  assumes "wiring_ok n s" "n \<le> max_workers" "closedAt s \<noteq> Reported" "\<forall>t. closedAt s \<noteq> SleepsUntil t \<and> closedAt s \<noteq> EndsAt t"
  shows "\<exists>a. of_run a \<and> closed_step sc a s \<noteq> None"
proof -
  have c: "\<not> crashed (workers s)" using assms(1) by (simp add: wiring_ok_def counters_ok_def)
  consider "closedAt s = AtHead" | off where "closedAt s = AtOffset off" | "closedAt s = ToSpawn" | "closedAt s = AtEnd"
    | "closedAt s = Leaving" | j where "closedAt s = StoppingAt j" | "closedAt s = ToReport"
    using assms(3,4) by (cases "closedAt s") auto
  then show ?thesis
  proof cases
    case 1
    then show ?thesis by (intro exI [of _ NextOffset]) (simp add: Let_def split: list.splits)
  next
    case 2
    then show ?thesis by (intro exI [of _ ComputeDelay]) (simp add: Let_def)
  next
    case 3
    then show ?thesis
      using assms(1,2) c
      by (intro exI [of _ StartWorker]) (simp add: with_crew_def exec_def guard_def wiring_ok_def places)
  next
    case 4
    then show ?thesis by (intro exI [of _ ComputeEnd]) (simp add: Let_def)
  next
    case 5
    then show ?thesis
      using assms(1) c by (intro exI [of _ EndLoop]) (simp add: with_crew_def exec_def guard_def wiring_ok_def places)
  next
    case 6
    then show ?thesis
      using assms(1) c
      by (intro exI [of _ StopOne]) (simp add: stop_turn_def with_crew_def exec_def guard_def wiring_ok_def places)
  next
    case 7
    then show ?thesis using assms(1) by (intro exI [of _ Report]) (simp add: guard_def wiring_ok_def)
  qed
qed

lemma asleep_goes_on:
  assumes "wiring_ok n s" "closedAt s = SleepsUntil t \<or> closedAt s = EndsAt t"
  shows "handlerAt s \<noteq> NotCalled \<Longrightarrow> closed_step sc TakeInterrupt s \<noteq> None"
    "\<exists>d s1. closed_step sc (Pass d) s = Some s1 \<and> closed_step sc TimerFires s1 \<noteq> None"
proof -
  show "closed_step sc TakeInterrupt s \<noteq> None" if "handlerAt s \<noteq> NotCalled"
    using assms that by (auto simp: wiring_ok_def places guard_def Let_def)
  show "\<exists>d s1. closed_step sc (Pass d) s = Some s1 \<and> closed_step sc TimerFires s1 \<noteq> None"
    using assms(2) by (intro exI [of _ "max 0 (t - clock s)"]) (auto simp: guard_def)
qed

section \<open>Properties\<close>

lemma closed_offsets:
  assumes "list_all level_ok sc" "total_duration sc < 2 ^ 63" "closed_schedule oor (whole_levels sc) = Some offs"
  shows "in_range offs"
proof -
  have "closed_produces (oor, sc) offs" using assms by (simp add: closed_produces_def)
  then show ?thesis
    using closed_src.in_order closed_src.in_time by (auto simp: in_range_def)
qed

text \<open>
  C28: when \<open>Run\<close> of the closed workload comes to its end among its workers, with a clock and an
  interrupt that come when they come, what it has done is the \<open>closed_run\<close> of what its turns have
  found, with one worker for each start; and no worker is started before its offset, less that of the
  first one, has passed.
\<close>
theorem closed_system_is_closed_run:
  assumes "list_all level_ok sc" "total_duration sc < 2 ^ 63" "closed_schedule oor (whole_levels sc) = Some offs"
    and "run_steps (closed_step (whole_levels sc)) as (closed_start offs ow ins shut) = Some s" "closedAt s = Reported"
  shows "closed_run (\<lambda>k. turns s ! k) (whole_levels sc) offs = doings s
    \<and> length (pcs (workers s)) = length (startTimes s) \<and> length (startTimes s) \<le> length offs
    \<and> (\<forall>j < length (startTimes s). offs ! j - offs ! 0 \<le> startTimes s ! j)"
proof -
  have "closed_ok (whole_levels sc) offs (closedAt s) s"
    using closed_sched.run_holds [OF assms(4) _ closed_start_ok] by (simp add: list_all_iff)
  then have "closed_run (\<lambda>k. turns s ! k) (whole_levels sc) offs = doings s"
    using assms(5) agrees_self [of "turns s"] by (simp add: continues_def)
  moreover have "times_ok offs s"
    using closed_times.run_holds [OF assms(4) _ closed_start_times [OF closed_offsets [OF assms(1-3)]]]
    by (simp add: list_all_iff)
  ultimately show ?thesis by (simp add: times_ok_def)
qed

lemmas closed_run_simps = closed_start_def with_crew_def stop_turn_def run_simps

lemma example_closed_run:
  "\<exists>s. run_steps (closed_step (whole_levels [(1, 2, 2 * Second)]))
     [NextOffset, ComputeDelay, StartWorker, CrewDoes (Begin 0), NextOffset, ComputeDelay, Pass (3 * Second), TimerFires, StartWorker,
      NextOffset, ComputeEnd, EndLoop, StopOne, StopOne, StopOne, Report]
     (closed_start [0, 2 * Second] False 5 False) = Some s \<and> closedAt s = Reported
     \<and> turns s = [(0, False), (0, False), (3 * Second, False)]
     \<and> doings s = [SpawnWorker, SleepFor (2 * Second), SpawnWorker, StopWorkers] \<and> startTimes s = [0, 3 * Second]"
  by (simp add: closed_run_simps sat64_def planned_end_def whole_levels_def whole_level_def)

theorem closed_system_is_closed_run_witness:
  "closed_run (\<lambda>k. [(0, False), (0, False), (3 * Second, False)] ! k) (whole_levels [(1, 2, 2 * Second)]) [0, 2 * Second]
     = [SpawnWorker, SleepFor (2 * Second), SpawnWorker, StopWorkers]"
proof -
  have sched: "closed_schedule (\<lambda>_. 0) (whole_levels [(1, 2, 2 * Second)]) = Some [0, 2 * Second]"
    by code_simp
  obtain s where s: "closedAt s = Reported" "turns s = [(0, False), (0, False), (3 * Second, False)]"
      "doings s = [SpawnWorker, SleepFor (2 * Second), SpawnWorker, StopWorkers]"
    and run: "run_steps (closed_step (whole_levels [(1, 2, 2 * Second)]))
     [NextOffset, ComputeDelay, StartWorker, CrewDoes (Begin 0), NextOffset, ComputeDelay, Pass (3 * Second), TimerFires, StartWorker,
      NextOffset, ComputeEnd, EndLoop, StopOne, StopOne, StopOne, Report] (closed_start [0, 2 * Second] False 5 False) = Some s"
    using example_closed_run by blast
  from closed_system_is_closed_run [OF _ _ sched run s(1)] show ?thesis
    by (simp add: s level_ok_def)
qed

text \<open>
  C29: \<open>Run\<close> of the closed workload takes at most five actions for each of its offsets and six more,
  whatever its workers do; until it has reported its end it can go on, at once where it does not
  sleep or has been interrupted, and else when time has passed; and then \<open>Interrupt\<close> gets its answer,
  if it was called.
\<close>
theorem closed_run_ends:
  assumes "run_steps (closed_step sc) as (closed_start offs ow ins shut) = Some s" "length offs \<le> max_workers"
  shows "length (filter of_run as) \<le> 5 * length offs + 6
    \<and> (closedAt s \<noteq> Reported \<longrightarrow>
        (\<exists>a. of_run a \<and> closed_step sc a s \<noteq> None)
        \<or> handlerAt s = NotCalled \<and> (\<exists>d s1. closed_step sc (Pass d) s = Some s1 \<and> closed_step sc TimerFires s1 \<noteq> None))
    \<and> (closedAt s = Reported \<longrightarrow> handlerAt s = WaitsForDone \<longrightarrow> closed_step sc TakeDone s \<noteq> None)"
proof -
  have w: "wiring_ok (length offs) s"
    using closed_wiring.run_holds [OF assms(1) _ closed_start_wiring] by (simp add: list_all_iff)
  have "length (filter of_run as) \<le> 5 * length offs + 6"
    using left_of_run [OF assms(1)] by (simp add: left_of_def closed_start_def start_sys_def)
  moreover have "\<exists>a. of_run a \<and> closed_step sc a s \<noteq> None"
    if "closedAt s \<noteq> Reported" "\<not> (handlerAt s = NotCalled \<and> (\<exists>d s1. closed_step sc (Pass d) s = Some s1 \<and> closed_step sc TimerFires s1 \<noteq> None))"
  proof (cases "\<exists>t. closedAt s = SleepsUntil t \<or> closedAt s = EndsAt t")
    case True
    then have "closed_step sc TakeInterrupt s \<noteq> None"
      using asleep_goes_on [OF w] that(2) by blast
    then show ?thesis by (intro exI [of _ TakeInterrupt]) simp
  next
    case False
    then show ?thesis using can_go_on [OF w assms(2) that(1)] by blast
  qed
  moreover have "closedAt s = Reported \<longrightarrow> handlerAt s = WaitsForDone \<longrightarrow> closed_step sc TakeDone s \<noteq> None"
    using w by (simp add: wiring_ok_def guard_def)
  ultimately show ?thesis by blast
qed

theorem closed_run_ends_witness:
  "\<exists>s. run_steps (closed_step (whole_levels [(1, 2, 2 * Second)])) [NextOffset, ComputeDelay, StartWorker, NextOffset, ComputeDelay, CallInterrupt]
       (closed_start [0, 2 * Second] False 5 False) = Some s
     \<and> (\<exists>a. of_run a \<and> closed_step (whole_levels [(1, 2, 2 * Second)]) a s \<noteq> None)"
proof -
  obtain s where s: "run_steps (closed_step (whole_levels [(1, 2, 2 * Second)]))
       [NextOffset, ComputeDelay, StartWorker, NextOffset, ComputeDelay, CallInterrupt]
       (closed_start [0, 2 * Second] False 5 False) = Some s" "closedAt s = SleepsUntil (2 * Second)" "handlerAt s = WaitsForDone"
    by (simp add: closed_run_simps sat64_def)
  have "length [0, 2 * Second :: duration] \<le> max_workers" by (simp add: max_workers_def)
  from closed_run_ends [OF s(1) this] s show ?thesis by auto
qed

end
