(* ===== verification/Open_Workload.thy ===== *)
theory Open_Workload
  imports Workload_Conf
begin

text \<open>
  \<open>pkg/scenario/open.go\<close>: the workload that sends requests by a schedule, whatever the number of
  workers it takes.  The generator computes the offset of every request; \<open>Run\<close> hands the
  offsets to the workers and starts more of them when nobody is free.
\<close>

section \<open>The generator\<close>

record OpenGen =
  curStep :: nat
  cnt :: int
  accum :: duration
  finishedSteps :: duration

definition open_gen0 :: OpenGen where
  "open_gen0 = \<lparr>curStep = 0, cnt = 0, accum = 0, finishedSteps = 0\<rparr>"

definition open_rate :: "WorkloadLevel \<Rightarrow> int \<Rightarrow> f64" where
  "open_rate step n =
     (if f64_eq (LevelStart step) (LevelEnd step) then LevelEnd step
      else
        let durSec = f64_of_int (Duration step) / f64_of_int Second;
            k = (LevelEnd step - LevelStart step) / durSec
        in k * f64_sqrt (f64_of_int 2 * f64_of_int n / k))"

definition open_interval :: "f64 \<Rightarrow> f64" where
  "open_interval rate = (if f0 < rate then f1 / rate else f0)"

text \<open>One turn of the loop: it ends, panics, or sends an offset and goes on.\<close>

datatype gen_turn = GenClose | GenPanic panic | GenSend duration OpenGen

definition open_turn :: "(f64 \<Rightarrow> duration) \<Rightarrow> WorkloadLevel list \<Rightarrow> OpenGen \<Rightarrow> gen_turn" where
  "open_turn oor scenario g =
     (if length scenario \<le> curStep g then GenClose
      else
        let step = scenario ! curStep g;
            interval = open_interval (open_rate step (cnt g))
        in if accum g \<noteq> 0 \<and> f64_eq interval f0
           then GenPanic (PanicMsg ''schedule calculations stuck'')
           else
             let a = wrap64 (accum g + to_duration oor (interval * f64_of_int Second));
                 g' = g\<lparr>accum := a, cnt := wrap64 (cnt g + 1)\<rparr>
             in GenSend a
                  (if wrap64 (finishedSteps g + Duration step) < a
                   then g'\<lparr>curStep := curStep g + 1, finishedSteps := a\<rparr> else g'))"

text \<open>
  The first offsets of the schedule, at most as many as the fuel: how the channel looks to a
  reader that takes so many.  \<open>GenMore\<close> is a generator that is still waiting to send.
\<close>

datatype gen_end = GenMore | GenClosed | GenPanicked panic

fun open_gen ::
  "(f64 \<Rightarrow> duration) \<Rightarrow> WorkloadLevel list \<Rightarrow> nat \<Rightarrow> OpenGen \<Rightarrow> duration list \<times> gen_end" where
  "open_gen oor scenario 0 g = ([], GenMore)"
| "open_gen oor scenario (Suc n) g =
     (case open_turn oor scenario g of
        GenClose \<Rightarrow> ([], GenClosed)
      | GenPanic p \<Rightarrow> ([], GenPanicked p)
      | GenSend a g' \<Rightarrow> (let (xs, e) = open_gen oor scenario n g' in (a # xs, e)))"

definition open_schedule ::
  "(f64 \<Rightarrow> duration) \<Rightarrow> WorkloadLevel list \<Rightarrow> nat \<Rightarrow> duration list \<times> gen_end" where
  "open_schedule oor scenario n = open_gen oor scenario n open_gen0"

section \<open>Every offset is the one before plus an interval\<close>

definition interval_of :: "(f64 \<Rightarrow> duration) \<Rightarrow> f64 \<Rightarrow> duration" where
  "interval_of oor rate = to_duration oor (open_interval rate * f64_of_int Second)"

lemma f64_eq_zero:
  assumes "f64_nn x"
  shows "f64_eq x f0 \<Longrightarrow> to_duration oor (x * f64_of_int Second) = 0"
  using assms
  by (cases x) (auto simp: f64_eval)

lemma open_interval_nn: "f64_ok rate \<Longrightarrow> open_interval rate = FNaN \<or> f64_nn (open_interval rate)"
  using pos_nn [of rate] f64_div_signs(2) [of f1 rate] f64_of_int_nn [of 1] f64_of_int_nn [of 0]
  by (auto simp: open_interval_def f0_def f1_def)

lemma to_duration_nn: "x = FNaN \<or> f64_nn x \<Longrightarrow> 0 \<le> to_duration oor x \<and> to_duration oor x < 2 ^ 63
    \<or> to_duration oor x = oor x"
  by (cases x) (auto simp: to_duration_def i64_of_f64_def sg_def pos_imp_zdiv_nonneg_iff split: option.splits if_splits)

lemma interval_of_range:
  assumes "f64_ok rate"
  shows "0 \<le> interval_of oor rate \<and> interval_of oor rate < 2 ^ 63
    \<or> interval_of oor rate = oor (open_interval rate * f64_of_int Second)"
  unfolding interval_of_def
  using open_interval_nn [OF assms] f64_mul_signs(2) [of "open_interval rate" "f64_of_int Second"]
    f64_of_int_nn [of Second]
  by (intro to_duration_nn) (auto simp: f64_ops)

definition level_wf :: "WorkloadLevel \<Rightarrow> bool" where
  "level_wf st = (f64_ok (LevelStart st) \<and> f64_ok (LevelEnd st))"

lemma f64_ok_of_int: "f64_ok (f64_of_int n)"
  by (simp add: f64_of_int_def fround_signs)

lemma f64_ok_sqrt: "f64_ok x \<Longrightarrow> f64_ok (f64_sqrt x)"
proof (cases x)
  case (FFin s m e)
  have "0 \<le> isqrt n" for n
    by (induction n rule: isqrt.induct) (subst isqrt.simps, simp add: Let_def)
  then show "f64_ok x \<Longrightarrow> f64_ok (f64_sqrt x)"
    by (auto simp: FFin Let_def intro!: fround_signs)
qed simp_all

lemma f64_ok_minus: "f64_ok x \<Longrightarrow> f64_ok y \<Longrightarrow> f64_ok (x - y :: f64)"
  by (cases x; cases y) (auto simp: f64_ops Let_def fzero_def intro!: fround_signs)

lemma open_rate_ok: "level_wf st \<Longrightarrow> f64_ok (open_rate st n)"
  unfolding open_rate_def Let_def level_wf_def
  by (auto intro!: f64_mul_signs(1) f64_div_signs(1) f64_ok_sqrt f64_ok_minus f64_ok_of_int)

lemma open_turn_send:
  assumes "curStep g < length scenario" "st = scenario ! curStep g"
    and "accum g = 0 \<or> \<not> f64_eq (open_interval (open_rate st (cnt g))) f0"
    and "a = wrap64 (accum g + interval_of oor (open_rate st (cnt g)))"
  shows "open_turn oor scenario g = GenSend a
    (if wrap64 (finishedSteps g + Duration st) < a
     then \<lparr>curStep = curStep g + 1, cnt = wrap64 (cnt g + 1), accum = a, finishedSteps = a\<rparr>
     else \<lparr>curStep = curStep g, cnt = wrap64 (cnt g + 1), accum = a, finishedSteps = finishedSteps g\<rparr>)"
  using assms by (cases g) (auto simp: open_turn_def interval_of_def Let_def)

lemma wrap64_half: "0 \<le> x \<Longrightarrow> x < 2 ^ 64 \<Longrightarrow> 0 \<le> wrap64 x \<Longrightarrow> wrap64 x = x \<and> x < 2 ^ 63"
proof (cases "x < 2 ^ 63")
  case False
  assume x: "0 \<le> x" "x < 2 ^ 64" "0 \<le> wrap64 x"
  have "x + 2 ^ 63 = (x - 2 ^ 63) + 2 ^ 64" by simp
  then have "(x + 2 ^ 63) mod 2 ^ 64 = x - 2 ^ 63"
    using x False by (simp only: mod_add_self2) simp
  then have "wrap64 x = x - 2 ^ 64" by (simp only: wrap64_def) simp
  with x show ?thesis by simp
qed (simp add: fits64_def)

text \<open>Out of range conversions as the compilers do them: the indefinite integer, or saturation.\<close>

definition usual_oor :: "(f64 \<Rightarrow> duration) \<Rightarrow> bool" where
  "usual_oor oor = (\<forall>x. oor x = - (2 ^ 63) \<or> 0 \<le> oor x \<and> oor x < 2 ^ 63)"

lemma open_turn_increases:
  assumes "list_all level_wf scenario" "usual_oor oor" "0 \<le> accum g" "accum g < 2 ^ 63"
    and "open_turn oor scenario g = GenSend a g'" "0 \<le> a"
  shows "accum g \<le> a" "a < 2 ^ 63" "accum g' = a"
proof -
  let ?st = "scenario ! curStep g"
  let ?d = "interval_of oor (open_rate ?st (cnt g))"
  from assms(5) have lt: "curStep g < length scenario" and a: "a = wrap64 (accum g + ?d)"
    and "accum g' = a"
    by (auto simp: open_turn_def interval_of_def Let_def split: if_splits)
  then show "accum g' = a" by simp
  have "f64_ok (open_rate ?st (cnt g))"
    using assms(1) lt by (intro open_rate_ok) (simp add: list_all_length)
  from interval_of_range [OF this, of oor] assms(2)
  have d: "?d = - (2 ^ 63) \<or> 0 \<le> ?d \<and> ?d < 2 ^ 63"
    by (auto simp: usual_oor_def)
  have "?d \<noteq> - (2 ^ 63)"
  proof
    assume "?d = - (2 ^ 63)"
    then have "a = accum g - 2 ^ 63" using assms(3,4) by (simp add: a fits64_def)
    then show False using assms(4,6) by simp
  qed
  with d have "0 \<le> ?d" "?d < 2 ^ 63" by auto
  then show "accum g \<le> a" "a < 2 ^ 63"
    using wrap64_half [of "accum g + ?d"] a assms(3,4,6) by auto
qed

lemma open_gen_sorted:
  assumes "list_all level_wf scenario" "usual_oor oor" "0 \<le> accum g" "accum g < 2 ^ 63"
    and "open_gen oor scenario n g = (offs, e)" "\<forall>x \<in> set offs. 0 \<le> x"
  shows "sorted (accum g # offs)"
  using assms(3-6)
proof (induction n arbitrary: g offs e)
  case (Suc n)
  show ?case
  proof (cases "open_turn oor scenario g")
    case (GenSend a g')
    obtain xs e' where g': "open_gen oor scenario n g' = (xs, e')" by fastforce
    then have offs: "offs = a # xs" using Suc.prems(3) by (simp add: GenSend)
    note inc = open_turn_increases [OF assms(1,2) Suc.prems(1,2) GenSend]
    have "sorted (accum g' # xs)"
      using Suc.IH [OF _ _ g'] inc Suc.prems(1,4) offs by auto
    with inc offs Suc.prems(1,4) show ?thesis by auto
  qed (use Suc.prems in auto)
qed simp

section \<open>Steps of constant rate\<close>

text \<open>
  The reference: a step with period \<open>p\<close> and duration \<open>D\<close> that begins at \<open>t\<close> sends at
  \<open>t + p\<close>, \<open>t + 2 p\<close>, \dots, up to and including the first offset past its end; the next step
  begins there.
\<close>

fun const_ref :: "duration \<Rightarrow> (duration \<times> duration) list \<Rightarrow> duration list" where
  "const_ref t [] = []"
| "const_ref t ((p, D) # rest) =
     map (\<lambda>j. t + p * j) [1..D div p + 1] @ const_ref (t + p * (D div p + 1)) rest"

fun const_end :: "duration \<Rightarrow> (duration \<times> duration) list \<Rightarrow> duration" where
  "const_end t [] = t"
| "const_end t ((p, D) # rest) = const_end (t + p * (D div p + 1)) rest"

definition period :: "(f64 \<Rightarrow> duration) \<Rightarrow> WorkloadLevel \<Rightarrow> duration \<times> duration" where
  "period oor st = (interval_of oor (LevelEnd st), Duration st)"

definition const_ok :: "(f64 \<Rightarrow> duration) \<Rightarrow> WorkloadLevel \<Rightarrow> bool" where
  "const_ok oor st = (f64_eq (LevelStart st) (LevelEnd st) \<and> level_wf st
     \<and> 1 \<le> interval_of oor (LevelEnd st) \<and> 0 \<le> Duration st)"

lemma const_rate: "const_ok oor st \<Longrightarrow> open_rate st n = LevelEnd st"
  by (simp add: const_ok_def open_rate_def)

lemma const_interval_nonzero:
  assumes "const_ok oor st"
  shows "\<not> f64_eq (open_interval (LevelEnd st)) f0"
proof
  assume z: "f64_eq (open_interval (LevelEnd st)) f0"
  then have "f64_nn (open_interval (LevelEnd st))"
    using open_interval_nn [of "LevelEnd st"] assms by (auto simp: const_ok_def level_wf_def f64_ops)
  from f64_eq_zero [OF this z, of oor] assms show False
    by (simp add: const_ok_def interval_of_def)
qed

lemma const_end_ge:
  "list_all (\<lambda>(p, D). 1 \<le> p \<and> 0 \<le> D) ps \<Longrightarrow> t \<le> const_end t ps"
proof (induction t ps rule: const_end.induct)
  case (2 t p D rest)
  then have "0 \<le> p * (D div p + 1)" by (simp add: pos_imp_zdiv_nonneg_iff)
  with 2 show ?case by simp
qed simp

lemma last_request:
  assumes "1 \<le> p" "0 \<le> D" "0 \<le> j" "j \<le> D div p"
  shows "D < p * (j + 1) \<longleftrightarrow> j = D div (p::int)"
proof -
  have D: "D = p * (D div p) + D mod p" "D mod p < p" "0 \<le> D mod p"
    using assms(1) by simp_all
  show ?thesis
  proof (cases "j = D div p")
    case False
    then have "p * (j + 1) \<le> p * (D div p)" using assms by (intro mult_left_mono) auto
    with D False show ?thesis by linarith
  next
    case True
    with D show ?thesis by (simp only: distrib_left mult_1_right) linarith
  qed
qed

lemma const_turn:
  assumes "curStep g < length sc" "st = sc ! curStep g" "const_ok oor st"
    and "p = interval_of oor (LevelEnd st)" "D = Duration st"
    and "finishedSteps g = t" "accum g = t + p * j" "0 \<le> j" "j \<le> D div p"
    and "0 \<le> t" "t + p * (D div p + 1) < 2 ^ 63"
  shows "open_turn oor sc g = GenSend (t + p * (j + 1))
    (if j = D div p
     then \<lparr>curStep = curStep g + 1, cnt = wrap64 (cnt g + 1), accum = t + p * (j + 1),
       finishedSteps = t + p * (j + 1)\<rparr>
     else \<lparr>curStep = curStep g, cnt = wrap64 (cnt g + 1), accum = t + p * (j + 1), finishedSteps = t\<rparr>)"
proof -
  have p: "1 \<le> p" "0 \<le> D" using assms(3-5) by (auto simp: const_ok_def)
  have "p * (j + 1) \<le> p * (D div p + 1)" using p assms(9) by (intro mult_left_mono) auto
  then have hi: "t + p * (j + 1) < 2 ^ 63" using assms(11) by linarith
  have "0 \<le> p * (j + 1)" using p assms(8) by simp
  then have w: "wrap64 (t + p * j + p) = t + p * (j + 1)"
    using hi assms(10) by (simp add: fits64_def distrib_left add.assoc)
  have "D mod p < p" "D = p * (D div p) + D mod p" using p by simp_all
  moreover have "t + p * (D div p) + p < 2 ^ 63" using assms(11) by (simp add: distrib_left)
  ultimately have "t + D < 2 ^ 63" by linarith
  then have w2: "wrap64 (t + D) = t + D" using p assms(10) by (simp add: fits64_def)
  have "open_turn oor sc g = GenSend (t + p * (j + 1))
    (if t + D < t + p * (j + 1)
     then \<lparr>curStep = curStep g + 1, cnt = wrap64 (cnt g + 1), accum = t + p * (j + 1),
       finishedSteps = t + p * (j + 1)\<rparr>
     else \<lparr>curStep = curStep g, cnt = wrap64 (cnt g + 1), accum = t + p * (j + 1), finishedSteps = t\<rparr>)"
    using open_turn_send [OF assms(1,2), of "t + p * (j + 1)" oor] assms(4-7) w w2
      const_interval_nonzero [OF assms(3)] by (simp add: const_rate [OF assms(3)])
  then show ?thesis using last_request [OF p assms(8,9)] by simp
qed

text \<open>The rest of a step of which \<open>j\<close> requests are sent.\<close>

lemma open_gen_step:
  assumes "curStep g < length sc" "st = sc ! curStep g" "const_ok oor st"
    and "p = interval_of oor (LevelEnd st)" "D = Duration st"
    and "finishedSteps g = t" "accum g = t + p * j" "0 \<le> j" "j \<le> D div p"
    and "0 \<le> t" "t + p * (D div p + 1) < 2 ^ 63"
  shows "\<exists>g'. curStep g' = curStep g + 1 \<and> accum g' = t + p * (D div p + 1)
    \<and> finishedSteps g' = t + p * (D div p + 1)
    \<and> open_gen oor sc (nat (D div p + 1 - j) + n) g
      = (let (xs, e) = open_gen oor sc n g' in (map (\<lambda>i. t + p * i) [j + 1..D div p + 1] @ xs, e))"
  using assms
proof (induction "nat (D div p - j)" arbitrary: g j)
  case 0
  then have j: "j = D div p" by linarith
  note turn = const_turn [OF 0(2-12)]
  have "nat (D div p + 1 - j) + n = Suc n" using j by simp
  then show ?case
    using j
    by (intro exI [of _ "\<lparr>curStep = curStep g + 1, cnt = wrap64 (cnt g + 1),
        accum = t + p * (D div p + 1), finishedSteps = t + p * (D div p + 1)\<rparr>"])
      (simp add: turn split: prod.splits)
next
  case (Suc k)
  then have j: "j \<noteq> D div p" "j + 1 \<le> D div p" by linarith+
  note turn = const_turn [OF Suc(3-13)]
  let ?g = "\<lparr>curStep = curStep g, cnt = wrap64 (cnt g + 1), accum = t + p * (j + 1), finishedSteps = t\<rparr>"
  have "\<exists>g'. curStep g' = curStep ?g + 1 \<and> accum g' = t + p * (D div p + 1)
    \<and> finishedSteps g' = t + p * (D div p + 1)
    \<and> open_gen oor sc (nat (D div p + 1 - (j + 1)) + n) ?g
      = (let (xs, e) = open_gen oor sc n g' in (map (\<lambda>i. t + p * i) [j + 1 + 1..D div p + 1] @ xs, e))"
    using Suc.hyps(2) Suc.prems j by (intro Suc.hyps(1)) auto
  then obtain g' where g': "curStep g' = curStep g + 1" "accum g' = t + p * (D div p + 1)"
      "finishedSteps g' = t + p * (D div p + 1)"
      "open_gen oor sc (nat (D div p + 1 - (j + 1)) + n) ?g
        = (let (xs, e) = open_gen oor sc n g' in (map (\<lambda>i. t + p * i) [j + 1 + 1..D div p + 1] @ xs, e))"
    by auto
  moreover have "nat (D div p + 1 - j) + n = Suc (nat (D div p + 1 - (j + 1)) + n)" using j by simp
  moreover have "[j + 1..D div p + 1] = (j + 1) # [j + 1 + 1..D div p + 1]"
    using j by (simp add: upto_rec1)
  ultimately show ?case
    using j by (intro exI [of _ g']) (simp add: turn split: prod.splits)
qed

lemma open_gen_const:
  assumes "drop (curStep g) sc = rest" "list_all (const_ok oor) rest"
    and "accum g = t" "finishedSteps g = t" "0 \<le> t" "const_end t (map (period oor) rest) < 2 ^ 63"
    and "length (const_ref t (map (period oor) rest)) < n"
  shows "open_gen oor sc n g = (const_ref t (map (period oor) rest), GenClosed)"
  using assms
proof (induction rest arbitrary: g t n)
  case Nil
  then obtain k where n: "n = Suc k" by (cases n) auto
  have "length sc \<le> curStep g" using Nil.prems(1) by simp
  then show ?case by (simp add: n open_turn_def)
next
  case (Cons st rest)
  let ?p = "interval_of oor (LevelEnd st)" and ?D = "Duration st"
  let ?m = "?D div ?p + 1"
  have lt: "curStep g < length sc"
    using Cons.prems(1) by (metis drop_all leI list.distinct(1))
  have st: "st = sc ! curStep g" "drop (curStep g + 1) sc = rest"
    using Cons.prems(1) lt by (simp_all add: Cons_nth_drop_Suc [symmetric])
  have ok: "const_ok oor st" "list_all (const_ok oor) rest" using Cons.prems(2) by auto
  then have p: "1 \<le> ?p" "0 \<le> ?D" by (auto simp: const_ok_def)
  have ps: "period oor st = (?p, ?D)" by (simp add: period_def)
  have m: "0 \<le> ?D div ?p" using p by (simp add: pos_imp_zdiv_nonneg_iff)
  have "t + ?p * ?m \<le> const_end (t + ?p * ?m) (map (period oor) rest)"
    using ok(2) by (intro const_end_ge) (auto simp: list_all_iff period_def const_ok_def)
  then have hi: "t + ?p * ?m < 2 ^ 63" using Cons.prems(6) by (simp add: ps)
  have "0 \<le> ?p * ?m" using p m by simp
  then have t': "0 \<le> t + ?p * ?m" using Cons.prems(5) by simp
  let ?r = "const_ref (t + ?p * ?m) (map (period oor) rest)"
  obtain k where n: "n = nat (?m - 0) + k" "length ?r < k"
  proof
    show "n = nat (?m - 0) + (n - nat ?m)" "length ?r < n - nat ?m"
      using Cons.prems(7) m by (simp_all add: ps)
  qed
  have acc: "accum g = t + ?p * 0" using Cons.prems(3) by simp
  from open_gen_step [OF lt st(1) ok(1) refl refl Cons.prems(4) acc order_refl m Cons.prems(5) hi, of k]
  obtain g' where g': "curStep g' = curStep g + 1" "accum g' = t + ?p * ?m"
      "finishedSteps g' = t + ?p * ?m"
      "open_gen oor sc n g = (let (xs, e) = open_gen oor sc k g'
         in (map (\<lambda>i. t + ?p * i) [0 + 1..?m] @ xs, e))"
    unfolding n by auto
  have "open_gen oor sc k g' = (?r, GenClosed)"
    using Cons.IH [of g' "t + ?p * ?m" k] g' st(2) ok(2) t' Cons.prems(6) n(2)
    by (simp add: ps)
  then show ?case by (simp add: g'(4) ps)
qed

section \<open>Steps without a rate\<close>

text \<open>A step whose rate is never positive: a constant level of zero, or a decreasing ramp.\<close>

definition slope :: "WorkloadLevel \<Rightarrow> f64" where
  "slope st = (LevelEnd st - LevelStart st) / (f64_of_int (Duration st) / f64_of_int Second)"

definition rateless :: "WorkloadLevel \<Rightarrow> bool" where
  "rateless st = (if f64_eq (LevelStart st) (LevelEnd st) then \<not> f0 < LevelEnd st else slope st < f0)"

lemma slope_ok: "level_wf st \<Longrightarrow> f64_ok (slope st)"
  by (auto simp: slope_def level_wf_def intro!: f64_div_signs(1) f64_ok_minus f64_ok_of_int)

lemma rateless_rate:
  assumes "level_wf st" "rateless st" "0 \<le> n"
  shows "\<not> f0 < open_rate st n"
proof (cases "f64_eq (LevelStart st) (LevelEnd st)")
  case False
  then have "f64_np (slope st)"
    using assms(2) neg_np [OF slope_ok [OF assms(1)]] by (simp add: rateless_def f0_def)
  moreover have "f64_of_int 2 * f64_of_int n = FNaN \<or> f64_nn (f64_of_int 2 * f64_of_int n)"
    using assms(3) by (intro f64_mul_signs(2) f64_of_int_nn) auto
  ultimately have "f64_of_int 2 * f64_of_int n / slope st = FNaN
      \<or> f64_np (f64_of_int 2 * f64_of_int n / slope st)"
    using f64_div_signs(3) [of "f64_of_int 2 * f64_of_int n" "slope st"] by (auto simp: f64_ops)
  then have "\<not> f64_of_int 0 < slope st * f64_sqrt (f64_of_int 2 * f64_of_int n / slope st)"
    using sqrt_np_not_pos slope_ok [OF assms(1)] by blast
  then show ?thesis using False by (simp add: open_rate_def slope_def Let_def f0_def)
qed (use assms(2) in \<open>simp add: rateless_def open_rate_def\<close>)

lemma f0_self: "f64_eq f0 f0"
  by (simp add: f64_ops f0_def f64_of_int_def fround_def fzero_def)

lemma interval_zero: "interval_of oor (open_rate st n) = 0"
  if "\<not> f0 < open_rate st n"
proof -
  have "f64_nn f0" by (simp add: f0_def f64_of_int_nn)
  from f64_eq_zero [OF this f0_self] that show ?thesis
    by (simp add: interval_of_def open_interval_def)
qed

lemma open_gen_flood:
  assumes "level_wf st" "rateless st" "0 \<le> Duration st" "Duration st < 2 ^ 63"
    and "curStep g = 0" "accum g = 0" "finishedSteps g = 0" "0 \<le> cnt g" "cnt g + int n \<le> 2 ^ 63"
  shows "open_gen oor (st # rest) n g = (replicate n 0, GenMore)"
  using assms(5-)
proof (induction n arbitrary: g)
  case (Suc n)
  have z: "interval_of oor (open_rate st (cnt g)) = 0"
    using rateless_rate [OF assms(1,2)] Suc.prems by (intro interval_zero) simp
  have w0: "wrap64 0 = 0" "wrap64 (Duration st) = Duration st"
    using assms(3,4) by (simp_all add: fits64_def)
  have "open_turn oor (st # rest) g
      = GenSend 0 \<lparr>curStep = 0, cnt = wrap64 (cnt g + 1), accum = 0, finishedSteps = 0\<rparr>"
    using open_turn_send [of g "st # rest" st 0 oor] Suc.prems assms(3) z w0 by simp
  moreover have "open_gen oor (st # rest) n
      \<lparr>curStep = 0, cnt = wrap64 (cnt g + 1), accum = 0, finishedSteps = 0\<rparr> = (replicate n 0, GenMore)"
  proof (cases n)
    case (Suc k)
    then have "wrap64 (cnt g + 1) = cnt g + 1"
      using Suc.prems by (intro wrap64_id) (simp add: fits64_def)
    then show ?thesis using Suc.prems by (intro Suc.IH) simp_all
  qed simp
  ultimately show ?case by simp
qed simp

section \<open>The generator as a source\<close>

definition open_produces ::
  "(f64 \<Rightarrow> duration) \<times> WorkloadLevel list \<times> nat \<Rightarrow> duration list \<Rightarrow> bool" where
  "open_produces = (\<lambda>(oor, sc, n) offs. list_all level_wf sc \<and> usual_oor oor
     \<and> fst (open_schedule oor sc n) = offs \<and> (\<forall>x \<in> set offs. 0 \<le> x))"

lemma open_gen_range:
  "open_gen oor sc n g = (offs, e) \<Longrightarrow> x \<in> set offs \<Longrightarrow> x < 2 ^ 63"
proof (induction n arbitrary: g offs e)
  case (Suc n)
  show ?case
  proof (cases "open_turn oor sc g")
    case (GenSend a g')
    then have "a < 2 ^ 63"
      using fits64_wrap64 by (auto simp: open_turn_def Let_def fits64_def split: if_splits)
    with GenSend Suc show ?thesis by (auto split: prod.splits)
  qed (use Suc.prems in auto)
qed simp

interpretation open_src: schedule_source open_produces
proof
  fix c offs
  assume p: "open_produces c offs"
  then obtain oor sc n e where c: "list_all level_wf sc" "usual_oor oor" "\<forall>x \<in> set offs. 0 \<le> x"
      "open_gen oor sc n open_gen0 = (offs, e)"
    by (cases c) (auto simp: open_produces_def open_schedule_def prod_eq_iff)
  show "sorted offs"
    using open_gen_sorted [OF c(1,2) _ _ c(4)] c(3) by (simp add: open_gen0_def)
  show "0 \<le> x \<and> x < 2 ^ 63" if "x \<in> set offs" for x
    using that c open_gen_range by blast
qed

section \<open>Running the schedule\<close>

text \<open>
  \<open>SpawnInitial\<close> computes with \<open>math.Min\<close> and \<open>math.Max\<close> on doubles; a count of workers is an
  \<open>int\<close>.
\<close>

definition math_min :: "f64 \<Rightarrow> f64 \<Rightarrow> f64" where
  "math_min x y =
     (if x = FInf True \<or> y = FInf True then FInf True
      else if x = FNaN \<or> y = FNaN then FNaN
      else if f64_eq x f0 \<and> f64_eq x y then (if f64_np x then x else y)
      else if x < y then x else y)"

definition math_max :: "f64 \<Rightarrow> f64 \<Rightarrow> f64" where
  "math_max x y =
     (if x = FInf False \<or> y = FInf False then FInf False
      else if x = FNaN \<or> y = FNaN then FNaN
      else if f64_eq x f0 \<and> f64_eq x y then (if f64_np x then y else x)
      else if y < x then x else y)"

definition initial_workers :: "(f64 \<Rightarrow> int) \<Rightarrow> int \<Rightarrow> int \<Rightarrow> int" where
  "initial_workers oor MinWorkers MaxWorkers =
     (let n = to_duration oor (math_min (f64_of_int MaxWorkers) (f64_of_int MinWorkers))
      in to_duration oor (math_max f1 (f64_of_int n)))"

text \<open>
  What the loop finds at each offset: whether \<open>Interrupt\<close> was called, the time since
  \<open>StartTime\<close>, whether a worker is waiting on the channel, what \<open>Status.GetSleeping\<close> returns,
  and whether some worker ever takes an offset that is sent blocking.
\<close>

record OpenEnv =
  interrupted :: bool
  elapsed :: duration
  readerWaits :: bool
  sleeping :: int
  taken :: bool

datatype open_event =
    OpenSpawn
  | Handed duration
  | HandedLate duration
  | CloseSchedule
  | OpenStop

datatype run_end = RunComplete | RunBlocked | RunPanic panic

fun open_loop ::
  "(nat \<Rightarrow> OpenEnv) \<Rightarrow> int \<Rightarrow> duration \<Rightarrow> nat \<Rightarrow> duration \<Rightarrow> int \<Rightarrow> duration list
   \<Rightarrow> open_event list \<times> run_end" where
  "open_loop env MaxWorkers stopCutoff k prev workerCnt [] = ([], RunComplete)"
| "open_loop env MaxWorkers stopCutoff k prev workerCnt (offset # offs) =
     (if interrupted (env k) then ([], RunComplete)
      else if offset < prev then ([], RunPanic (PanicMsg ''Schedule offsets have to be ever-increasing''))
      else if stopCutoff < elapsed (env k) then ([], RunComplete)
      else if readerWaits (env k) then
        let (es, e) = open_loop env MaxWorkers stopCutoff (Suc k) offset workerCnt offs
        in (Handed offset # es, e)
      else
        let notMaxed = (MaxWorkers \<le> 0 \<or> workerCnt < MaxWorkers);
            spawn = (notMaxed \<and> sleeping (env k) \<le> 0);
            pre = (if spawn then [OpenSpawn] else [])
        in if \<not> taken (env k) then (pre, RunBlocked)
           else
             let (es, e) = open_loop env MaxWorkers stopCutoff (Suc k) offset
                   (if spawn then workerCnt + 1 else workerCnt) offs
             in (pre @ HandedLate offset # es, e))"

text \<open>Integer division truncates.\<close>

definition stop_cutoff :: "duration \<Rightarrow> duration" where
  "stop_cutoff s = wrap64 (s + (if s < 0 then - (- s div 10) else s div 10))"

definition open_run ::
  "(f64 \<Rightarrow> int) \<Rightarrow> (nat \<Rightarrow> OpenEnv) \<Rightarrow> int \<Rightarrow> int \<Rightarrow> WorkloadLevel list \<Rightarrow> duration list
   \<Rightarrow> open_event list \<times> run_end" where
  "open_run oor env MinWorkers MaxWorkers scenario offs =
     (let n = initial_workers oor MinWorkers MaxWorkers;
          (es, e) = open_loop env MaxWorkers (stop_cutoff (sum_durations scenario)) 0 0 (max 0 n) offs
      in (replicate (nat n) OpenSpawn @ es
            @ (if e = RunComplete then [CloseSchedule, OpenStop] else []), e))"

text \<open>The offsets that reach a worker.\<close>

fun handed :: "open_event list \<Rightarrow> duration list" where
  "handed [] = []"
| "handed (Handed d # es) = d # handed es"
| "handed (HandedLate d # es) = d # handed es"
| "handed (_ # es) = handed es"

lemma handed_append [simp]: "handed (xs @ ys) = handed xs @ handed ys"
  by (induction xs rule: handed.induct) simp_all

lemma handed_spawns [simp]: "handed (replicate n OpenSpawn) = []"
  by (induction n) simp_all

lemma handed_tail [simp]: "handed (if b then [CloseSchedule, OpenStop] else []) = []"
  by simp

lemma open_loop_handed:
  "open_loop env m cutoff k prev w offs = (es, e) \<Longrightarrow>
     (\<exists>rest. offs = handed es @ rest)
     \<and> count_list es CloseSchedule = 0 \<and> count_list es OpenStop = 0"
  by (induction offs arbitrary: k prev w es)
    (force simp: Let_def split: if_splits prod.splits)+

lemma open_loop_complete:
  assumes "\<forall>i. \<not> interrupted (env i) \<and> elapsed (env i) \<le> cutoff \<and> taken (env i)" "sorted (prev # offs)"
  shows "\<exists>es. open_loop env m cutoff k prev w offs = (es, RunComplete) \<and> handed es = offs"
  using assms(2)
proof (induction offs arbitrary: k prev w)
  case (Cons off offs)
  obtain es where es: "open_loop env m cutoff (Suc k) off w offs = (es, RunComplete)" "handed es = offs"
    using Cons by fastforce
  obtain es' where es': "open_loop env m cutoff (Suc k) off (w + 1) offs = (es', RunComplete)"
      "handed es' = offs"
    using Cons by fastforce
  have "\<not> off < prev" "\<not> interrupted (env k)" "\<not> cutoff < elapsed (env k)" "taken (env k)"
    using Cons.prems assms(1) by (auto simp: not_less)
  then show ?case by (simp add: Let_def es es')
qed simp

lemma open_loop_workers:
  assumes "open_loop env m cutoff k prev w offs = (es, e)" "0 < m" "w \<le> m"
  shows "w + int (count_list es OpenSpawn) \<le> m"
  using assms(1,3)
proof (induction offs arbitrary: k prev w es)
  case (Cons off offs)
  show ?case
    using Cons.prems assms(2)
    by (auto simp: Let_def split: if_splits prod.splits dest!: Cons.IH)
qed simp

lemma open_loop_in_order:
  "sorted (prev # offs) \<Longrightarrow> snd (open_loop env m cutoff k prev w offs) \<noteq> RunPanic p"
proof (induction offs arbitrary: k prev w)
  case (Cons off offs)
  have "\<not> off < prev" using Cons.prems by (simp add: not_less)
  moreover have "snd (open_loop env m cutoff (Suc k) off v offs) \<noteq> RunPanic p" for v
    using Cons by simp
  ultimately show ?case
    by (auto simp: Let_def split: prod.splits) (metis snd_conv)+
qed simp

context schedule_source begin

lemma from_zero: "produces c offs \<Longrightarrow> sorted (0 # offs)"
  using in_order in_time by auto

lemma open_loop_no_panic:
  "produces c offs \<Longrightarrow> snd (open_loop env m cutoff k 0 w offs) \<noteq> RunPanic p"
  by (rule open_loop_in_order [OF from_zero])

lemma open_loop_all_handed:
  assumes "produces c offs"
    and "\<forall>i. \<not> interrupted (env i) \<and> elapsed (env i) \<le> cutoff \<and> taken (env i)"
  shows "\<exists>es. open_loop env m cutoff k 0 w offs = (es, RunComplete) \<and> handed es = offs"
  by (rule open_loop_complete [OF assms(2) from_zero [OF assms(1)]])

end

section \<open>The initial workers\<close>

lemma fround_minus: "fround True a b = f64_uminus (fround False a b)"
  by (simp add: fround_def fzero_def Let_def case_prod_beta if_distrib [of f64_uminus])

lemma f64_of_int_minus: "n < 0 \<Longrightarrow> f64_of_int n = f64_uminus (f64_of_int (- n))"
  by (simp add: f64_of_int_def fround_minus)

lemma trunc_uminus: "f64_trunc x = Some n \<Longrightarrow> f64_trunc (f64_uminus x) = Some (- n)"
  by (cases x) (auto simp: sg_def)

lemma f64_trunc_of_int:
  assumes "\<bar>n\<bar> < 2 ^ 53"
  shows "f64_trunc (f64_of_int n) = Some n"
proof -
  have pos: "f64_trunc (f64_of_int m) = Some m" if m: "0 \<le> m" "m < 2 ^ 53" for m
  proof -
    obtain k e where "f64_of_int m = FFin False k e" "fval (FFin False k e) = real_of_int m"
      using f64_of_int_nonneg [OF m] by metis
    then show ?thesis using f64_trunc_nonneg [of "f64_of_int m" k e] by simp
  qed
  show ?thesis
  proof (cases "n < 0")
    case True
    then show ?thesis using pos [of "- n"] trunc_uminus [of "f64_of_int (- n)" "- n"] assms
      by (simp add: f64_of_int_minus)
  qed (use pos assms in simp)
qed

lemma to_duration_of_int:
  assumes "\<bar>n\<bar> < 2 ^ 53" shows "to_duration oor (f64_of_int n) = n"
proof -
  have "- (2 ^ 63) \<le> n" "n < 2 ^ 63" using assms by simp_all
  then show ?thesis
    by (simp add: to_duration_def i64_of_f64_def f64_trunc_of_int [OF assms])
qed

lemma f64_of_int_finite: "\<bar>n\<bar> < 2 ^ 53 \<Longrightarrow> f64_of_int n \<noteq> FNaN \<and> f64_of_int n \<noteq> FInf s"
  using f64_of_int_exact(2) [of n] by (auto simp: finite_f64_def)

lemma math_min_int:
  assumes "\<bar>a\<bar> < 2 ^ 53" "\<bar>b\<bar> < 2 ^ 53"
  shows "math_min (f64_of_int a) (f64_of_int b) = f64_of_int (min a b)"
    "math_max (f64_of_int a) (f64_of_int b) = f64_of_int (max a b)"
  using assms
  by (auto simp: math_min_def math_max_def f0_def f64_of_int_finite f64_of_int_cmp)

lemma initial_workers_int:
  assumes "\<bar>MinWorkers\<bar> < 2 ^ 53" "\<bar>MaxWorkers\<bar> < 2 ^ 53"
  shows "initial_workers oor MinWorkers MaxWorkers = max 1 (min MaxWorkers MinWorkers)"
proof -
  let ?n = "min MaxWorkers MinWorkers"
  have n: "\<bar>?n\<bar> < 2 ^ 53" "\<bar>max 1 ?n\<bar> < 2 ^ 53" using assms by auto
  show ?thesis
    using assms n
    by (simp add: initial_workers_def f1_def math_min_int to_duration_of_int del: max_def min_def)
qed

section \<open>The properties\<close>



text \<open>
  C26: whatever the levels, the offsets the generator sends are in order as long as the time
  does not overflow, and \<open>Run\<close> never stops with ``schedule offsets have to be
  ever-increasing''.
\<close>

theorem open_run_in_order:
  assumes "list_all level_wf sc" "usual_oor oor" "open_schedule oor sc n = (offs, e)"
    and "\<forall>x \<in> set offs. 0 \<le> x"
  shows "sorted offs \<and> snd (open_run oor env MinWorkers MaxWorkers sc offs) \<noteq> RunPanic p"
proof -
  have src: "open_produces (oor, sc, n) offs" using assms by (simp add: open_produces_def)
  show ?thesis
    using open_src.in_order [OF src] open_src.open_loop_no_panic [OF src]
    by (auto simp: open_run_def Let_def split: prod.splits) (metis snd_conv)
qed

theorem open_run_in_order_witness:
  "sorted [0, 707106781, 1207106781 :: duration]
   \<and> snd (open_run (\<lambda>_. 0) (\<lambda>_. \<lparr>interrupted = False, elapsed = 0, readerWaits = False, sleeping = 1,
        taken = True\<rparr>) 1 1 [whole_level 0 1 Second] [0, 707106781, 1207106781]) \<noteq> RunPanic NilDeref"
proof (rule open_run_in_order)
  show "open_schedule (\<lambda>_. 0) [whole_level 0 1 Second] 4 = ([0, 707106781, 1207106781], GenClosed)"
    by code_simp
  show "list_all level_wf [whole_level 0 1 Second]" by code_simp
qed (simp_all add: usual_oor_def)

text \<open>
  A first step without a positive rate (a pause of rate 0, or a ramp downwards) does not
  send nothing or slow down: the generator sends the offset 0 without end, a request as fast
  as the workers can, and never reaches the next step.
\<close>

theorem rateless_first_step_floods:
  assumes "level_wf st" "rateless st" "0 \<le> Duration st" "Duration st < 2 ^ 63" "int n \<le> 2 ^ 63"
  shows "open_schedule oor (st # rest) n = (replicate n 0, GenMore)"
  unfolding open_schedule_def
  using assms by (intro open_gen_flood) (simp_all add: open_gen0_def)

theorem rateless_first_step_floods_witness:
  "open_schedule (\<lambda>_. 0) [whole_level 10 5 (60 * Second), whole_level 5 5 Second] 1000
    = (replicate 1000 0, GenMore)"
proof (rule rateless_first_step_floods)
  show "level_wf (whole_level 10 5 (60 * Second))" by code_simp
  show "rateless (whole_level 10 5 (60 * Second))" by code_simp
qed simp_all

text \<open>
  A later step without a positive rate ends the process: the generator panics at the first
  request of the step with ``schedule calculations stuck''.
\<close>

theorem rateless_later_step_panics:
  assumes "curStep g < length sc" "level_wf (sc ! curStep g)" "rateless (sc ! curStep g)"
    and "0 \<le> cnt g" "accum g \<noteq> 0"
  shows "open_turn oor sc g = GenPanic (PanicMsg ''schedule calculations stuck'')"
  using rateless_rate [OF assms(2-4)] f0_self assms(1,5)
  by (simp add: open_turn_def open_interval_def)

theorem rateless_later_step_panics_witness:
  "open_turn (\<lambda>_. 0) [whole_level 1 1 Second, whole_level 0 0 Second]
     \<lparr>curStep = 1, cnt = 2, accum = 2 * Second, finishedSteps = 2 * Second\<rparr>
    = GenPanic (PanicMsg ''schedule calculations stuck'')"
proof (rule rateless_later_step_panics)
  let ?g = "\<lparr>curStep = 1, cnt = 2, accum = 2 * Second, finishedSteps = 2 * Second\<rparr>"
  show "level_wf ([whole_level 1 1 Second, whole_level 0 0 Second] ! curStep ?g)" by code_simp
  show "rateless ([whole_level 1 1 Second, whole_level 0 0 Second] ! curStep ?g)" by code_simp
qed simp_all

text \<open>
  The starting level of a ramp is ignored: a ramp from \<open>a\<close> to \<open>b\<close> requests per second
  has the schedule of the ramp from 0 to \<open>b - a\<close>.
\<close>

theorem open_ramp_start_ignored:
  assumes "0 \<le> a" "a < b" "b < 2 ^ 53"
  shows "open_schedule oor [whole_level a b d] n = open_schedule oor [whole_level 0 (b - a) d] n"
proof -
  have "f64_of_int (b - a) - f64_of_int 0 = f64_of_int (b - a)"
    using assms by (subst f64_of_int_diff) auto
  then have rate: "open_rate (whole_level a b d) k = open_rate (whole_level 0 (b - a) d) k" for k
    using assms by (simp add: open_rate_def f64_of_int_cmp f64_of_int_diff)
  have turn: "open_turn oor [whole_level a b d] g = open_turn oor [whole_level 0 (b - a) d] g" for g
    by (cases "curStep g") (simp_all add: open_turn_def rate Let_def)
  have "open_gen oor [whole_level a b d] n g = open_gen oor [whole_level 0 (b - a) d] n g" for g
    by (induction n arbitrary: g) (simp_all add: turn split: gen_turn.splits)
  then show ?thesis by (simp add: open_schedule_def)
qed

theorem open_ramp_start_ignored_witness:
  "open_schedule (\<lambda>_. 0) [whole_level 100 101 Second] 60 = ([0, 707106781, 1207106781], GenClosed)"
proof -
  have "open_schedule (\<lambda>_. 0) [whole_level 0 1 Second] 60 = ([0, 707106781, 1207106781], GenClosed)"
    by code_simp
  then show ?thesis
    using open_ramp_start_ignored [of 100 101 "\<lambda>_. 0" Second 60] by simp
qed


lemma count_spawns: "count_list (replicate n OpenSpawn) OpenSpawn = n"
  by (induction n) simp_all

text \<open>
  C27: with a limit of workers, \<open>Run\<close> starts at least one worker and at most the limit,
  whatever happens during the test.
\<close>

theorem open_run_worker_limit:
  assumes "0 < MaxWorkers" "MaxWorkers < 2 ^ 53" "\<bar>MinWorkers\<bar> < 2 ^ 53"
    and "open_run oor env MinWorkers MaxWorkers sc offs = (es, e)"
  shows "1 \<le> count_list es OpenSpawn \<and> int (count_list es OpenSpawn) \<le> MaxWorkers"
proof -
  have n: "initial_workers oor MinWorkers MaxWorkers = max 1 (min MaxWorkers MinWorkers)"
    using assms(1-3) by (intro initial_workers_int) auto
  let ?n = "max 1 (min MaxWorkers MinWorkers)"
  obtain xs where xs: "open_loop env MaxWorkers (stop_cutoff (sum_durations sc)) 0 0 ?n offs = (xs, e)"
    and es: "es = replicate (nat ?n) OpenSpawn @ xs
      @ (if e = RunComplete then [CloseSchedule, OpenStop] else [])"
    using assms(4) unfolding open_run_def n Let_def
    by (simp split: prod.splits del: max.absorb1 max.absorb2 max.absorb3 max.absorb4)
      (auto simp: max_def split: if_splits)
  have "?n + int (count_list xs OpenSpawn) \<le> MaxWorkers"
    using open_loop_workers [OF xs assms(1)] assms(1) by simp
  then show ?thesis
    unfolding es by (simp add: count_spawns) linarith
qed

theorem open_run_worker_limit_witness:
  "1 \<le> count_list [OpenSpawn, OpenSpawn, OpenSpawn, HandedLate 0, HandedLate 5, CloseSchedule, OpenStop] OpenSpawn
   \<and> int (count_list [OpenSpawn, OpenSpawn, OpenSpawn, HandedLate 0, HandedLate 5, CloseSchedule, OpenStop]
        OpenSpawn) \<le> 3"
proof (rule open_run_worker_limit)
  show "open_run (\<lambda>_. 0) (\<lambda>_. \<lparr>interrupted = False, elapsed = 0, readerWaits = False, sleeping = 0,
        taken = True\<rparr>) 2 3 [whole_level 1 1 Second] [0, 5]
    = ([OpenSpawn, OpenSpawn, OpenSpawn, HandedLate 0, HandedLate 5, CloseSchedule, OpenStop], RunComplete)"
    by code_simp
qed simp_all



text \<open>
  Without a limit (\<open>maxworkers: 0\<close>, which the loop reads as no limit) the number of starting
  workers is lost: one worker is started, whatever \<open>startingworkers\<close> says.
\<close>

theorem starting_workers_lost_without_limit:
  assumes "\<bar>MinWorkers\<bar> < 2 ^ 53"
  shows "initial_workers oor MinWorkers 0 = 1"
  using initial_workers_int [of MinWorkers 0 oor] assms by simp

theorem starting_workers_lost_without_limit_witness: "initial_workers (\<lambda>_. 0) 100 0 = 1"
  by (rule starting_workers_lost_without_limit) simp

end
