(* ===== verification/Open_System.thy ===== *)
theory Open_System
  imports Open_Workload Workload_Crew
begin

text \<open>
  \<open>Run\<close> of \<open>pkg/scenario/open.go\<close> together with its workers: what \<open>open_run\<close> takes from an environment
  (whether a worker waits on the channel, how many sleep, whether somebody ever takes an offset) comes
  from the workers of \<open>Worker_System\<close> here.  Every complete run of the system is a run of \<open>open_run\<close>,
  so its properties hold of the system; and the system shows when it never completes.
\<close>

section \<open>The system\<close>

text \<open>
  Where \<open>Run\<close> is: starting the initial workers; at the head of its loop; in the default branch of the
  select, with the time it has read; sending, with whether it has started a worker and the number of
  sleeping workers it saw; after the loop; telling the workers to stop.
\<close>

datatype loop_at =
    Starting nat
  | Looping
  | Deciding duration
  | Sending bool duration int
  | Closing
  | Stopping nat
  | RunOver
  | Panicked panic

text \<open>
  \<open>coming\<close> is what the generator has still to give, the offset in hand first; \<open>found\<close> and \<open>events\<close>
  record what each turn of the loop has found and done.
\<close>

record open_sys =
  crew :: sys
  loopAt :: loop_at
  coming :: "duration list"
  lastOffset :: duration
  told :: bool
  found :: "OpenEnv list"
  events :: "open_event list"

definition open_start :: "int \<Rightarrow> duration list \<Rightarrow> bool \<Rightarrow> nat \<Rightarrow> bool \<Rightarrow> open_sys" where
  "open_start n offs ow ins shut =
     \<lparr>crew = start_sys False ow (length offs) ins shut, loopAt = (if n \<le> 0 then Looping else Starting (nat n)),
      coming = offs, lastOffset = 0, told = False, found = [], events = []\<rparr>"

datatype open_act =
    Crew act | SpawnInitially | Turn duration nat | Decide | SendLate nat | CloseNow | StopNext | Interrupt

definition reader_waits :: "sys \<Rightarrow> bool" where
  "reader_waits s = list_ex (\<lambda>c. c = AwaitOffset) (pcs s)"

fun open_act_step :: "int \<Rightarrow> duration \<Rightarrow> open_act \<Rightarrow> open_sys \<Rightarrow> open_sys option" where
  "open_act_step MaxWorkers stopCutoff (Crew a) s =
     (if own_act a (crew s) then with_crew a (\<lambda>w. s\<lparr>crew := w\<rparr>) (crew s) else None)"
| "open_act_step MaxWorkers stopCutoff SpawnInitially s =
     (case loopAt s of
        Starting (Suc n) \<Rightarrow> with_crew Spawn (\<lambda>w. s\<lparr>crew := w, loopAt := (if n = 0 then Looping else Starting n)\<rparr>) (crew s)
      | _ \<Rightarrow> None)"
| "open_act_step MaxWorkers stopCutoff (Turn now k) s =
     (if loopAt s \<noteq> Looping then None
      else case coming s of
        [] \<Rightarrow> Some (s\<lparr>loopAt := Closing\<rparr>)
      | offset # rest \<Rightarrow>
          let seen = \<lparr>interrupted = told s, elapsed = now, readerWaits = reader_waits (crew s), sleeping = 0, taken = True\<rparr>
          in if told s then Some (s\<lparr>loopAt := Closing, found := found s @ [seen]\<rparr>)
             else if offset < lastOffset s
             then Some (s\<lparr>loopAt := Panicked (PanicMsg ''Schedule offsets have to be ever-increasing'')\<rparr>)
             else if stopCutoff < now then Some (s\<lparr>loopAt := Closing, found := found s @ [seen]\<rparr>)
             else if reader_waits (crew s)
             then with_crew (TakeOffset k) (\<lambda>w. s\<lparr>crew := w, coming := rest, lastOffset := offset,
                    found := found s @ [seen], events := events s @ [Handed offset]\<rparr>) (crew s)
             else Some (s\<lparr>loopAt := Deciding now\<rparr>))"
| "open_act_step MaxWorkers stopCutoff Decide s =
     (case loopAt s of
        Deciding now \<Rightarrow>
          let asleep = Status.sleeping (status (crew s));
              notMaxed = (MaxWorkers \<le> 0 \<or> int (length (pcs (crew s))) < MaxWorkers)
          in if notMaxed \<and> asleep \<le> 0
             then with_crew Spawn (\<lambda>w. s\<lparr>crew := w, loopAt := Sending True now asleep\<rparr>) (crew s)
             else Some (s\<lparr>loopAt := Sending False now asleep\<rparr>)
      | _ \<Rightarrow> None)"
| "open_act_step MaxWorkers stopCutoff (SendLate k) s =
     (case (loopAt s, coming s) of
        (Sending spawned now asleep, offset # rest) \<Rightarrow>
          with_crew (TakeOffset k) (\<lambda>w. s\<lparr>crew := w, loopAt := Looping, coming := rest, lastOffset := offset,
            found := found s @ [\<lparr>interrupted = False, elapsed = now, readerWaits = False, sleeping = asleep, taken = True\<rparr>],
            events := events s @ (if spawned then [OpenSpawn] else []) @ [HandedLate offset]\<rparr>) (crew s)
      | _ \<Rightarrow> None)"
| "open_act_step MaxWorkers stopCutoff CloseNow s =
     (if loopAt s = Closing then with_crew CloseSched (\<lambda>w. s\<lparr>crew := w, loopAt := Stopping 0\<rparr>) (crew s) else None)"
| "open_act_step MaxWorkers stopCutoff StopNext s =
     (case loopAt s of
        Stopping j \<Rightarrow>
          map_option (\<lambda>(w, next). s\<lparr>crew := w, loopAt := (case next of Some i \<Rightarrow> Stopping i | None \<Rightarrow> RunOver)\<rparr>)
            (stop_turn j (crew s))
      | _ \<Rightarrow> None)"
| "open_act_step MaxWorkers stopCutoff Interrupt s = Some (s\<lparr>told := True\<rparr>)"

text \<open>A panic ends the process.\<close>

definition open_step :: "int \<Rightarrow> duration \<Rightarrow> open_act \<Rightarrow> open_sys \<Rightarrow> open_sys option" where
  "open_step MaxWorkers stopCutoff a s =
     (case loopAt s of Panicked p \<Rightarrow> None | _ \<Rightarrow> open_act_step MaxWorkers stopCutoff a s)"

section \<open>The system is a run of \<open>open_run\<close>\<close>

text \<open>
  \<open>loop_so_far\<close>: the loop on all offsets is the events there have been and then the loop on those to
  come, for every environment that agrees with what was found.
\<close>

definition loop_so_far :: "int \<Rightarrow> duration \<Rightarrow> int \<Rightarrow> duration list \<Rightarrow> int \<Rightarrow> open_sys \<Rightarrow> bool" where
  "loop_so_far MaxWorkers cutoff n0 offs wc s =
     (\<forall>env. agrees env (found s) \<longrightarrow> open_loop env MaxWorkers cutoff 0 0 n0 offs =
        (case open_loop env MaxWorkers cutoff (length (found s)) (lastOffset s) wc (coming s) of
           (es, e) \<Rightarrow> (events s @ es, e)))"

definition may_spawn :: "int \<Rightarrow> int \<Rightarrow> int \<Rightarrow> bool" where
  "may_spawn MaxWorkers wc asleep = ((MaxWorkers \<le> 0 \<or> wc < MaxWorkers) \<and> asleep \<le> 0)"

definition in_hand_ok :: "duration \<Rightarrow> duration \<Rightarrow> open_sys \<Rightarrow> bool" where
  "in_hand_ok cutoff now s = (coming s \<noteq> [] \<and> lastOffset s \<le> hd (coming s) \<and> now \<le> cutoff)"

definition loop_done :: "int \<Rightarrow> duration \<Rightarrow> int \<Rightarrow> duration list \<Rightarrow> open_sys \<Rightarrow> bool" where
  "loop_done MaxWorkers cutoff n0 offs s =
     (\<forall>env. agrees env (found s) \<longrightarrow> open_loop env MaxWorkers cutoff 0 0 n0 offs = (events s, RunComplete))"

fun open_ok :: "int \<Rightarrow> duration \<Rightarrow> int \<Rightarrow> duration list \<Rightarrow> loop_at \<Rightarrow> int \<Rightarrow> open_sys \<Rightarrow> bool" where
  "open_ok m stopAt n0 offs (Starting j) wc s =
     (wc + int j = n0 \<and> found s = [] \<and> events s = [] \<and> coming s = offs \<and> lastOffset s = 0)"
| "open_ok m stopAt n0 offs Looping wc s = loop_so_far m stopAt n0 offs wc s"
| "open_ok m stopAt n0 offs (Deciding now) wc s = (loop_so_far m stopAt n0 offs wc s \<and> in_hand_ok stopAt now s)"
| "open_ok m stopAt n0 offs (Sending sp now asleep) wc s =
     (let wc0 = (if sp then wc - 1 else wc)
      in loop_so_far m stopAt n0 offs wc0 s \<and> in_hand_ok stopAt now s \<and> sp = may_spawn m wc0 asleep)"
| "open_ok m stopAt n0 offs (Panicked p) wc s = True"
| "open_ok m stopAt n0 offs _ wc s = loop_done m stopAt n0 offs s"

definition crew_size :: "open_sys \<Rightarrow> int" where
  "crew_size s = int (length (pcs (crew s)))"

lemma open_ok_crew [simp]: "open_ok m stopAt n0 offs pl wc (s\<lparr>crew := w\<rparr>) = open_ok m stopAt n0 offs pl wc s"
  "open_ok m stopAt n0 offs pl wc (s\<lparr>loopAt := l\<rparr>) = open_ok m stopAt n0 offs pl wc s"
  "open_ok m stopAt n0 offs pl wc (s\<lparr>told := b\<rparr>) = open_ok m stopAt n0 offs pl wc s"
  by (cases pl; simp add: loop_so_far_def loop_done_def in_hand_ok_def)+

lemma turn_ok:
  assumes "loop_so_far m stopAt n0 offs wc s" "coming s = offset # rest" "lastOffset s \<le> offset"
    "elapsed x \<le> stopAt" "\<not> interrupted x" "taken x"
    "spawned = (\<not> readerWaits x \<and> may_spawn m wc (OpenEnv.sleeping x))"
    "found s' = found s @ [x]" "coming s' = rest" "lastOffset s' = offset"
    "events s' = events s @ (if readerWaits x then [Handed offset] else (if spawned then [OpenSpawn] else []) @ [HandedLate offset])"
  shows "loop_so_far m stopAt n0 offs (if spawned then wc + 1 else wc) s'"
  using assms by (auto simp: loop_so_far_def may_spawn_def Let_def split: prod.splits)

lemma stop_ok:
  assumes "loop_so_far m stopAt n0 offs wc s" "coming s = offset # rest" "lastOffset s \<le> offset \<or> interrupted x"
    "interrupted x \<or> stopAt < elapsed x" "found s' = found s @ [x]" "events s' = events s"
  shows "loop_done m stopAt n0 offs s'"
  using assms by (auto simp: loop_so_far_def loop_done_def)

definition open_inv :: "int \<Rightarrow> duration \<Rightarrow> int \<Rightarrow> duration list \<Rightarrow> open_sys \<Rightarrow> bool" where
  "open_inv m stopAt n0 offs s = open_ok m stopAt n0 offs (loopAt s) (crew_size s) s"

lemma open_inv_turn:
  assumes "open_inv m stopAt n0 offs s" "open_act_step m stopAt (Turn now k) s = Some s'"
  shows "open_inv m stopAt n0 offs s'"
proof -
  have at: "loopAt s = Looping" and so: "loop_so_far m stopAt n0 offs (crew_size s) s"
    using assms by (auto simp: open_inv_def split: if_splits)
  show ?thesis
  proof (cases "coming s")
    case Nil
    then show ?thesis
      using assms(2) at so by (auto simp: open_inv_def loop_so_far_def loop_done_def)
  next
    case (Cons offset rest)
    let ?x = "\<lparr>interrupted = told s, elapsed = now, readerWaits = reader_waits (crew s), sleeping = 0, taken = True\<rparr>"
    consider (stop) "told s \<or> lastOffset s \<le> offset \<and> stopAt < now"
      | (panic) "\<not> told s" "offset < lastOffset s"
      | (hand) "\<not> told s" "lastOffset s \<le> offset" "now \<le> stopAt" "reader_waits (crew s)"
      | (wait) "\<not> told s" "lastOffset s \<le> offset" "now \<le> stopAt" "\<not> reader_waits (crew s)"
      by linarith
    then show ?thesis
    proof cases
      case stop
      then have "s' = s\<lparr>loopAt := Closing, found := found s @ [?x]\<rparr>"
        using assms(2) at Cons by (auto simp: Let_def split: if_splits)
      moreover have "loop_done m stopAt n0 offs s'"
        using stop_ok [OF so Cons, of ?x] stop calculation by auto
      ultimately show ?thesis by (simp add: open_inv_def)
    next
      case panic
      then show ?thesis using assms(2) at Cons by (auto simp: open_inv_def)
    next
      case hand
      then obtain w where w: "exec (TakeOffset k) (crew s) = Some w"
        "s' = s\<lparr>crew := w, coming := rest, lastOffset := offset, found := found s @ [?x], events := events s @ [Handed offset]\<rparr>"
        using assms(2) at Cons by (auto simp: Let_def with_crew_Some split: if_splits)
      have "loop_so_far m stopAt n0 offs (crew_size s) s'"
        using turn_ok [OF so Cons hand(2), of ?x False s'] hand w(2) by simp
      then show ?thesis
        using exec_size [OF w(1)] at by (simp add: open_inv_def w(2) crew_size_def)
    next
      case wait
      then show ?thesis
        using assms(2) at Cons so by (auto simp: open_inv_def in_hand_ok_def crew_size_def loop_so_far_def Let_def split: if_splits)
    qed
  qed
qed

lemma open_inv_step:
  assumes "open_inv m stopAt n0 offs s" "open_step m stopAt a s = Some s'"
  shows "open_inv m stopAt n0 offs s'"
proof -
  have st: "open_act_step m stopAt a s = Some s'"
    using assms(2) by (auto simp: open_step_def split: loop_at.splits)
  show ?thesis
  proof (cases a)
    case (Crew b)
    then obtain w where w: "own_act b (crew s)" "exec b (crew s) = Some w" "s' = s\<lparr>crew := w\<rparr>"
      using st by (auto simp: with_crew_Some split: if_splits)
    then show ?thesis
      using assms(1) exec_size [OF w(2)] own_act_no_spawn [OF w(1)] by (simp add: open_inv_def crew_size_def)
  next
    case (Turn now k)
    then show ?thesis using open_inv_turn assms(1) st by blast
  next
    case SpawnInitially
    then obtain n w where "loopAt s = Starting (Suc n)" "exec Spawn (crew s) = Some w"
      "s' = s\<lparr>crew := w, loopAt := (if n = 0 then Looping else Starting n)\<rparr>"
      using st by (auto simp: with_crew_Some split: loop_at.splits nat.splits)
    then show ?thesis
      using assms(1) exec_size [of Spawn "crew s" w]
      by (auto simp: open_inv_def crew_size_def loop_so_far_def agrees_def add.commute)
  next
    case Decide
    then show ?thesis
      using st assms(1) exec_size [of Spawn "crew s"]
      by (auto simp: open_inv_def crew_size_def may_spawn_def Let_def with_crew_Some split: loop_at.splits if_splits)
  next
    case (SendLate k)
    then obtain sp now asleep offset rest w where at: "loopAt s = Sending sp now asleep" "coming s = offset # rest"
      and w: "exec (TakeOffset k) (crew s) = Some w" and s': "s' = s\<lparr>crew := w, loopAt := Looping, coming := rest, lastOffset := offset,
            found := found s @ [\<lparr>interrupted = False, elapsed = now, readerWaits = False, sleeping = asleep, taken = True\<rparr>],
            events := events s @ (if sp then [OpenSpawn] else []) @ [HandedLate offset]\<rparr>"
      using st by (auto simp: with_crew_Some split: loop_at.splits list.splits)
    let ?wc = "if sp then crew_size s - 1 else crew_size s"
    have so: "loop_so_far m stopAt n0 offs ?wc s" "lastOffset s \<le> offset" "now \<le> stopAt" "sp = may_spawn m ?wc asleep"
      using assms(1) at by (auto simp: open_inv_def in_hand_ok_def Let_def)
    have "loop_so_far m stopAt n0 offs (if sp then ?wc + 1 else ?wc) s'"
      using so(3,4) by (intro turn_ok [OF so(1) at(2) so(2), of
          "\<lparr>interrupted = False, elapsed = now, readerWaits = False, sleeping = asleep, taken = True\<rparr>"]) (simp_all add: s')
    then show ?thesis
      using exec_size [OF w] by (cases sp) (simp_all add: open_inv_def s' crew_size_def)
  next
    case CloseNow
    then show ?thesis
      using st assms(1) by (auto simp: open_inv_def with_crew_Some split: if_splits)
  next
    case StopNext
    then show ?thesis
      using st assms(1) by (auto simp: open_inv_def split: loop_at.splits option.splits)
  next
    case Interrupt
    then show ?thesis
      using st assms(1) by (auto simp: open_inv_def crew_size_def)
  qed
qed

interpretation open_sched: invariant_of "open_step m stopAt" "\<lambda>_. True" "open_inv m stopAt n0 offs"
  by unfold_locales (rule open_inv_step)

lemma open_start_inv: "open_inv m stopAt (max 0 n) offs (open_start n offs ow ins shut)"
  by (auto simp: open_inv_def open_start_def loop_so_far_def crew_size_def start_sys_def split: prod.splits)

lemma open_system_run:
  assumes "run_steps (open_step MaxWorkers (stop_cutoff (sum_durations sc))) as
      (open_start (initial_workers oor MinWorkers MaxWorkers) offs ow ins shut) = Some s"
    "loopAt s = RunOver"
  shows "\<exists>env. open_run oor env MinWorkers MaxWorkers sc offs =
    (replicate (nat (initial_workers oor MinWorkers MaxWorkers)) OpenSpawn @ events s @ [CloseSchedule, OpenStop], RunComplete)"
proof -
  let ?n = "initial_workers oor MinWorkers MaxWorkers"
  let ?env = "\<lambda>i. found s ! i"
  have "open_inv MaxWorkers (stop_cutoff (sum_durations sc)) (max 0 ?n) offs s"
    using open_sched.run_holds [OF assms(1) _ open_start_inv] by (simp add: list_all_iff)
  then have "open_loop ?env MaxWorkers (stop_cutoff (sum_durations sc)) 0 0 (max 0 ?n) offs = (events s, RunComplete)"
    using assms(2) by (simp add: open_inv_def loop_done_def agrees_def)
  then show ?thesis
    by (intro exI [of _ ?env]) (simp add: open_run_def Let_def)
qed

section \<open>Workers that have left\<close>

definition ended :: "pc \<Rightarrow> bool" where
  "ended c = (c \<in> {Stopped, Exhausted})"

lemma ended_no_move: "exec a s = Some s' \<Longrightarrow> list_all ended (pcs s) \<Longrightarrow> worker_of a = None"
proof (cases "worker_of a")
  case (Some k)
  assume "exec a s = Some s'" "list_all ended (pcs s)"
  then have "ended (fst (move a))"
    using exec_worker [of a s s' k] Some by (auto simp: list_all_length)
  then show ?thesis using Some by (cases a) (simp_all add: ended_def)
qed

lemma stuck_step:
  assumes "loopAt s = Sending sp now n \<and> pcs (crew s) = cs" "list_all ended cs" "open_step m stopAt a s = Some s'"
  shows "loopAt s' = Sending sp now n \<and> pcs (crew s') = cs"
proof -
  have st: "open_act_step m stopAt a s = Some s'"
    using assms(1,3) by (simp add: open_step_def)
  show ?thesis
  proof (cases a)
    case (Crew b)
    then obtain w where w: "own_act b (crew s)" "exec b (crew s) = Some w" "s' = s\<lparr>crew := w\<rparr>"
      using st by (auto simp: with_crew_Some split: if_splits)
    have "worker_of b = None"
      using ended_no_move [OF w(2)] assms(1,2) by simp
    then show ?thesis
      using exec_no_worker [OF w(2)] own_act_no_spawn [OF w(1)] assms(1) w(3) by simp
  next
    case (SendLate k)
    then have "\<exists>w. exec (TakeOffset k) (crew s) = Some w"
      using st assms(1) by (auto simp: with_crew_Some split: list.splits)
    then show ?thesis
      using ended_no_move [of "TakeOffset k" "crew s"] assms(1,2) by auto
  qed (use st assms(1) in auto)
qed

interpretation left_alone: invariant_of "open_step m stopAt" "\<lambda>_. True"
  "\<lambda>s. loopAt s = Sending sp now n \<and> pcs (crew s) = cs \<and> list_all ended cs"
  by unfold_locales (use stuck_step in blast)

section \<open>Properties\<close>

text \<open>
  When \<open>Run\<close> of the open workload returns, the offsets it has handed to its workers and the workers
  it has started are those of \<open>open_run\<close>, in an environment that is what the loop has found of the
  workers: the oracles of that model (is a worker waiting, do workers sleep, is the offset ever taken)
  are answered by the workers themselves, however they interleave.
\<close>

theorem open_system_is_open_run:
  assumes "run_steps (open_step MaxWorkers (stop_cutoff (sum_durations sc))) as
      (open_start (initial_workers oor MinWorkers MaxWorkers) offs ow ins shut) = Some s"
    "loopAt s = RunOver"
  shows "\<exists>env. open_run oor env MinWorkers MaxWorkers sc offs =
    (replicate (nat (initial_workers oor MinWorkers MaxWorkers)) OpenSpawn @ events s @ [CloseSchedule, OpenStop], RunComplete)"
  by (rule open_system_run [OF assms])

lemmas open_run_simps = open_step_def open_start_def with_crew_def stop_turn_def reader_waits_def run_simps

lemma short_run:
  assumes "0 \<le> c"
  shows "\<exists>s. run_steps (open_step 1 c) [SpawnInitially, Crew (Begin 0), Turn 0 0, Turn 0 0, CloseNow, StopNext, StopNext]
       (open_start 1 [0] False 5 False) = Some s \<and> loopAt s = RunOver \<and> events s = [Handed 0]"
  using assms by (simp add: open_run_simps)

theorem open_system_is_open_run_witness:
  "\<exists>env. open_run (\<lambda>_. 0) env 1 1 [whole_level 1 1 Second] [0] = ([OpenSpawn, Handed 0, CloseSchedule, OpenStop], RunComplete)"
proof -
  have n: "initial_workers (\<lambda>_. 0) 1 1 = 1" and c: "0 \<le> stop_cutoff (sum_durations [whole_level 1 1 Second])"
    by code_simp+
  obtain s where s: "run_steps (open_step 1 (stop_cutoff (sum_durations [whole_level 1 1 Second])))
      [SpawnInitially, Crew (Begin 0), Turn 0 0, Turn 0 0, CloseNow, StopNext, StopNext] (open_start 1 [0] False 5 False) = Some s"
    "loopAt s = RunOver" "events s = [Handed 0]"
    using short_run [OF c] by blast
  from open_system_is_open_run [where oor = "\<lambda>_. 0" and MinWorkers = 1 and MaxWorkers = 1, unfolded n, OF s(1,2)] s(2,3) show ?thesis
    by (auto simp: n)
qed

text \<open>
  C38: when all workers have left, because the input has ended for instance, and no more may be
  started, \<open>Run\<close> waits for ever on its channel: nothing that can still happen, \<open>Interrupt\<close> included,
  brings it on, and so neither \<open>main\<close>, which waits for \<open>Run\<close>, nor the goroutine of the signals, which
  waits for \<open>done\<close>, goes on.
\<close>

theorem open_run_waits_for_ever:
  assumes "run_steps (open_step MaxWorkers stopCutoff) as s = Some s'"
    "loopAt s = Sending spawned now asleep" "list_all ended (pcs (crew s))"
  shows "loopAt s' = loopAt s \<and> pcs (crew s') = pcs (crew s)"
  using left_alone.run_holds [OF assms(1), of spawned now asleep "pcs (crew s)"] assms(2,3) by (simp add: list_all_iff)

theorem open_run_waits_for_ever_witness:
  "\<exists>s. run_steps (open_step 1 Second) [SpawnInitially, Crew (Begin 0), Turn 0 0, Crew (NoItem 0), Turn 5 0, Decide]
        (open_start 1 [0, 5, 10] False 0 True) = Some s
     \<and> (\<forall>as s'. run_steps (open_step 1 Second) as s = Some s' \<longrightarrow> loopAt s' \<noteq> RunOver \<and> coming s = [5, 10])"
proof -
  obtain s where s: "run_steps (open_step 1 Second) [SpawnInitially, Crew (Begin 0), Turn 0 0, Crew (NoItem 0), Turn 5 0, Decide]
        (open_start 1 [0, 5, 10] False 0 True) = Some s"
    "loopAt s = Sending False 5 0" "list_all ended (pcs (crew s))" "coming s = [5, 10]"
    by (simp add: open_run_simps ended_def)
  then show ?thesis
    using open_run_waits_for_ever [OF _ s(2,3)] by auto
qed

end
