(* ===== verification/Whole_Test.thy ===== *)
theory Whole_Test
  imports Test_System Closed_System Open_System
begin

text \<open>
  A test with its workload: \<open>Run\<close> of \<open>Closed_System\<close> or \<open>Open_System\<close>, which starts the workers, hands
  out the offsets and tells the workers to stop, and \<open>Test_System\<close>, what the workers and the outputs
  do, moving together; and \<open>Run\<close> of \<open>cmd/encarno/main.go\<close>, which closes the outputs when that of the
  workload has returned.
\<close>

section \<open>The system\<close>

text \<open>
  The two parts share the workers.  An action of the workload, or of the workers, is one of both: \<open>b\<close>
  is what it does with the workers, if anything, and the two have to agree on the outcome.  A panic of
  a worker ends the process.
\<close>

datatype 'a whole_act = Control 'a "act option" iter_env | Outputs output_act | Caches cache

record 'c whole =
  controller :: 'c
  body :: test

definition alive :: "test \<Rightarrow> bool" where
  "alive t = (dead t = None \<and> broken (outSys t) = None)"

fun whole_step ::
  "('a \<Rightarrow> 'c \<Rightarrow> 'c option) \<Rightarrow> ('c \<Rightarrow> sys) \<Rightarrow> ('c \<Rightarrow> bool) \<Rightarrow> 'a whole_act \<Rightarrow> 'c whole \<Rightarrow> 'c whole option" where
  "whole_step cstep crew_of over (Control a None env) s =
     Option.bind (cstep a (controller s)) (\<lambda>c.
       guard (alive (body s) \<and> crew_of c = crew_of (controller s)) (s\<lparr>controller := c\<rparr>))"
| "whole_step cstep crew_of over (Control a (Some b) env) s =
     Option.bind (cstep a (controller s)) (\<lambda>c. Option.bind (test_step (Work b env) (body s)) (\<lambda>t.
       if dead t \<noteq> None then Some (s\<lparr>body := t\<rparr>)
       else guard (ctl t = crew_of c) (s\<lparr>controller := c, body := t\<rparr>)))"
| "whole_step cstep crew_of over (Outputs a) s =
     (if a = CloseNext \<and> \<not> over (controller s) then None
      else map_option (\<lambda>t. s\<lparr>body := t\<rparr>) (test_step (Out a) (body s)))"
| "whole_step cstep crew_of over (Caches c) s = map_option (\<lambda>t. s\<lparr>body := t\<rparr>) (test_step (ReaderCaches c) (body s))"

lemma run_from_step:
  "run_steps step as u = Some s' \<Longrightarrow> u = s \<or> (\<exists>b. step b s = Some u) \<Longrightarrow> \<exists>bs. run_steps step bs s = Some s'"
proof (elim disjE exE)
  fix b
  assume "run_steps step as u = Some s'" "step b s = Some u"
  then show "\<exists>bs. run_steps step bs s = Some s'" by (intro exI [of _ "b # as"]) simp
qed blast

text \<open>The workers close no output, and the outputs do not touch the workers.\<close>

lemma work_keeps_outputs:
  assumes "test_step (Work a env) t = Some t'"
  shows "closedOuts (outSys t') = closedOuts (outSys t)"
  using assms
  by (cases "(a, env, ctl t, t)" rule: work_step.cases)
    (auto simp: test_step_def output_step_def set_desk_def split: bind_splits list.splits sum.splits if_splits)

lemma out_keeps_crew:
  assumes "test_step (Out a) t = Some t'"
  shows "alive t \<and> ctl t' = ctl t \<and> (closedOuts (outSys t') \<noteq> closedOuts (outSys t) \<longrightarrow> a = CloseNext)"
  using assms
  by (cases a) (auto simp: test_step_def output_step_def alive_def split: if_splits option.splits sum.splits prod.splits)

section \<open>What a workload has to keep to\<close>

text \<open>
  The laws of a workload: what is \<open>sound\<close> stays so, and when it is over all its workers have been told
  to stop.
\<close>

locale workload_run =
  fixes cstep :: "'a \<Rightarrow> 'c \<Rightarrow> 'c option" and crew_of :: "'c \<Rightarrow> sys" and over :: "'c \<Rightarrow> bool" and sound :: "'c \<Rightarrow> bool"
  assumes stays_sound: "sound c \<Longrightarrow> cstep a c = Some c' \<Longrightarrow> sound c'"
    and over_told: "sound c \<Longrightarrow> over c \<Longrightarrow> all_told (crew_of c)"
    and stays_over: "sound c \<Longrightarrow> over c \<Longrightarrow> cstep a c = Some c' \<Longrightarrow> over c'"
begin

text \<open>The parts agree, and no output is closed before the workload is over.\<close>

definition joined :: "'c whole \<Rightarrow> bool" where
  "joined s =
     (sound (controller s) \<and> (alive (body s) \<longrightarrow> ctl (body s) = crew_of (controller s))
      \<and> (closedOuts (outSys (body s)) \<noteq> [] \<longrightarrow> over (controller s)))"

lemma step_parts:
  assumes "whole_step cstep crew_of over a s = Some s'"
  shows "controller s' = controller s \<or> (\<exists>b. cstep b (controller s) = Some (controller s'))"
    "body s' = body s \<or> (\<exists>b. test_step b (body s) = Some (body s'))"
  using assms by (cases "(cstep, crew_of, over, a, s)" rule: whole_step.cases; auto split: bind_splits if_splits)+

lemma run_parts:
  assumes "run_steps (whole_step cstep crew_of over) as s = Some s'"
  shows "(\<exists>cs. run_steps cstep cs (controller s) = Some (controller s')) \<and> (\<exists>bs. run_steps test_step bs (body s) = Some (body s'))"
  using assms
proof (induction as arbitrary: s)
  case Nil
  then show ?case by (auto intro: exI [of _ "[]"])
next
  case (Cons a as)
  then obtain u where u: "whole_step cstep crew_of over a s = Some u" "run_steps (whole_step cstep crew_of over) as u = Some s'"
    by (auto split: bind_splits)
  from Cons.IH [OF u(2)] obtain cs bs where
    "run_steps cstep cs (controller u) = Some (controller s')" "run_steps test_step bs (body u) = Some (body s')"
    by blast
  with step_parts [OF u(1)] show ?case
    using run_from_step by metis
qed

lemma joined_step:
  assumes "joined s" "whole_step cstep crew_of over a s = Some s'"
  shows "joined s'"
proof (cases a)
  case (Control b m env)
  then show ?thesis
    using assms stays_sound stays_over
    by (cases m) (auto simp: joined_def alive_def dest: work_keeps_outputs split: bind_splits if_splits)
next
  case (Outputs b)
  then show ?thesis
    using assms by (auto simp: joined_def alive_def dest!: out_keeps_crew split: if_splits)
next
  case (Caches c)
  then show ?thesis
    using assms by (auto simp: joined_def alive_def test_step_def split: if_splits)
qed

lemma closing:
  assumes "joined s" "over (controller s)" "run_steps test_step (replicate n (Out CloseNext)) (body s) = Some t"
  shows "run_steps (whole_step cstep crew_of over) (replicate n (Outputs CloseNext)) s = Some (s\<lparr>body := t\<rparr>)"
  using assms
proof (induction n arbitrary: s)
  case (Suc n)
  then obtain u where u: "test_step (Out CloseNext) (body s) = Some u" "run_steps test_step (replicate n (Out CloseNext)) u = Some t"
    by (auto split: bind_splits)
  let ?s = "s\<lparr>body := u\<rparr>"
  have step: "whole_step cstep crew_of over (Outputs CloseNext) s = Some ?s"
    using u(1) Suc.prems(2) by simp
  have "run_steps (whole_step cstep crew_of over) (replicate n (Outputs CloseNext)) ?s = Some (s\<lparr>body := t\<rparr>)"
    using Suc.IH [of ?s] joined_step [OF Suc.prems(1) step] u(2) Suc.prems(2) by simp
  then show ?case by (simp add: step del: whole_step.simps)
qed simp

lemma joined_run: "run_steps (whole_step cstep crew_of over) as s = Some s' \<Longrightarrow> joined s \<Longrightarrow> joined s'"
  by (induction as arbitrary: s) (auto split: bind_splits dest: joined_step)

text \<open>
  The outputs are closed only when the workload is over; closed while their goroutine waits, they hold
  what the results pushed leave, whose number is that of the requests sent, but for those whose worker
  is just between the answer and the push.
\<close>

lemma reports:
  assumes "run_steps (whole_step cstep crew_of over) as s0 = Some s" "sound (controller s0)"
    "body s0 = start_test cl ow offs shut vals items c out0" "ctl (body s0) = crew_of (controller s0)"
  shows "int (sys.sent (ctl (body s))) = int (length (pushes (body s))) + holding has_result (ctl (body s))
    \<and> (\<not> over (controller s) \<longrightarrow> closedOuts (outSys (body s)) = [])
    \<and> (over (controller s) \<and> inHand (outSys (body s)) = None \<and> closedOuts (outSys (body s)) = [] \<and> alive (body s) \<longrightarrow>
        (\<exists>out s'. run_output out0 (map snd (pushes (body s))) = Inr out
          \<and> run_steps (whole_step cstep crew_of over) (replicate (length (Outs out0)) (Outputs CloseNext)) s = Some s'
          \<and> closedOuts (outSys (body s')) = Outs out))"
proof -
  obtain bs where "run_steps test_step bs (start_test cl ow offs shut vals items c out0) = Some (body s)"
    using run_parts [OF assms(1)] assms(3) by auto
  note results = results_accounted [OF this]
  have "joined s0"
    using assms(2-4) by (simp add: joined_def start_test_def output_start_def)
  then have j: "joined s" by (rule joined_run [OF assms(1)])
  have "\<exists>out s'. run_output out0 (map snd (pushes (body s))) = Inr out
      \<and> run_steps (whole_step cstep crew_of over) (replicate (length (Outs out0)) (Outputs CloseNext)) s = Some s'
      \<and> closedOuts (outSys (body s')) = Outs out"
    if h: "over (controller s)" "inHand (outSys (body s)) = None" "closedOuts (outSys (body s)) = []" "alive (body s)"
  proof -
    have "all_told (ctl (body s))"
      using j over_told h(1,4) by (simp add: joined_def)
    then obtain out t where "run_output out0 (map snd (pushes (body s))) = Inr out" "closedOuts (outSys t) = Outs out"
      "run_steps test_step (replicate (length (Outs out0)) (Out CloseNext)) (body s) = Some t"
      using results h(2-4) unfolding alive_def by blast
    with closing [OF j h(1) this(3)] show ?thesis by auto
  qed
  with results j show ?thesis by (auto simp: joined_def)
qed

end

section \<open>The two workloads keep to it\<close>

definition closed_sound :: "nat \<Rightarrow> closed_sys \<Rightarrow> bool" where
  "closed_sound n s =
     (wiring_ok n s \<and> (case closedAt s of
        StoppingAt j \<Rightarrow> telling j (workers s) | ToReport \<Rightarrow> all_told (workers s) | Reported \<Rightarrow> all_told (workers s) | _ \<Rightarrow> True))"

lemma closed_sound_step:
  assumes "closed_sound n s" "closed_step sc a s = Some s'"
  shows "closed_sound n s'"
proof -
  have w: "wiring_ok n s'" using wiring_ok_step [OF _ assms(2)] assms(1) by (simp add: closed_sound_def)
  have len: "length (stopped (workers s)) = length (pcs (workers s))"
    using assms(1) by (simp add: closed_sound_def wiring_ok_def counters_ok_def)
  show ?thesis
  proof (cases a)
    case (CrewDoes b)
    then show ?thesis
      using assms w telling_exec all_told_exec
      by (auto simp: closed_sound_def with_crew_Some split: if_splits closed_at.splits)
  next
    case EndLoop
    then show ?thesis
      using assms w by (auto simp: closed_sound_def wiring_ok_def places telling_def with_crew_Some split: if_splits)
  next
    case StopOne
    then obtain j v m where j: "closedAt s = StoppingAt j" "stop_turn j (workers s) = Some (v, m)" "workers s' = v"
        "closedAt s' = (case m of Some i \<Rightarrow> StoppingAt i | None \<Rightarrow> ToReport)"
      using assms(2) by (auto split: closed_at.splits)
    then have "telling j (workers s)" using assms(1) by (simp add: closed_sound_def)
    from telling_turn [OF this j(2) len] show ?thesis
      using w j by (auto simp: closed_sound_def split: option.splits)
  qed (use assms w in \<open>auto simp: closed_sound_def with_crew_Some Let_def split: if_splits closed_at.splits list.splits\<close>)
qed

lemma closed_stays_reported: "closed_step sc a s = Some s' \<Longrightarrow> closedAt s = Reported \<Longrightarrow> closedAt s' = Reported"
  by (cases a) (auto simp: with_crew_Some Let_def split: if_splits)

interpretation closed_whole: workload_run "closed_step sc" workers "\<lambda>s. closedAt s = Reported" "closed_sound n"
  by unfold_locales (erule (1) closed_sound_step, simp add: closed_sound_def, erule (1) closed_stays_reported)

text \<open>
  What \<open>Run\<close> of the closed workload can do it can do in the whole test: only the workers wait for the
  input and the outputs.
\<close>

lemma workload_moves:
  assumes "exec b (ctl t) = Some w" "alive t" "worker_of b = None"
  shows "\<exists>t'. test_step (Work b env) t = Some t' \<and> ctl t' = w \<and> dead t' = None"
  using assms by (cases b) (auto simp: test_step_def alive_def)

lemma closed_run_moves:
  assumes "of_run a" "closed_step sc a c = Some c'"
  shows "workers c' = workers c \<or> (\<exists>b. worker_of b = None \<and> exec b (workers c) = Some (workers c'))"
proof (cases a)
  case StopOne
  then obtain j v n where "stop_turn j (workers c) = Some (v, n)" "workers c' = v"
    using assms(2) by (auto split: closed_at.splits)
  then have "workers c' = workers c \<or> exec (Stop j) (workers c) = Some (workers c')"
    by (auto simp: stop_turn_def with_crew_Some split: if_splits)
  then show ?thesis by (metis worker_of.simps)
next
  case StartWorker
  then have "exec Spawn (workers c) = Some (workers c')"
    using assms(2) by (auto simp: with_crew_Some split: if_splits)
  then show ?thesis by (metis worker_of.simps)
next
  case EndLoop
  then have "exec EndSpawn (workers c) = Some (workers c')"
    using assms(2) by (auto simp: with_crew_Some split: if_splits)
  then show ?thesis by (metis worker_of.simps)
qed (use assms in \<open>auto simp: Let_def split: closed_at.splits list.splits if_splits\<close>)

lemma closed_run_possible:
  assumes "of_run a" "closed_step sc a (controller s) = Some c" "ctl (body s) = workers (controller s)" "alive (body s)"
  shows "\<exists>b s'. whole_step (closed_step sc) workers (\<lambda>s. closedAt s = Reported) (Control a b env) s = Some s' \<and> controller s' = c"
proof -
  consider "workers c = workers (controller s)" | b where "worker_of b = None" "exec b (workers (controller s)) = Some (workers c)"
    using closed_run_moves [OF assms(1,2)] by blast
  then show ?thesis
  proof cases
    case 1
    then show ?thesis using assms(2,4) by (intro exI [of _ None] exI [of _ "s\<lparr>controller := c\<rparr>"]) (simp add: guard_def)
  next
    case 2
    then obtain t where "test_step (Work b env) (body s) = Some t" "ctl t = workers c" "dead t = None"
      using workload_moves [of b "body s" _ env] assms(3,4) by auto
    then show ?thesis
      using assms(2) by (intro exI [of _ "Some b"] exI [of _ "\<lparr>controller = c, body = t\<rparr>"]) (simp add: guard_def)
  qed
qed

definition open_sound :: "open_sys \<Rightarrow> bool" where
  "open_sound s =
     (counters_ok (crew s) \<and> (case loopAt s of
        Stopping j \<Rightarrow> telling j (crew s) | RunOver \<Rightarrow> all_told (crew s) | _ \<Rightarrow> True))"

lemma open_sound_step:
  assumes "open_sound s" "open_step m stopAt a s = Some s'"
  shows "open_sound s'"
proof -
  have st: "open_act_step m stopAt a s = Some s'"
    using assms(2) by (auto simp: open_step_def split: loop_at.splits)
  have crew: "exec b (crew s) = Some w \<Longrightarrow> counters_ok w" for b w
    using exec_counters [of "crew s" b w] assms(1) by (simp add: open_sound_def)
  have len: "length (stopped (crew s)) = length (pcs (crew s))"
    using assms(1) by (simp add: open_sound_def counters_ok_def)
  show ?thesis
  proof (cases a)
    case (Crew b)
    then show ?thesis
      using assms(1) st crew telling_exec all_told_exec
      by (auto simp: open_sound_def with_crew_Some split: if_splits loop_at.splits)
  next
    case (Turn now k)
    then show ?thesis
      using assms(1) st crew by (auto simp: open_sound_def with_crew_Some Let_def split: if_splits list.splits)
  next
    case CloseNow
    then obtain w where "exec CloseSched (crew s) = Some w" "s' = s\<lparr>crew := w, loopAt := Stopping 0\<rparr>"
      using st by (auto simp: with_crew_Some split: if_splits)
    then show ?thesis
      using crew [of CloseSched w] by (auto simp: open_sound_def telling_def exec_def split: if_splits)
  next
    case StopNext
    then obtain j v n where j: "loopAt s = Stopping j" "stop_turn j (crew s) = Some (v, n)" "crew s' = v"
        "loopAt s' = (case n of Some i \<Rightarrow> Stopping i | None \<Rightarrow> RunOver)"
      using st by (auto split: loop_at.splits)
    then have t: "telling j (crew s)" using assms(1) by (simp add: open_sound_def)
    have "counters_ok v"
      using assms(1) j(2) crew by (auto simp: open_sound_def stop_turn_def with_crew_Some split: if_splits)
    then show ?thesis
      using telling_turn [OF t j(2) len] j by (auto simp: open_sound_def split: option.splits)
  qed (use assms(1) st crew in \<open>auto simp: open_sound_def with_crew_Some Let_def
      split: if_splits loop_at.splits nat.splits list.splits\<close>)
qed

lemma open_stays_over: "open_step m stopAt a s = Some s' \<Longrightarrow> loopAt s = RunOver \<Longrightarrow> loopAt s' = RunOver"
  by (cases a) (auto simp: open_step_def with_crew_Some split: if_splits)

interpretation open_whole: workload_run "open_step m stopAt" crew "\<lambda>s. loopAt s = RunOver" open_sound
  by unfold_locales (erule (1) open_sound_step, simp add: open_sound_def, erule (1) open_stays_over)

section \<open>Properties\<close>

text \<open>
  C4: a whole test of the closed workload, with \<open>Run\<close>, its workers, the clock, the interrupt and the
  outputs interleaved in any way: every worker that was started has its place in the schedule and
  was not started before it; every request sent has its result pushed, or its worker is between the
  answer and the push; no output is closed before \<open>Run\<close> has returned; and when the outputs are closed
  after that, while their goroutine waits, they hold what the results pushed leave.
\<close>
theorem closed_test_reports:
  assumes "list_all level_ok sc" "total_duration sc < 2 ^ 63" "closed_schedule oor (whole_levels sc) = Some offs"
    and "run_steps (whole_step (closed_step (whole_levels sc)) workers (\<lambda>s. closedAt s = Reported)) as
      \<lparr>controller = closed_start offs ow (length items) shut, body = start_test True ow 0 shut vals items c out0\<rparr> = Some s"
  shows "length (pcs (workers (controller s))) \<le> length offs
    \<and> (\<forall>j < length (pcs (workers (controller s))). offs ! j - offs ! 0 \<le> startTimes (controller s) ! j)
    \<and> int (sys.sent (ctl (body s))) = int (length (pushes (body s))) + holding has_result (ctl (body s))
    \<and> (closedAt (controller s) \<noteq> Reported \<longrightarrow> closedOuts (outSys (body s)) = [])
    \<and> (closedAt (controller s) = Reported \<and> inHand (outSys (body s)) = None \<and> closedOuts (outSys (body s)) = []
        \<and> alive (body s) \<longrightarrow>
        (\<exists>out s'. run_output out0 (map snd (pushes (body s))) = Inr out
          \<and> run_steps (whole_step (closed_step (whole_levels sc)) workers (\<lambda>s. closedAt s = Reported))
              (replicate (length (Outs out0)) (Outputs CloseNext)) s = Some s'
          \<and> closedOuts (outSys (body s')) = Outs out))"
proof -
  obtain cs where "run_steps (closed_step (whole_levels sc)) cs (closed_start offs ow (length items) shut) = Some (controller s)"
    using closed_whole.run_parts [OF assms(4)] by auto
  from closed_times.run_holds [OF this _ closed_start_times [OF closed_offsets [OF assms(1-3)]]]
  have "times_ok offs (controller s)" by (simp add: list_all_iff)
  moreover have "closed_sound (length offs) (closed_start offs ow (length items) shut)"
    using closed_start_wiring [of offs ow "length items" shut] by (simp add: closed_sound_def closed_start_def)
  then have "closed_sound (length offs) (controller \<lparr>controller = closed_start offs ow (length items) shut,
      body = start_test True ow 0 shut vals items c out0\<rparr>)" by simp
  note closed_whole.reports [OF assms(4) this, of True ow 0 shut vals items c out0]
  ultimately show ?thesis
    by (simp add: times_ok_def start_test_def closed_start_def)
qed

text \<open>One worker, one request, and the end of the test.\<close>

definition crew_does :: "act \<Rightarrow> closed_act whole_act" where
  "crew_does a = Control (CrewDoes a) (Some a) (answering new_result)"

definition run_does :: "closed_act \<Rightarrow> act option \<Rightarrow> closed_act whole_act" where
  "run_does a b = Control a b (answering new_result)"

definition small_test :: "closed_act whole_act list" where
  "small_test =
     [run_does NextOffset None, run_does ComputeDelay None, run_does StartWorker (Some Spawn)]
     @ map crew_does [Begin 0, TakeOffset 0, TakeItem 0, EndWaiting 0, StartWork 0, NoSleep 0, EnterBusy 0, Punch 0,
         EndBusy 0, Record 0 0, EndWork 0]
     @ [Outputs PushNext, Outputs EndPush, run_does NextOffset None, run_does (Pass (2 * Second)) None,
        run_does ComputeEnd None, run_does EndLoop (Some EndSpawn), run_does StopOne (Some (Stop 0)), run_does StopOne None,
        run_does Report None]"

lemma small_test_run:
  "\<exists>s. run_steps (whole_step (closed_step (whole_levels [(1, 1, 2 * Second)])) workers (\<lambda>s. closedAt s = Reported)) small_test
      \<lparr>controller = closed_start [0] False 1 False,
       body = start_test True False 0 False Map.empty [plain_item p] Map.empty ldjson_output\<rparr> = Some s
     \<and> closedAt (controller s) = Reported \<and> inHand (outSys (body s)) = None \<and> closedOuts (outSys (body s)) = []
     \<and> alive (body s) \<and> map (ReqBytes \<circ> snd) (pushes (body s)) = [p]"
proof -
  let ?env = "answering new_result"
  let ?r = "fill_result 1 (startUnix ?env) 1 (plain_item p) new_result"
  have fin: "finish_result (draw ?env) (order ?env (RegexOut (plain_item p))) (plain_item p) Map.empty ?r = Inr (Map.empty, ?r)"
    by (simp add: finish_result_def answering_def example_env_def plain_item_def new_item_def ExtractValues_def Assert_def)
      (simp add: new_result_def)
  obtain w where push: "push_ldjson None ?r new_bufw = Inr (?r, w)"
    by (simp add: push_ldjson_def StringFriendly_def fill_result_def new_result_def plain_item_def new_item_def)
  have nib: "nib ?env i = (i, new_result)" for i
    by (simp add: answering_def)
  have rep: "ReplaceValues (pkg ?env) vals c (plain_item p) = Inr (c, plain_item p)" for vals c
    by (simp add: ReplaceValues_def plain_item_def new_item_def)
  have res: "ResolveStrings (plain_item p) = Inr (plain_item p)"
    by (simp add: ResolveStrings_def plain_item_def new_item_def)
  have "Payload (plain_item p) = p"
    by (simp add: plain_item_def)
  then show ?thesis
    by (simp add: small_test_def run_does_def crew_does_def closed_run_simps start_test_def test_run_simps finished_def fin push nib rep res
        alive_def all_told_def output_step_def output_start_def ldjson_output_def push_nth_def sat64_def planned_end_def
        whole_levels_def whole_level_def)
qed

theorem closed_test_reports_witness:
  "\<exists>s s' out. run_steps (whole_step (closed_step (whole_levels [(1, 1, 2 * Second)])) workers (\<lambda>s. closedAt s = Reported)) small_test
      \<lparr>controller = closed_start [0] False (length [plain_item ''x'']) False,
       body = start_test True False 0 False Map.empty [plain_item ''x''] Map.empty ldjson_output\<rparr> = Some s
     \<and> run_output ldjson_output (map snd (pushes (body s))) = Inr out \<and> length (pushes (body s)) = 1
     \<and> run_steps (whole_step (closed_step (whole_levels [(1, 1, 2 * Second)])) workers (\<lambda>s. closedAt s = Reported))
         [Outputs CloseNext] s = Some s'
     \<and> closedOuts (outSys (body s')) = Outs out"
proof -
  have sched: "closed_schedule (\<lambda>_. 0) (whole_levels [(1, 1, 2 * Second)]) = Some [0]"
    by code_simp
  obtain s where s: "closedAt (controller s) = Reported" "inHand (outSys (body s)) = None" "closedOuts (outSys (body s)) = []"
      "alive (body s)" "map (ReqBytes \<circ> snd) (pushes (body s)) = [''x'']"
    and run: "run_steps (whole_step (closed_step (whole_levels [(1, 1, 2 * Second)])) workers (\<lambda>s. closedAt s = Reported)) small_test
      \<lparr>controller = closed_start [0] False (length [plain_item ''x'']) False,
       body = start_test True False 0 False Map.empty [plain_item ''x''] Map.empty ldjson_output\<rparr> = Some s"
    using small_test_run [of "''x''"] by auto
  have one: "replicate (length (Outs ldjson_output)) (Outputs CloseNext) = [Outputs CloseNext]"
    by (simp add: ldjson_output_def)
  have "list_all level_ok [(1, 1, 2 * Second)]" "total_duration [(1, 1, 2 * Second)] < 2 ^ 63"
    by (simp_all add: level_ok_def)
  note reports = closed_test_reports [OF this sched run, unfolded one]
  have "length (pushes (body s)) = 1"
    using arg_cong [OF s(5), of length] by simp
  with reports s(1-4) run show ?thesis by blast
qed


lemma small_open_test:
  assumes "0 \<le> stopAt"
  shows "\<exists>s. run_steps (whole_step (open_step 1 stopAt) crew (\<lambda>s. loopAt s = RunOver))
      (map (\<lambda>(a, b). Control a b (answering new_result))
        [(SpawnInitially, Some Spawn), (Crew (Begin 0), Some (Begin 0)), (Turn 0 0, Some (TakeOffset 0)), (Turn 0 0, None),
         (CloseNow, Some CloseSched), (StopNext, Some (Stop 0)), (StopNext, None)])
      \<lparr>controller = open_start 1 [0] False 1 False,
       body = start_test False False 1 False Map.empty [plain_item p] Map.empty ldjson_output\<rparr> = Some s
     \<and> loopAt (controller s) = RunOver \<and> events (controller s) = [Handed 0] \<and> inHand (outSys (body s)) = None
     \<and> closedOuts (outSys (body s)) = [] \<and> alive (body s)"
  using assms by (simp add: open_run_simps start_test_def test_run_simps alive_def output_start_def)


end
