(* ===== verification/Spec2Isabelle.thy ===== *)
theory Spec2Isabelle
  imports Program Http_Requests Worker_Timing Taurus_Results Taurus_Health Whole_Test
begin

text \<open>
  Encarno is a load generator.  A payload file holds records, each a line of JSON metadata and the
  bytes of a request; a strings file lets the metadata refer to labels, addresses and expressions by
  number.  A workload decides when the next request is due; workers take a record, wait for its
  turn, send it over a pooled connection, take values and assertions from the response, and hand the
  result to the outputs.  The theories below follow the Go code under \<open>src/pkg\<close> and
  \<open>src/cmd/encarno\<close> (with the library of Go 1.20, the version of \<open>go.mod\<close>); what is said of one part is used by the next through the interfaces named here.

  \<^bold>\<open>Vocabulary.\<close>  \<open>Prelude\<close>: a Go \<open>string\<close> and a Go \<open>[]byte\<close> are both lists of 8-bit
  characters; \<open>int\<close> is an integer whose wrap-around is written out (\<open>wrap64\<close>); \<open>'a go\<close> is a
  result or a panic.  It also holds the two shapes of argument about steps that the components
  share: \<open>run_steps\<close> (the run of a list of actions) and the locale \<open>invariant_of\<close> (a property that
  every allowed step keeps holds after every run).

  \<^bold>\<open>Floating point.\<close>  \<open>Float64\<close> is binary64 arithmetic on integers, rounding to nearest even, and
  evaluates in the kernel; \<open>Float64_Facts\<close> relates it to the reals: every operation returns the
  double nearest to the exact result.  The schedules and the ratio test use it, so that their rounding
  is the program's and not an idealisation.

  \<^bold>\<open>Workloads\<close> (\<open>pkg/scenario\<close>, \<open>pkg/core/workload.go\<close>).  \<open>Workload_Conf\<close> has the levels and the
  locale \<open>schedule_source\<close>: what a generator promises to its consumer.  \<open>Closed_Workload\<close>
  is \<open>GenerateSchedule\<close> and \<open>Run\<close> of \<open>closed.go\<close>; its loops advance by a rounded quotient and
  may not end, so they are \<open>partial_function\<close>s and that they end is proved
  (\<open>closed_schedule_complete\<close>).  \<open>Open_Workload\<close> is \<open>open.go\<close>: the generator turn by turn,
  \<open>SpawnInitial\<close>, and \<open>Run\<close> with the clock, the interrupt and the readiness of a worker as
  inputs.  \<open>Open_System\<close> and \<open>Closed_System\<close> put \<open>Run\<close> among its workers, which answer for the inputs (with
  \<open>Workload_Crew\<close>, what both do with workers); their complete runs are runs of the former.  The closed
  one always comes to its end, the open one may wait for ever.  \<open>open_gen\<close> and \<open>open_run\<close> take as many turns as the reader asks for, and every property
  states how many that is.

  \<^bold>\<open>Strings\<close> (\<open>pkg/core/strindex.go\<close>).  \<open>Str_Index\<close> is \<open>StrIndex\<close> with its file; the disk maps file
  names to contents and permissions.  The locale \<open>string_table\<close> is what the outputs rely on; it is
  interpreted on \<open>Get\<close> and \<open>Idx\<close>.  The main facts: a number given out resolves to its string for ever
  (\<open>idx_resolves\<close>), and a later process that reads the file resolves it too
  (\<open>strings_file_roundtrip\<close>).

  \<^bold>\<open>Input\<close> (\<open>pkg/core/input.go\<close>).  \<open>Regexps\<close> is the part of package \<open>regexp\<close> that the program calls, over a
  matcher that is a parameter; \<open>Payload_Item\<close> is \<open>PayloadItem\<close> with \<open>ResolveStrings\<close>,
  \<open>ReplaceValues\<close> and the decoders of the numbered strings with their cache.  \<open>Json_Decode\<close> reads JSON as
  \<open>encoding/json\<close> does (tokens and a pushdown machine; \<open>reads v j\<close> is its contract with the writers of
  JSON), and \<open>Payload_Json\<close> decodes it into an item, member by member, with the tags of \<open>input.go\<close>, the
  errors that let it go on and those that end it.  \<open>Input_Reader\<close> is \<open>readPayloadRecord\<close> and the
  goroutine of \<open>NewInput\<close>, on the bytes of the file and a position.
  \<open>input_run n\<close> is the first \<open>n\<close> turns of its loop, which has no end without an iteration limit; the
  properties say how many turns a file takes.  \<open>buf_size\<close> is the 4096 bytes of the code.
  \<open>Taurus_Generator\<close> is the writer of the files, from \<open>taurus/encarno/__init__.py\<close>: the metadata of a
  request with its strings inline or numbered, \<open>json.dumps\<close>, and the two files; a file it writes is read
  as the requests it was written from.

  \<^bold>\<open>Results\<close> (\<open>pkg/core/output.go\<close>).  \<open>Output_Items\<close>: \<open>OutputItem\<close>, \<open>ExtractValues\<close>, \<open>Assert\<close>, and
  the binary record, with the reader of \<open>taurus/encarno/__init__.py\<close>; \<open>Binary_Codec\<close> is the fixed-size encoding
  it uses, with the locale \<open>codec\<close>, interpreted on each width and on the record.  \<open>Json_Text\<close> and
  \<open>Numerals\<close> write JSON strings and decimal numbers, and the line of a result is read back by the
  decoder.  \<open>Output_Sinks\<close>: the three outputs over buffered files, and \<open>Output\<close>, which pushes each
  result to all of them and closes them, one call after the other.  \<open>Output_System\<close> has the goroutines
  instead: \<open>Push\<close> meets \<open>background\<close>, which writes while others go on, and \<open>Close\<close> comes when it comes;
  it refines the sequential run, up to the result in hand.  \<open>Taurus_Results\<close> is the reader of the binary
  file and the strings file in \<open>taurus/encarno/__init__.py\<close>: what it reports is what was pushed.

  \<^bold>\<open>Workers\<close> (\<open>pkg/core/worker.go\<close>, \<open>status.go\<close>).  \<open>Status_Counters\<close> has the shared counters with their
  panics and the health line; \<open>Taurus_Health\<close> has its text and the reader of the Taurus module, which gets
  the numbers of workers from it.  \<open>Worker_Iteration\<close> is \<open>Iteration\<close> and \<open>DoBusy\<close> as a function of the values
  a worker carries and its item.  \<open>Worker_System\<close> is all workers interleaved, step by step, on the
  counters, the schedule and the input; the counters and the numbers of items, offsets and requests
  are invariants of every interleaving, and a worker that is told to stop ends.  \<open>Worker_Timing\<close> adds a
  clock and the offsets themselves: no request is sent before its time.  \<open>Test_System\<close> joins the parts: the same steps with the items,
  values and results the workers carry, and with the goroutines of the outputs; every run of it is a
  run of \<open>Worker_System\<close> and of \<open>Output_System\<close>, and each worker in it does what \<open>Iteration\<close> does
  on its items one after the other, whether all workers share one input or, with \<open>enableregexes\<close>, each
  reads the file for itself.  \<open>Whole_Test\<close> adds the workload: the locale \<open>workload_run\<close> has the laws of a
  \<open>Run\<close>, both workloads obey them, and a test with either accounts for every request and closes the
  outputs only when \<open>Run\<close> has returned.

  \<^bold>\<open>HTTP\<close> (\<open>pkg/http\<close>).  \<open>Http_Address\<close>: the scan of the payload's headers and the address that is
  dialed.  \<open>Http_Buffer\<close>: \<open>BufferedConn\<close>, its reading goroutine and its readers, as actions on the
  channel, with the copy it keeps and the aliasing of that copy.  \<open>Http_Pool\<close>: \<open>ConnPool\<close> and its users as
  actions on the channels of idle connections, refined to a bag of connections.  \<open>Http_Nib\<close>: \<open>Punch\<close> with
  its error paths, on an environment that answers for the pool, the connection, the clock and
  \<open>http.ReadResponse\<close>.  \<open>Http_Requests\<close> puts the three together: the requests of all workers, action by
  action, over one pool, with a clock and the network.  Each of them is a \<open>Punch\<close> (\<open>requests_over_pool\<close>),
  and the log of the requests says what has become of the connection of each (\<open>failed_request_leaks\<close>).

  \<^bold>\<open>Program\<close> (\<open>pkg/core/config.go\<close>, \<open>cmd/encarno/main.go\<close>, \<open>NewBaseWorkload\<close>, \<open>SpawnWorker\<close>).
  \<open>Program\<close>: the configuration, the construction of the parts in the order of the code with its panics,
  the workers that are spawned and what they share, and the end of the program.  \<open>input_numbers_resolve_in_output\<close>
  is a property across components: a number of the payload file means the same string to a reader of
  the results.  Below, \<open>generated_test\<close> joins the generator, the start of the program, the reader and
  the worker: the requests that are sent are the requests of the generator; \<open>generated_requests_sent\<close>
  says it of the whole test, with all its workers.

  \<^bold>\<open>Parameters.\<close>  The matcher of a compiled expression and which texts compile, the YAML
  decoder, \<open>url.Parse\<close>, the list of cipher suites, what the network sends and when, the clock, and the
  random choice of a match are arguments or the choice of the environment's actions.  What is used of
  them stands in the statements.

  \<^bold>\<open>Not modelled.\<close>  How \<open>flag\<close> parses the command line and the level of the log; \<open>InputConf.Predefined\<close> (a channel
  that only tests give); the abort channel of a worker, which nothing closes; the texts of the
  log and the metrics of the operating system; data races (\<open>regexCache\<close> and the map of the pool, listed
  as findings); a write to an output that is closed, which may end a process that is ending and the limit of memory on an allocation; failures of writing a result file, which
  the code ignores; the TLS and HTTP protocols themselves; how the Taurus module
  builds a request from a scenario, its reader of the JSON output, and its process; the tests.  The bound of \<open>encoding/json\<close> on nesting
  cannot be reached from a line of 4096 bytes.  A result file with the name of an input file is
  truncated by the code and not by \<open>NewOutput\<close> here; \<open>generated_test\<close> is about files of different names.
\<close>

section \<open>A test from the generator's files\<close>

text \<open>The reader of an opened input.\<close>

definition reader_of :: "regexp_pkg \<Rightarrow> input_source \<Rightarrow> input_env" where
  "reader_of rxp src = \<lparr>content = srcContent src, strings = srcStrings src, rx = rxp, IterationLimit = srcLimit src\<rparr>"

lemma NewStringIndex_can_read: "NewStringIndex d f ro = Inr T \<Longrightarrow> f \<noteq> '''' \<Longrightarrow> files d f \<noteq> None \<Longrightarrow> can_read d f"
  by (auto simp: NewStringIndex_def Load_def fresh_index_def split: if_splits)

lemma copy_strings_keeps:
  assumes "copy_strings d config = Inr d'"
  shows "files d' (InStringsFile (Input config)) = files d (InStringsFile (Input config))"
    "StringsFile (OutputPart config) \<noteq> f \<Longrightarrow> files d' f = files d f"
  using assms by (auto simp: copy_strings_def read_file_def write_file_def go_convs split: option.splits if_splits)

lemma NewInput_source:
  assumes "NewInput d conf = Inr src"
  shows "files d (PayloadFile conf) = Some (srcContent src)" "srcLimit src = InIterationLimit conf"
  using assms by (auto simp: NewInput_def read_file_def go_convs split: option.splits if_splits)

lemma started_input:
  assumes "Run_setup d config = Inr (out, nk, wl)" "sharedInput (base_of wl) = Some src"
  shows "\<exists>d'. copy_strings d config = Inr d' \<and> NewInput d' (Input config) = Inr src"
  using assms NewWorkload_source by (auto simp: Run_setup_def go_convs)

text \<open>
  What a worker does with the item of a request: it asks its nib to send the request itself, with the
  values of its placeholders put in, if those are plain.
\<close>

definition filled :: "ValMap \<Rightarrow> string list \<Rightarrow> PayloadItem \<Rightarrow> PayloadItem" where
  "filled vals ns i = i\<lparr>Payload := replaced vals ns (Payload i), Label := replaced vals ns (Label i),
     Address := replaced vals ns (Address i)\<rparr>"

definition is_sent_as :: "PayloadItem \<Rightarrow> PayloadItem \<Rightarrow> bool" where
  "is_sent_as i j =
     (\<forall>e c vals. \<not> stopFlag e \<and> list_all (plain_name (pkg e) vals c) (Replaces j) \<longrightarrow>
        (\<exists>c'. Iteration e c vals i
          = go_bind (DoBusy e vals (filled vals (Replaces j) j)) (\<lambda>(vals, res). Inr (c', vals, Some res))))"

lemma resolved_is_sent:
  assumes "ResolveStrings i = Inr j" "LabelIdx j = 0" "AddressIdx j = 0"
  shows "is_sent_as i j"
  unfolding is_sent_as_def
proof (intro allI impI, elim conjE)
  fix e :: iter_env and c vals
  assume e: "\<not> stopFlag e" "list_all (plain_name (pkg e) vals c) (Replaces j)"
  note same = ResolveStrings_fields [OF assms(1)]
  show "\<exists>c'. Iteration e c vals i
      = go_bind (DoBusy e vals (filled vals (Replaces j) j)) (\<lambda>(vals, res). Inr (c', vals, Some res))"
  proof (cases "Replaces j = []")
    case True
    then have "filled vals (Replaces j) j = j" by (simp add: filled_def)
    with True show ?thesis
      using same e(1) assms(1) by (intro exI [of _ c]) (simp add: Iteration_def ReplaceValues_def)
  next
    case False
    from replace_values_plain [OF assms e(2) False] obtain c' where
      "ReplaceValues (pkg e) vals c i = Inr (c', filled vals (Replaces j) j)"
      by (auto simp: ReplaceValues_def filled_def same)
    moreover have "ResolveStrings (filled vals (Replaces j) j) = Inr (filled vals (Replaces j) j)"
      using assms(2,3) by (intro ResolveStrings_done) (simp_all add: filled_def)
    ultimately show ?thesis using e(1) by (intro exI [of _ c']) (simp add: Iteration_def)
  qed
qed

lemma resolves_is_sent: "resolves_to rxp T r i \<Longrightarrow> is_sent_as i (request_item rxp (Some T) r)"
  by (rule resolved_is_sent) (simp_all add: resolves_to_def request_item_def new_item_def)

lemma generated_items:
  assumes "\<forall>r \<in> set rs. request_ok rxp r" "rs \<noteq> []" "number_requests [[]] rs = (ms, l)"
    and "\<forall>m \<in> set ms. length (dumps m) + 3 < buf_size" "length l \<le> 65536" "\<forall>x \<in> set l. line_safe (utf8 x)"
    and "files d (InStringsFile (Input config)) = Some (strings_file l)"
    and "files d (PayloadFile (Input config)) = Some (payload_file (zip ms rs))"
    and "InStringsFile (Input config) \<noteq> ''''" "StringsFile (OutputPart config) \<noteq> PayloadFile (Input config)"
    and "Run_setup d config = Inr (out, nk, wl)" "sharedInput (base_of wl) = Some src"
    and "0 < k" "int (k * length rs) < 2 ^ 53" "k * Suc (length rs) \<le> n"
  shows "\<exists>T items. list_all2 (\<lambda>r i. is_sent_as i (request_item rxp (Some T) r)) rs items
    \<and> (InIterationLimit (Input config) \<le> 0 \<longrightarrow>
        input_run (reader_of rxp src) (k * Suc (length rs)) input_start = (concat (replicate k items), InputMore))
    \<and> (InIterationLimit (Input config) = int k \<longrightarrow>
        input_run (reader_of rxp src) n input_start = (concat (replicate k items), InputClosed))"
proof -
  obtain d' where d': "copy_strings d config = Inr d'" "NewInput d' (Input config) = Inr src"
    using started_input [OF assms(11,12)] by blast
  from NewInput_strings [OF d'(2) assms(9)] obtain T where
    T: "srcStrings src = Some T" "NewStringIndex d' (InStringsFile (Input config)) True = Inr T" by blast
  have str: "files d' (InStringsFile (Input config)) = Some (strings_file l)"
    using copy_strings_keeps(1) [OF d'(1)] assms(7) by simp
  have env: "rx (reader_of rxp src) = rxp" "strings (reader_of rxp src) = Some T"
    "content (reader_of rxp src) = payload_file (zip ms rs)"
    "IterationLimit (reader_of rxp src) = InIterationLimit (Input config)"
    using NewInput_source [OF d'(2)] copy_strings_keeps(2) [OF d'(1) assms(10)] assms(8) T(1)
    by (simp_all add: reader_of_def)
  have "can_read d' (InStringsFile (Input config))"
    using NewStringIndex_can_read [OF T(2) assms(9)] str by simp
  from generated_files_replayed [where env = "reader_of rxp src", unfolded env(1,4),
      OF assms(1-6) str assms(9) this T(2) env(2,3) assms(13-15)]
  obtain items where items: "list_all2 (resolves_to rxp T) rs items"
    and run: "InIterationLimit (Input config) \<le> 0 \<longrightarrow>
        input_run (reader_of rxp src) (k * Suc (length rs)) input_start = (concat (replicate k items), InputMore)"
      "InIterationLimit (Input config) = int k \<longrightarrow>
        input_run (reader_of rxp src) n input_start = (concat (replicate k items), InputClosed)" by blast
  from items have "list_all2 (\<lambda>r i. is_sent_as i (request_item rxp (Some T) r)) rs items"
    by (rule list_all2_mono) (rule resolves_is_sent)
  with run show ?thesis by blast
qed

text \<open>
  From the files of the Taurus module to the requests: when the program has started on a payload
  file and a strings file that the module wrote, the workers' channel yields an item for each request
  they were written from, in order and as often as the iteration limit says, and the worker that gets
  it sends that request: its address, label and payload with the values of its placeholders put in,
  its extractors and assertions.
\<close>

theorem generated_test:
  assumes "\<forall>r \<in> set rs. request_ok rxp r" "rs \<noteq> []" "number_requests [[]] rs = (ms, l)"
    and "\<forall>m \<in> set ms. length (dumps m) + 3 < buf_size" "length l \<le> 65536" "\<forall>x \<in> set l. line_safe (utf8 x)"
    and "files d (InStringsFile (Input config)) = Some (strings_file l)"
    and "files d (PayloadFile (Input config)) = Some (payload_file (zip ms rs))"
    and "InStringsFile (Input config) \<noteq> ''''" "StringsFile (OutputPart config) \<noteq> PayloadFile (Input config)"
    and "Run_setup d config = Inr (out, nk, wl)" "sharedInput (base_of wl) = Some src"
    and "0 < k" "int (k * length rs) < 2 ^ 53" "k * Suc (length rs) \<le> n"
  shows "\<exists>T items. list_all2 (\<lambda>r i. is_sent_as i (request_item rxp (Some T) r)) rs items
    \<and> (InIterationLimit (Input config) \<le> 0 \<longrightarrow>
        input_run (reader_of rxp src) (k * Suc (length rs)) input_start = (concat (replicate k items), InputMore))
    \<and> (InIterationLimit (Input config) = int k \<longrightarrow>
        input_run (reader_of rxp src) n input_start = (concat (replicate k items), InputClosed))"
  using generated_items [OF assms] .



definition generator_disk :: "py_request list \<Rightarrow> disk" where
  "generator_disk rs = \<lparr>files = [''s'' \<mapsto> strings_file (snd (number_requests [[]] rs)),
       ''p'' \<mapsto> payload_file (zip (fst (number_requests [[]] rs)) rs)],
     can_read = (\<lambda>_. True), can_write = (\<lambda>_. True)\<rparr>"

definition gen_config :: Configuration where
  "gen_config = default_config
     \<lparr>Input := (Input default_config)\<lparr>PayloadFile := ''p'', InStringsFile := ''s'', InIterationLimit := 2\<rparr>,
      OutputPart := (OutputPart default_config)\<lparr>StringsFile := ''o''\<rparr>,
      Workers := (Workers default_config)\<lparr>Mode := ''closed''\<rparr>,
      Protocol := (Protocol default_config)\<lparr>Driver := ''dummy''\<rparr>\<rparr>"

lemma generator_setup:
  assumes "number_requests [[]] rs = (ms, l)" "\<forall>x \<in> set (tl l). line_safe (utf8 x)"
  shows "\<exists>out nk wl src. Run_setup (generator_disk rs) gen_config = Inr (out, nk, wl) \<and> sharedInput (base_of wl) = Some src"
proof -
  let ?d = "(generator_disk rs)\<lparr>files := (files (generator_disk rs))(''o'' \<mapsto> strings_file l)\<rparr>"
  have load: "NewStringIndex ?d f ro = Inr (foldl load_line (fresh_index f ro) (map utf8 (tl l)))"
    if "f = ''s'' \<or> f = ''o''" for f ro
    using that assms by (intro load_unlines) (auto simp: generator_disk_def strings_file_def)
  have copy: "copy_strings (generator_disk rs) gen_config = Inr ?d"
    by (simp add: copy_strings_def gen_config_def default_config_def read_file_def write_file_def generator_disk_def assms(1))
  have read: "read_file ?d ''p'' = Inr (payload_file (zip ms rs))"
    by (simp add: read_file_def generator_disk_def assms(1))
  have "\<exists>out. NewOutput ?d (OutputPart gen_config) = Inr out"
    using load [of "''o''" False] by (simp add: NewOutput_def gen_config_def default_config_def Let_def)
  moreover have "\<exists>wl src. NewWorkload ?d (Workers gen_config) (Input gen_config) = Inr wl \<and> sharedInput (base_of wl) = Some src"
    using load [of "''s''" True] read
    by (simp add: NewWorkload_def NewOpenWorkload_def NewClosedWorkload_def NewBaseWorkload_def NewInput_def gen_config_def default_config_def base_of_def)
  moreover have "NewNibMaker (Protocol gen_config) = Inr DummyNib"
    by (simp add: NewNibMaker_def gen_config_def)
  ultimately show ?thesis by (auto simp: Run_setup_def copy)
qed

lemma generator_files:
  assumes "number_requests [[]] rs = (ms, l)"
  shows "files (generator_disk rs) (InStringsFile (Input gen_config)) = Some (strings_file l)"
    "files (generator_disk rs) (PayloadFile (Input gen_config)) = Some (payload_file (zip ms rs))"
    "InStringsFile (Input gen_config) \<noteq> ''''" "StringsFile (OutputPart gen_config) \<noteq> PayloadFile (Input gen_config)"
    "InIterationLimit (Input gen_config) = int 2"
  by (simp_all add: generator_disk_def gen_config_def default_config_def assms)

theorem generated_test_witness:
  "\<exists>out nk wl src T items. Run_setup (generator_disk gen_requests) gen_config = Inr (out, nk, wl)
    \<and> sharedInput (base_of wl) = Some src
    \<and> list_all2 (\<lambda>r i. is_sent_as i (request_item (literal_pkg []) (Some T) r)) gen_requests items
    \<and> input_run (reader_of (literal_pkg []) src) 6 input_start = (concat (replicate 2 items), InputClosed)"
proof -
  have req: "number_requests [[]] gen_requests = (fst (number_requests [[]] gen_requests), gen_strings)"
    by (simp add: gen_strings_def)
  have "\<forall>x \<in> set (tl gen_strings). line_safe (utf8 x)"
    using gen_strings_ok(1) by (simp add: gen_strings_def gen_numbered)
  from generator_setup [OF req this] obtain out nk wl src where
    r: "Run_setup (generator_disk gen_requests) gen_config = Inr (out, nk, wl)" "sharedInput (base_of wl) = Some src"
    by blast
  have "length gen_requests = 2" "gen_requests \<noteq> []" "length gen_strings \<le> 65536"
    using gen_strings_ok(2) by (simp_all add: gen_requests_def)
  with generated_test [OF gen_requests_ok _ req gen_lines_short _ gen_strings_ok(1) generator_files(1-4) [OF req] r, of 2 6]
    generator_files(5) [OF req] r
  show ?thesis by auto
qed

section \<open>The requests of a whole test\<close>

text \<open>A nib that sends the payload it is given.\<close>

definition sends_payload :: "(PayloadItem \<Rightarrow> PayloadItem \<times> OutputItem) \<Rightarrow> bool" where
  "sends_payload send = (\<forall>i. Payload (fst (send i)) = Payload i)"

lemma Iteration_payload:
  assumes "is_sent_as i j" "Replaces j = []" "Iteration env c vals i = Inr (c', vals', Some r)" "sends_payload (nib env)"
  shows "ReqBytes r = Payload j"
proof -
  have "\<not> stopFlag env"
    using assms(3) by (auto simp: Iteration_def go_convs)
  moreover have "filled vals [] j = j"
    by (simp add: filled_def)
  ultimately obtain c2 where
    "Iteration env c vals i = go_bind (DoBusy env vals j) (\<lambda>(vals, res). Inr (c2, vals, Some res))"
    using assms(1) [unfolded is_sent_as_def, rule_format, of env vals c] assms(2) by auto
  then have "DoBusy env vals j = Inr (vals', r)"
    using assms(3) by (cases "DoBusy env vals j") auto
  then obtain h r0 xs where "nib env j = (h, r0)"
    "finish_result (draw env) xs h vals (fill_result (workerIndex env) (startUnix env) (busyNow env) h r0) = Inr (vals', r)"
    by (auto simp: DoBusy_def split: prod.splits)
  moreover from this have "ReqBytes r = Payload h"
    using finish_result_parts(2) by (metis OutputItem.surjective OutputItem.update_convs(3)
        OutputItem.select_convs(17) fill_result_parts(2))
  ultimately show ?thesis
    using assms(4) by (metis sends_payload_def fst_conv)
qed

lemma serves_payloads:
  assumes "serves R sends_payload W D w vals0 its vals rs"
    "list_all2 (\<lambda>q i. is_sent_as i (request_item rxp si q) \<and> consumes q = []) qs its"
  shows "subseq (map ReqBytes rs) (map (\<lambda>q. utf8 (tcp_payload q)) qs)
    \<and> (\<not> D \<longrightarrow> map ReqBytes rs = map (\<lambda>q. utf8 (tcp_payload q)) qs)"
  using assms
proof (induction arbitrary: qs)
  case (sent its vals rs env c i c' vals' r)
  then obtain qs' q where qs: "qs = qs' @ [q]" "is_sent_as i (request_item rxp si q)" "consumes q = []"
    "list_all2 (\<lambda>q i. is_sent_as i (request_item rxp si q) \<and> consumes q = []) qs' its"
    by (auto simp: list_all2_append2 list_all2_Cons2)
  have "ReqBytes r = utf8 (tcp_payload q)"
    using Iteration_payload [OF qs(2) _ sent.hyps(4)] sent.hyps(2) qs(3)
    by (simp add: request_item_def new_item_def env_ok_def)
  then show ?case
    using sent.IH [OF qs(4)] by (simp add: qs(1) list_emb_append_mono)
next
  case (dropped its vals rs env c i c' vals')
  then obtain qs' q where qs: "qs = qs' @ [q]"
    "list_all2 (\<lambda>q i. is_sent_as i (request_item rxp si q) \<and> consumes q = []) qs' its"
    by (auto simp: list_all2_append2 list_all2_Cons2)
  then show ?case
    using dropped.IH [OF qs(2)] dropped.hyps(1) by auto
qed simp

lemma of_worker_zip:
  assumes "list_all2 P qs (map snd xs)"
  shows "list_all2 P (of_worker w (zip (map fst xs) qs)) (of_worker w xs)"
  using assms
proof (induction xs arbitrary: qs)
  case (Cons x xs)
  then obtain q qs' where "qs = q # qs'" "P q (snd x)" "list_all2 P qs' (map snd xs)"
    by (auto simp: list_all2_Cons2)
  with Cons.IH [of qs'] show ?case
    by (simp add: of_worker_def)
qed (simp add: of_worker_def)

lemma worker_requests:
  assumes "test_ok (\<lambda>_. True) sends_payload (\<lambda>_. True) D False s0 out vals0 items t" "w < length (desks t)"
    "list_all2 (\<lambda>q i. is_sent_as i (request_item rxp si q) \<and> consumes q = []) qs1 (map snd (served t))"
  shows "\<exists>qs hand. of_worker w (zip (map fst (served t)) qs1) = qs @ hand \<and> length hand \<le> 1
      \<and> subseq (map ReqBytes (of_worker w (pushes t))) (map (\<lambda>q. utf8 (tcp_payload q)) qs)
      \<and> (\<not> D \<longrightarrow> map ReqBytes (of_worker w (pushes t)) = map (\<lambda>q. utf8 (tcp_payload q)) qs)"
proof -
  let ?P = "\<lambda>q i. is_sent_as i (request_item rxp si q) \<and> consumes q = []"
  note serves = worker_serves [OF assms(1,2)]
  then obtain its hand where its: "of_worker w (served t) = its @ hand" "length hand \<le> 1"
    "serves (\<lambda>_. True) sends_payload (\<lambda>_. True) D w vals0 its (deskVals (desks t ! w)) (of_worker w (pushes t))"
    by blast
  obtain qs hand' where got: "of_worker w (zip (map fst (served t)) qs1) = qs @ hand'" "list_all2 ?P qs its" "list_all2 ?P hand' hand"
    using of_worker_zip [OF assms(3), of w] unfolding its(1) list_all2_append2 by (elim exE conjE) (rule that)
  have "length hand' \<le> 1"
    using list_all2_lengthD [OF got(3)] its(2) by simp
  with got(1) serves_payloads [OF its(3) got(2)] show ?thesis by blast
qed


definition ping_requests :: "py_request list" where
  "ping_requests = [\<lparr>host = str ''http://h'', req_label = str ''ping'', tcp_payload = str ''GET'', consumes = [],
     ext_tpls = [], asserts = []\<rparr>]"

lemma ping_numbered:
  "number_requests [[]] ping_requests = ([indexed (hd ping_requests) 1 2 [] [] []], [[], str ''http://h'', str ''ping''])"
  by (simp add: ping_requests_def metadata_indexed_def add_string_def str_Cons indexed_def unless_empty_def)

lemma ping_ok: "\<forall>r \<in> set ping_requests. request_ok (literal_pkg []) r \<and> consumes r = []"
  by (simp add: ping_requests_def request_ok_def str_scalars utf8_str code_def)

lemma ping_short: "\<forall>m \<in> set [indexed (hd ping_requests) 1 2 [] [] []]. length (dumps m) + 3 < buf_size"
  by (simp add: ping_requests_def indexed_def plen_def unless_empty_def numbers_def py_string_def str_Cons
      utf8_def encode_rune_def py_escape_def itoa_def length_digits buf_size_def surrogate_def)

lemma ping_safe: "\<forall>x \<in> set [[], str ''http://h'', str ''ping'']. line_safe (utf8 x)"
  by (simp add: str_Cons utf8_def encode_rune_def line_safe_def max_token_def byte_def char_of_eq_iff surrogate_def
      LF_char_of)


end
